(* ===== verification/Prelude.thy ===== *)
theory Prelude
  imports Main "HOL-Library.Word"
begin

text \<open>
  Shared vocabulary of the development: the outcome type of fallible C++ code, the names of
  the machine types, hash containers as lists and maps, and the lemma collections that the
  component theories extend.

  Conventions used everywhere:
  \<^item> signed integers (\<open>int32_t\<close>, \<open>int64_t\<close>) are \<^typ>\<open>int\<close>: their overflow is undefined
    behaviour in C++, so the model describes the executions in which none overflows;
  \<^item> unsigned integers whose wrap-around is observable (digests, ids, sizes) are words;
  \<^item> an exception, a call of \<open>std::terminate\<close> and a read outside an object are values of
    \<open>failure\<close>, returned on the left of a sum;
  \<^item> an \<open>unordered_set\<close> or a \<open>flat_hash_set\<close> is a duplicate-free list whose order stands
    for the unspecified iteration order of the container; an \<open>unordered_map\<close> that the code
    never iterates is a partial function.
\<close>

type_synonym path = string
type_synonym session = int
type_synonym zxid = int
type_synonym u64 = "64 word"
type_synonym u8 = "8 word"

datatype failure =
    Logical_error            \<comment> \<open>\<open>Exception(ErrorCodes::LOGICAL_ERROR, ...)\<close>\<close>
  | Bad_arguments            \<comment> \<open>\<open>Exception(ErrorCodes::BAD_ARGUMENTS, ...)\<close>\<close>
  | Storage_inconsistency    \<comment> \<open>\<open>onStorageInconsistency()\<close>, i.e. \<open>std::terminate\<close>\<close>
  | Out_of_range             \<comment> \<open>\<open>std::out_of_range\<close> from \<open>at\<close>\<close>
  | Undefined_behaviour      \<comment> \<open>dereference of \<open>end()\<close>, of a null pointer, overlong \<open>StringRef\<close>\<close>
  | Marshalling_error        \<comment> \<open>\<open>Exception(Error::ZMARSHALLINGERROR, ...)\<close>\<close>
  | Unimplemented            \<comment> \<open>\<open>Exception(Error::ZUNIMPLEMENTED, ...)\<close>\<close>
  | Attempt_to_read_after_eof \<comment> \<open>\<open>ErrorCodes::ATTEMPT_TO_READ_AFTER_EOF\<close>\<close>

type_synonym 'a result = "failure + 'a"

subsection \<open>Sequencing of fallible code\<close>

definition rbind :: "'a result \<Rightarrow> ('a \<Rightarrow> 'b result) \<Rightarrow> 'b result" where
  "rbind r f = (case r of Inl e \<Rightarrow> Inl e | Inr a \<Rightarrow> f a)"

named_theorems result_simps
named_theorems hash_simps

lemma rbind_simps [simp, result_simps]:
  "rbind (Inl e) f = Inl e" "rbind (Inr a) f = f a"
  by (simp_all add: rbind_def)

lemma rbind_eq_Inr [simp, result_simps]:
  "rbind r f = Inr b \<longleftrightarrow> (\<exists>a. r = Inr a \<and> f a = Inr b)"
  by (cases r) simp_all

lemma rbind_assoc: "rbind (rbind r f) g = rbind r (\<lambda>a. rbind (f a) g)"
  by (cases r) simp_all

lemma rbind_cong [fundef_cong]:
  "r = r' \<Longrightarrow> (\<And>a. r' = Inr a \<Longrightarrow> f a = f' a) \<Longrightarrow> rbind r f = rbind r' f'"
  by (cases r') simp_all

text \<open>A loop that threads a state through a list and stops at the first failure.\<close>

fun rfold :: "('s \<Rightarrow> 'a \<Rightarrow> 's result) \<Rightarrow> 's \<Rightarrow> 'a list \<Rightarrow> 's result" where
  "rfold f s [] = Inr s"
| "rfold f s (x # xs) = rbind (f s x) (\<lambda>s'. rfold f s' xs)"

lemma rfold_append [simp, result_simps]:
  "rfold f s (xs @ ys) = rbind (rfold f s xs) (\<lambda>s'. rfold f s' ys)"
  by (induction xs arbitrary: s) (simp_all add: rbind_assoc)

lemma rfold_inv:
  assumes "\<And>s x s'. P s \<Longrightarrow> x \<in> set xs \<Longrightarrow> f s x = Inr s' \<Longrightarrow> P s'"
    and "P s" and "rfold f s xs = Inr s'"
  shows "P s'"
  using assms
proof (induction xs arbitrary: s)
  case (Cons x xs)
  from Cons.prems(3) obtain t where t: "f s x = Inr t" "rfold f t xs = Inr s'" by auto
  from Cons.prems(1,2) t(1) have "P t" by (meson list.set_intros(1))
  with Cons.IH [of t] Cons.prems(1) t(2) show ?case by (meson list.set_intros(2))
qed simp

definition of_option :: "failure \<Rightarrow> 'a option \<Rightarrow> 'a result" where
  "of_option e x = (case x of None \<Rightarrow> Inl e | Some a \<Rightarrow> Inr a)"

lemma of_option_simps [simp, result_simps]:
  "of_option e None = Inl e" "of_option e (Some a) = Inr a"
  by (simp_all add: of_option_def)

lemma of_option_eq_Inr [simp, result_simps]:
  "of_option e x = Inr a \<longleftrightarrow> x = Some a"
  by (cases x) simp_all

subsection \<open>Hash sets as duplicate-free lists\<close>

definition hs_insert :: "'a \<Rightarrow> 'a list \<Rightarrow> 'a list" where
  "hs_insert x xs = (if x \<in> set xs then xs else xs @ [x])"

definition hs_erase :: "'a \<Rightarrow> 'a list \<Rightarrow> 'a list" where
  "hs_erase x xs = filter (\<lambda>y. y \<noteq> x) xs"

lemma set_hs_insert [simp, hash_simps]: "set (hs_insert x xs) = insert x (set xs)"
  by (auto simp: hs_insert_def)

lemma distinct_hs_insert [simp, hash_simps]: "distinct (hs_insert x xs) = distinct xs"
  by (auto simp: hs_insert_def)

lemma set_hs_erase [simp, hash_simps]: "set (hs_erase x xs) = set xs - {x}"
  by (auto simp: hs_erase_def)

lemma distinct_hs_erase [simp, hash_simps]: "distinct xs \<Longrightarrow> distinct (hs_erase x xs)"
  by (simp add: hs_erase_def)

lemma hs_insert_not_Nil [simp]: "hs_insert x xs \<noteq> []"
  by (auto simp: hs_insert_def)

lemma length_hs_insert:
  "length (hs_insert x xs) = (if x \<in> set xs then length xs else Suc (length xs))"
  by (simp add: hs_insert_def)

lemma length_hs_erase:
  "distinct xs \<Longrightarrow> length (hs_erase x xs) = length xs - (if x \<in> set xs then 1 else 0)"
  by (induction xs) (auto simp: hs_erase_def filter_id_conv Suc_diff_le
      dest: length_pos_if_in_set)

lemma hs_erase_id: "x \<notin> set xs \<Longrightarrow> hs_erase x xs = xs"
  by (auto simp: hs_erase_def filter_id_conv)

text \<open>\<open>map[key]\<close> of a map of containers: the entry, or an empty one when there is none.\<close>

definition bucket :: "('k \<rightharpoonup> 'a list) \<Rightarrow> 'k \<Rightarrow> 'a list" where
  "bucket m k = (case m k of None \<Rightarrow> [] | Some xs \<Rightarrow> xs)"

lemma bucket_simps [simp, hash_simps]:
  "bucket (m(k \<mapsto> xs)) k = xs"
  "bucket (m(k := None)) k = []"
  "k \<noteq> l \<Longrightarrow> bucket (m(k := v)) l = bucket m l"
  by (simp_all add: bucket_def)

lemma bucket_empty [simp, hash_simps]: "bucket Map.empty k = []"
  by (simp add: bucket_def)

lemma bucket_None: "m k = None \<Longrightarrow> bucket m k = []"
  by (simp add: bucket_def)

lemma bucket_Some: "m k = Some xs \<Longrightarrow> bucket m k = xs"
  by (simp add: bucket_def)

lemma bucket_upd:
  "bucket (m(k := v)) l = (if k = l then (case v of None \<Rightarrow> [] | Some xs \<Rightarrow> xs) else bucket m l)"
  by (simp add: bucket_def)

end
