(* ===== verification/SnapshotTable.thy ===== *)
theory SnapshotTable
  imports Prelude "HOL-Library.AList" "HOL-Library.Multiset"
begin

text \<open>
  \<open>SnapshotableHashTable\<close> (\<open>src/Coordination/SnapshotableHashTable.h\<close>), the container of the nodes: a
  linked list of elements, a hash map from keys to list iterators, and a mode in which old values stay
  in the list for the writer of a snapshot.

  List iterators are numbers that are never reused, and the list is an association list from them:
  using an iterator that was erased is undefined behaviour. Keys live in the arena; an element refers
  to its key by the number of the allocation, and freeing an allocation twice is undefined behaviour.
  \<open>V::sizeInBytes\<close> is the parameter \<open>sz\<close>; that it is never 0 is a hypothesis of the theorems, since
  \<open>updateDataSize\<close> takes an old size of 0 for a new key (a node counts at least \<open>sizeof(Node)\<close>). The
  62 bit field of the version is written out.

  \<open>table_ok\<close> is the invariant: the map and the list agree, the arena holds exactly the keys of the live
  and of the erased elements, and the data size is the sum over the list. \<open>changes\<close> lists the ways an
  operation may change the table. The locale \<open>node_store\<close> is the contract of a container that refines a
  map, and the table interprets it.
\<close>

subsection \<open>Data\<close>

record 'v ListNode =
  ln_key :: string
  ln_buffer :: nat
  ln_value :: 'v
  active_in_map :: bool
  free_key :: bool
  ln_version :: u64

record 'v SnapshotableHashTable =
  t_list :: "(nat \<times> 'v ListNode) list"
  t_map :: "(string \<times> nat) list"
  snapshot_mode :: bool
  current_version :: u64
  snapshot_up_to_version :: u64
  arena :: "nat list"
  snapshot_invalid_iters :: "nat list"
  approximate_data_size :: u64
  next_iter :: nat
  next_buffer :: nat

definition SnapshotableHashTable_init :: "'v SnapshotableHashTable" where
  "SnapshotableHashTable_init =
     \<lparr>t_list = [], t_map = [], snapshot_mode = False, current_version = 0, snapshot_up_to_version = 0,
      arena = [], snapshot_invalid_iters = [], approximate_data_size = 0, next_iter = 0,
      next_buffer = 0\<rparr>"

subsection \<open>The list and the arena\<close>

definition at_iter :: "'v SnapshotableHashTable \<Rightarrow> nat \<Rightarrow> 'v ListNode result" where
  "at_iter t i = of_option Undefined_behaviour (map_of (t_list t) i)"

definition upd :: "nat \<Rightarrow> ('a \<Rightarrow> 'a) \<Rightarrow> (nat \<times> 'a) list \<Rightarrow> (nat \<times> 'a) list" where
  "upd i f xs = map (\<lambda>(j, e). (j, if j = i then f e else e)) xs"

definition del :: "nat \<Rightarrow> (nat \<times> 'a) list \<Rightarrow> (nat \<times> 'a) list" where
  "del i xs = filter (\<lambda>x. fst x \<noteq> i) xs"

definition change :: "nat \<Rightarrow> ('v ListNode \<Rightarrow> 'v ListNode) \<Rightarrow> 'v SnapshotableHashTable \<Rightarrow> 'v SnapshotableHashTable" where
  "change i f t = t\<lparr>t_list := upd i f (t_list t)\<rparr>"

definition push_back :: "'v ListNode \<Rightarrow> 'v SnapshotableHashTable \<Rightarrow> nat \<times> 'v SnapshotableHashTable" where
  "push_back e t =
     (next_iter t, t\<lparr>t_list := t_list t @ [(next_iter t, e)], next_iter := next_iter t + 1\<rparr>)"

definition list_erase :: "nat \<Rightarrow> 'v SnapshotableHashTable \<Rightarrow> 'v SnapshotableHashTable result" where
  "list_erase i t =
     (if map_of (t_list t) i = None then Inl Undefined_behaviour else Inr (t\<lparr>t_list := del i (t_list t)\<rparr>))"

definition arena_alloc :: "'v SnapshotableHashTable \<Rightarrow> nat \<times> 'v SnapshotableHashTable" where
  "arena_alloc t = (next_buffer t, t\<lparr>arena := arena t @ [next_buffer t], next_buffer := next_buffer t + 1\<rparr>)"

definition arena_free :: "nat \<Rightarrow> 'v SnapshotableHashTable \<Rightarrow> 'v SnapshotableHashTable result" where
  "arena_free b t =
     (if b \<in> set (arena t) then Inr (t\<lparr>arena := remove1 b (arena t)\<rparr>) else Inl Undefined_behaviour)"

definition setVersion :: "u64 \<Rightarrow> 'v ListNode \<Rightarrow> 'v ListNode" where
  "setVersion v e = e\<lparr>ln_version := take_bit 62 v\<rparr>"

definition setInactiveInMap :: "'v ListNode \<Rightarrow> 'v ListNode" where
  "setInactiveInMap e = e\<lparr>active_in_map := False\<rparr>"

definition setActiveInMap :: "'v ListNode \<Rightarrow> 'v ListNode" where
  "setActiveInMap e = e\<lparr>active_in_map := True\<rparr>"

definition setFreeKey :: "'v ListNode \<Rightarrow> 'v ListNode" where
  "setFreeKey e = e\<lparr>free_key := True\<rparr>"

definition ListElem :: "string \<Rightarrow> nat \<Rightarrow> 'v \<Rightarrow> 'v ListNode" where
  "ListElem k b v =
     \<lparr>ln_key = k, ln_buffer = b, ln_value = v, active_in_map = False, free_key = False, ln_version = 0\<rparr>"

subsection \<open>The data size\<close>

datatype TableOperation = INSERT | INSERT_OR_REPLACE | ERASE | UPDATE_VALUE | GET_VALUE | FIND | CONTAINS | CLEAR
  | CLEAR_OUTDATED_NODES

definition updateDataSize :: "TableOperation \<Rightarrow> u64 \<Rightarrow> u64 \<Rightarrow> u64 \<Rightarrow> bool \<Rightarrow> 'v SnapshotableHashTable \<Rightarrow>
    'v SnapshotableHashTable" where
  "updateDataSize op key_size value_size old_value_size remove_old t =
     (let s = approximate_data_size t in
      t\<lparr>approximate_data_size :=
        (case op of
           INSERT \<Rightarrow> s + key_size + value_size
         | INSERT_OR_REPLACE \<Rightarrow>
             if old_value_size \<noteq> 0 then
               (if \<not> snapshot_mode t then s + key_size + value_size - key_size - old_value_size
                else s + key_size + value_size)
             else s + key_size + value_size
         | UPDATE_VALUE \<Rightarrow>
             if remove_old then s + key_size + value_size - key_size - old_value_size
             else s + key_size + value_size
         | ERASE \<Rightarrow> if remove_old then s - key_size - old_value_size else s
         | CLEAR \<Rightarrow> 0
         | CLEAR_OUTDATED_NODES \<Rightarrow> s - key_size - value_size
         | _ \<Rightarrow> s)\<rparr>)"

definition size_of :: "string \<Rightarrow> u64" where
  "size_of k = of_nat (length k)"

subsection \<open>Operations\<close>

definition insert_new :: "string \<Rightarrow> nat \<Rightarrow> 'v \<Rightarrow> 'v SnapshotableHashTable \<Rightarrow>
    nat \<times> 'v SnapshotableHashTable" where
  "insert_new k b v t =
     (case push_back (setVersion (current_version t) (ListElem k b v)) t of (itr, t) \<Rightarrow>
        (itr, change itr setActiveInMap (t\<lparr>t_map := AList.update k itr (t_map t)\<rparr>)))"

definition table_insert :: "('v \<Rightarrow> u64) \<Rightarrow> string \<Rightarrow> 'v \<Rightarrow> 'v SnapshotableHashTable \<Rightarrow>
    (nat \<times> bool) \<times> 'v SnapshotableHashTable" where
  "table_insert sz k v t =
     (case map_of (t_map t) k of
        Some itr \<Rightarrow> ((itr, False), t)
      | None \<Rightarrow>
          (case arena_alloc t of (b, t) \<Rightarrow>
           case insert_new k b v t of (itr, t) \<Rightarrow>
             ((itr, True), updateDataSize INSERT (size_of k) (sz v) 0 True t)))"

text \<open>The private \<open>insertOrReplace\<close>; \<open>b\<close> is the allocation of the key when \<open>owns_key\<close> holds.\<close>

definition insertOrReplace_ref :: "('v \<Rightarrow> u64) \<Rightarrow> string \<Rightarrow> nat \<Rightarrow> 'v \<Rightarrow> bool \<Rightarrow> 'v SnapshotableHashTable \<Rightarrow>
    'v SnapshotableHashTable result" where
  "insertOrReplace_ref sz k b v owns_key t =
     (case map_of (t_map t) k of
        None \<Rightarrow>
          (case (if owns_key then (b, t) else arena_alloc t) of (list_key, t) \<Rightarrow>
           case insert_new k list_key v t of (itr, t) \<Rightarrow>
             Inr (updateDataSize INSERT_OR_REPLACE (size_of k) (sz v) 0 (\<not> snapshot_mode t) t))
      | Some i \<Rightarrow>
          rbind (at_iter t i) (\<lambda>old.
          rbind (if owns_key then arena_free b t else Inr t) (\<lambda>t.
            let t' =
                  (if snapshot_mode t then
                     (case push_back (setVersion (current_version t) (ListElem (ln_key old) (ln_buffer old) v))
                             (change i setInactiveInMap t) of (itr, t) \<Rightarrow>
                        t\<lparr>t_map := AList.update k itr (t_map t),
                          snapshot_invalid_iters := snapshot_invalid_iters t @ [i]\<rparr>)
                   else change i (ln_value_update (\<lambda>_. v)) t)
            in Inr (updateDataSize INSERT_OR_REPLACE (size_of k) (sz v) (sz (ln_value old))
                      (\<not> snapshot_mode t) t'))))"

definition insertOrReplace :: "('v \<Rightarrow> u64) \<Rightarrow> string \<Rightarrow> 'v \<Rightarrow> 'v SnapshotableHashTable \<Rightarrow>
    'v SnapshotableHashTable result" where
  "insertOrReplace sz k v t = insertOrReplace_ref sz k 0 v False t"

text \<open>\<open>allocateKey\<close> followed by the \<open>insertOrReplace\<close> that takes the key over.\<close>

definition insertOrReplace_owned :: "('v \<Rightarrow> u64) \<Rightarrow> string \<Rightarrow> 'v \<Rightarrow> 'v SnapshotableHashTable \<Rightarrow>
    'v SnapshotableHashTable result" where
  "insertOrReplace_owned sz k v t =
     (case arena_alloc t of (b, t) \<Rightarrow> insertOrReplace_ref sz k b v True t)"

definition erase :: "('v \<Rightarrow> u64) \<Rightarrow> string \<Rightarrow> 'v SnapshotableHashTable \<Rightarrow>
    (bool \<times> 'v SnapshotableHashTable) result" where
  "erase sz k t =
     (case map_of (t_map t) k of
        None \<Rightarrow> Inr (False, t)
      | Some i \<Rightarrow>
          rbind (at_iter t i) (\<lambda>old.
          rbind
            (if snapshot_mode t then
               Inr (change i (setFreeKey \<circ> setInactiveInMap)
                 (t\<lparr>snapshot_invalid_iters := snapshot_invalid_iters t @ [i],
                    t_map := AList.delete k (t_map t)\<rparr>))
             else
               rbind (arena_free (ln_buffer old) (t\<lparr>t_map := AList.delete k (t_map t)\<rparr>)) (list_erase i))
            (\<lambda>t'. Inr (True, updateDataSize ERASE (size_of k) 0 (sz (ln_value old)) (\<not> snapshot_mode t) t'))))"

definition contains :: "string \<Rightarrow> 'v SnapshotableHashTable \<Rightarrow> bool" where
  "contains k t \<longleftrightarrow> map_of (t_map t) k \<noteq> None"

definition table_updateValue :: "('v \<Rightarrow> u64) \<Rightarrow> string \<Rightarrow> ('v \<Rightarrow> 'v) \<Rightarrow> 'v SnapshotableHashTable \<Rightarrow>
    (nat \<times> 'v SnapshotableHashTable) result" where
  "table_updateValue sz k updater t =
     rbind (of_option Undefined_behaviour (map_of (t_map t) k)) (\<lambda>i.
     rbind (at_iter t i) (\<lambda>old.
       let copies = snapshot_mode t \<and> ln_version old \<le> snapshot_up_to_version t;
           new_value = updater (ln_value old)
       in case
            (if copies then
               (case push_back (setVersion (current_version t) (old\<lparr>ln_value := new_value\<rparr>))
                       (change i setInactiveInMap t) of (itr, t) \<Rightarrow>
                  (itr, t\<lparr>t_map := AList.update k itr (t_map t),
                          snapshot_invalid_iters := snapshot_invalid_iters t @ [i]\<rparr>))
             else (i, change i (ln_value_update (\<lambda>_. new_value)) t)) of (ret, t') \<Rightarrow>
            Inr (ret, updateDataSize UPDATE_VALUE (size_of k) (sz new_value) (sz (ln_value old)) (\<not> copies) t')))"

definition table_find :: "string \<Rightarrow> 'v SnapshotableHashTable \<Rightarrow> nat option" where
  "table_find k t = map_of (t_map t) k"

definition getValue :: "string \<Rightarrow> 'v SnapshotableHashTable \<Rightarrow> 'v result" where
  "getValue k t =
     rbind (of_option Undefined_behaviour (map_of (t_map t) k)) (\<lambda>i.
       rbind (at_iter t i) (\<lambda>e. Inr (ln_value e)))"

definition clear_outdated :: "('v \<Rightarrow> u64) \<Rightarrow> 'v SnapshotableHashTable \<Rightarrow> nat \<Rightarrow> 'v SnapshotableHashTable result" where
  "clear_outdated sz t i =
     rbind (at_iter t i) (\<lambda>e.
     rbind (let t = updateDataSize CLEAR_OUTDATED_NODES (size_of (ln_key e)) (sz (ln_value e)) 0 True t
            in if free_key e then arena_free (ln_buffer e) t else Inr t) (list_erase i))"

definition clearOutdatedNodes :: "('v \<Rightarrow> u64) \<Rightarrow> 'v SnapshotableHashTable \<Rightarrow> 'v SnapshotableHashTable result" where
  "clearOutdatedNodes sz t =
     rbind (rfold (clear_outdated sz) t (snapshot_invalid_iters t)) (\<lambda>t.
       Inr (t\<lparr>snapshot_invalid_iters := []\<rparr>))"

definition table_clear :: "('v \<Rightarrow> u64) \<Rightarrow> 'v SnapshotableHashTable \<Rightarrow> 'v SnapshotableHashTable result" where
  "table_clear sz t =
     rbind (clearOutdatedNodes sz t) (\<lambda>t.
     rbind (rfold (\<lambda>t x. arena_free (ln_buffer (snd x)) t) (t\<lparr>t_map := []\<rparr>) (t_list t)) (\<lambda>t.
       Inr (updateDataSize CLEAR 0 0 0 True (t\<lparr>t_list := []\<rparr>))))"

definition enableSnapshotMode :: "u64 \<Rightarrow> 'v SnapshotableHashTable \<Rightarrow> 'v SnapshotableHashTable" where
  "enableSnapshotMode version t =
     t\<lparr>snapshot_mode := True, snapshot_up_to_version := version, current_version := current_version t + 1\<rparr>"

definition disableSnapshotMode :: "'v SnapshotableHashTable \<Rightarrow> 'v SnapshotableHashTable" where
  "disableSnapshotMode t = t\<lparr>snapshot_mode := False\<rparr>"

definition table_size :: "'v SnapshotableHashTable \<Rightarrow> nat" where
  "table_size t = length (t_map t)"

definition snapshotSizeWithVersion :: "'v SnapshotableHashTable \<Rightarrow> nat \<times> u64" where
  "snapshotSizeWithVersion t = (length (t_list t), current_version t)"

definition recalculateDataSize :: "('v \<Rightarrow> u64) \<Rightarrow> 'v SnapshotableHashTable \<Rightarrow> 'v SnapshotableHashTable" where
  "recalculateDataSize sz t =
     t\<lparr>approximate_data_size :=
         fold (\<lambda>x s. s + size_of (ln_key (snd x)) + sz (ln_value (snd x))) (t_list t) 0\<rparr>"

subsection \<open>The invariant\<close>

text \<open>The elements that own their key: those in the map, and the erased ones that were not collected.\<close>

definition owned :: "nat set \<Rightarrow> nat \<times> 'v ListNode \<Rightarrow> nat multiset" where
  "owned old x = (if fst x \<notin> old \<or> free_key (snd x) then {#ln_buffer (snd x)#} else {#})"

definition elem_size :: "('v \<Rightarrow> u64) \<Rightarrow> nat \<times> 'v ListNode \<Rightarrow> u64" where
  "elem_size sz x = size_of (ln_key (snd x)) + sz (ln_value (snd x))"

abbreviation outdated :: "'v SnapshotableHashTable \<Rightarrow> nat set" where
  "outdated t \<equiv> set (snapshot_invalid_iters t)"

definition linked :: "(nat \<rightharpoonup> 'v ListNode) \<Rightarrow> (string \<rightharpoonup> nat) \<Rightarrow> nat set \<Rightarrow> bool" where
  "linked L M old \<longleftrightarrow>
     (\<forall>k i. M k = Some i \<longrightarrow> i \<notin> old \<and> (\<exists>e. L i = Some e \<and> ln_key e = k \<and> \<not> free_key e)) \<and>
     (\<forall>i e. L i = Some e \<longrightarrow> i \<in> old \<or> M (ln_key e) = Some i) \<and>
     (\<forall>i\<in>old. \<exists>e. L i = Some e \<and> \<not> active_in_map e)"

definition links_ok :: "'v SnapshotableHashTable \<Rightarrow> bool" where
  "links_ok t \<longleftrightarrow>
     distinct (map fst (t_list t)) \<and> (\<forall>i\<in>set (map fst (t_list t)). i < next_iter t) \<and>
     distinct (map fst (t_map t)) \<and> distinct (snapshot_invalid_iters t) \<and>
     linked (map_of (t_list t)) (map_of (t_map t)) (outdated t)"

definition arena_ok :: "'v SnapshotableHashTable \<Rightarrow> bool" where
  "arena_ok t \<longleftrightarrow>
     distinct (arena t) \<and> (\<forall>b\<in>set (arena t). b < next_buffer t) \<and>
     mset (arena t) = sum_list (map (owned (outdated t)) (t_list t))"

definition size_ok :: "('v \<Rightarrow> u64) \<Rightarrow> 'v SnapshotableHashTable \<Rightarrow> bool" where
  "size_ok sz t \<longleftrightarrow> approximate_data_size t = sum_list (map (elem_size sz) (t_list t))"

definition table_ok :: "('v \<Rightarrow> u64) \<Rightarrow> 'v SnapshotableHashTable \<Rightarrow> bool" where
  "table_ok sz t \<longleftrightarrow> links_ok t \<and> arena_ok t \<and> size_ok sz t"

text \<open>The map that the table stands for.\<close>

definition table_map :: "'v SnapshotableHashTable \<Rightarrow> string \<rightharpoonup> 'v" where
  "table_map t k = map_option ln_value (Option.bind (map_of (t_map t) k) (map_of (t_list t)))"

subsection \<open>Lists with iterators\<close>

lemma map_fst_upd [simp]: "map fst (upd i f xs) = map fst xs"
  by (induction xs) (auto simp: upd_def)

lemma map_of_upd [simp]: "map_of (upd i f xs) = (map_of xs)(i := map_option f (map_of xs i))"
  by (induction xs) (auto simp: upd_def fun_eq_iff)

lemma map_of_del [simp]: "map_of (del i xs) = (map_of xs)(i := None)"
  by (induction xs) (auto simp: del_def fun_eq_iff)

lemma map_of_push: "i \<notin> fst ` set xs \<Longrightarrow> [i \<mapsto> e] ++ map_of xs = (map_of xs)(i \<mapsto> e)"
  by (subst map_add_comm) (auto simp: dom_map_of_conv_image_fst)

lemma distinct_del [simp]: "distinct (map fst xs) \<Longrightarrow> distinct (map fst (del i xs))"
  by (simp add: del_def distinct_map_filter)

lemma map_fst_del: "set (map fst (del i xs)) = set (map fst xs) - {i}"
  by (auto simp: del_def)

lemma split_at:
  assumes "distinct (map fst xs)" and "map_of xs i = Some e"
  obtains ys zs where "xs = ys @ (i, e) # zs" and "i \<notin> fst ` set ys" and "i \<notin> fst ` set zs"
proof -
  have "(i, e) \<in> set xs" using assms(2) by (rule map_of_SomeD)
  then obtain ys zs where "xs = ys @ (i, e) # zs" by (auto dest: split_list)
  with assms(1) that show ?thesis by auto
qed

lemma upd_id: "i \<notin> fst ` set xs \<Longrightarrow> upd i f xs = xs"
  by (induction xs) (auto simp: upd_def)

lemma del_id: "i \<notin> fst ` set xs \<Longrightarrow> del i xs = xs"
  by (induction xs) (auto simp: del_def)

lemma upd_append [simp]: "upd i f (xs @ ys) = upd i f xs @ upd i f ys"
  by (simp add: upd_def)

lemma del_append [simp]: "del i (xs @ ys) = del i xs @ del i ys"
  by (simp add: del_def)

lemma upd_Cons [simp]: "upd i f ((j, e) # xs) = (j, if j = i then f e else e) # upd i f xs"
  by (simp add: upd_def)

lemma del_Cons [simp]: "del i ((j, e) # xs) = (if j = i then del i xs else (j, e) # del i xs)"
  by (simp add: del_def)

lemma upd_Nil [simp]: "upd i f [] = []" and del_Nil [simp]: "del i [] = []"
  by (simp_all add: upd_def del_def)

text \<open>What a change of one element does to a sum over the list.\<close>

lemma sum_upd:
  fixes w w' :: "nat \<times> 'a \<Rightarrow> 'b :: cancel_comm_monoid_add"
  assumes "distinct (map fst xs)" and "map_of xs i = Some e" and "\<And>x. fst x \<noteq> i \<Longrightarrow> w' x = w x"
  shows "sum_list (map w' (upd i f xs)) + w (i, e) = sum_list (map w xs) + w' (i, f e)"
proof -
  obtain ys zs where xs: "xs = ys @ (i, e) # zs" "i \<notin> fst ` set ys" "i \<notin> fst ` set zs"
    using split_at [OF assms(1,2)] by blast
  then have "sum_list (map w' ys) = sum_list (map w ys)" "sum_list (map w' zs) = sum_list (map w zs)"
    using assms(3) by (auto intro!: arg_cong [of _ _ sum_list] map_cong simp: image_iff)
  with xs show ?thesis by (simp add: upd_id ac_simps)
qed

lemma sum_del:
  fixes w w' :: "nat \<times> 'a \<Rightarrow> 'b :: cancel_comm_monoid_add"
  assumes "distinct (map fst xs)" and "map_of xs i = Some e" and "\<And>x. fst x \<noteq> i \<Longrightarrow> w' x = w x"
  shows "sum_list (map w' (del i xs)) + w (i, e) = sum_list (map w xs)"
proof -
  obtain ys zs where xs: "xs = ys @ (i, e) # zs" "i \<notin> fst ` set ys" "i \<notin> fst ` set zs"
    using split_at [OF assms(1,2)] by blast
  then have "sum_list (map w' ys) = sum_list (map w ys)" "sum_list (map w' zs) = sum_list (map w zs)"
    using assms(3) by (auto intro!: arg_cong [of _ _ sum_list] map_cong simp: image_iff)
  with xs show ?thesis by (simp add: del_id ac_simps)
qed

subsection \<open>The changes that operations consist of\<close>

lemma links_okD:
  assumes "links_ok t"
  shows "distinct (map fst (t_list t))" "\<And>i. i \<in> fst ` set (t_list t) \<Longrightarrow> i < next_iter t"
    "distinct (map fst (t_map t))" "distinct (snapshot_invalid_iters t)"
    "linked (map_of (t_list t)) (map_of (t_map t)) (outdated t)"
  using assms unfolding links_ok_def by (blast, simp, blast+)

lemma linkedI:
  assumes "\<And>k i. M k = Some i \<Longrightarrow> i \<notin> old \<and> (\<exists>e. L i = Some e \<and> ln_key e = k \<and> \<not> free_key e)"
    and "\<And>i e. L i = Some e \<Longrightarrow> i \<in> old \<or> M (ln_key e) = Some i"
    and "\<And>i. i \<in> old \<Longrightarrow> \<exists>e. L i = Some e \<and> \<not> active_in_map e"
  shows "linked L M old"
  by (simp add: linked_def assms)

lemma linkedD:
  assumes "linked L M old"
  shows "M k = Some i \<Longrightarrow> i \<notin> old" "M k = Some i \<Longrightarrow> \<exists>e. L i = Some e \<and> ln_key e = k \<and> \<not> free_key e"
    "L i = Some e \<Longrightarrow> i \<in> old \<or> M (ln_key e) = Some i" "i \<in> old \<Longrightarrow> \<exists>e. L i = Some e \<and> \<not> active_in_map e"
proof -
  note d = assms [unfolded linked_def]
  show "M k = Some i \<Longrightarrow> i \<notin> old" using conjunct1 [OF d] by meson
  show "M k = Some i \<Longrightarrow> \<exists>e. L i = Some e \<and> ln_key e = k \<and> \<not> free_key e" using conjunct1 [OF d] by meson
  show "L i = Some e \<Longrightarrow> i \<in> old \<or> M (ln_key e) = Some i" using conjunct1 [OF conjunct2 [OF d]] by meson
  show "i \<in> old \<Longrightarrow> \<exists>e. L i = Some e \<and> \<not> active_in_map e" using conjunct2 [OF conjunct2 [OF d]] by (rule bspec)
qed

lemma linked_fresh: "linked L M old \<Longrightarrow> L n = None \<Longrightarrow> n \<notin> old \<and> M k \<noteq> Some n"
  by (metis linkedD(2,4) option.distinct(1))

lemma linked_inj: "linked L M old \<Longrightarrow> M k = Some i \<Longrightarrow> M k' = Some i \<Longrightarrow> k = k'"
  by (metis linkedD(2) option.inject)

lemma fresh_iter:
  assumes "links_ok t"
  shows "next_iter t \<notin> fst ` set (t_list t)" "map_of (t_list t) (next_iter t) = None" "next_iter t \<notin> outdated t"
proof -
  show 1: "next_iter t \<notin> fst ` set (t_list t)" using links_okD(2) [OF assms] by blast
  then show 2: "map_of (t_list t) (next_iter t) = None" by (simp add: map_of_eq_None_iff)
  show "next_iter t \<notin> outdated t" using linked_fresh [OF links_okD(5) [OF assms] 2] by blast
qed

definition table_of :: "(nat \<rightharpoonup> 'v ListNode) \<Rightarrow> (string \<rightharpoonup> nat) \<Rightarrow> string \<rightharpoonup> 'v" where
  "table_of L M k = map_option ln_value (Option.bind (M k) L)"

lemma table_map_of: "table_map t = table_of (map_of (t_list t)) (map_of (t_map t))"
  by (simp add: fun_eq_iff table_map_def table_of_def)

lemma table_of_upd:
  "table_of L M k = (case M k of None \<Rightarrow> None | Some i \<Rightarrow> map_option ln_value (L i))"
  by (simp add: table_of_def split: option.split)

lemma linked_add:
  assumes "linked L M old" and "M k = None" and "L n = None" and "ln_key e = k" and "\<not> free_key e"
  shows "linked (L(n \<mapsto> e)) (M(k \<mapsto> n)) old" "table_of (L(n \<mapsto> e)) (M(k \<mapsto> n)) = (table_of L M)(k \<mapsto> ln_value e)"
proof -
  note n = linked_fresh [OF assms(1,3)] and d = linkedD [OF assms(1)]
  show "linked (L(n \<mapsto> e)) (M(k \<mapsto> n)) old"
  proof (rule linkedI)
    show "i \<notin> old \<and> (\<exists>e'. (L(n \<mapsto> e)) i = Some e' \<and> ln_key e' = k' \<and> \<not> free_key e')"
      if "(M(k \<mapsto> n)) k' = Some i" for k' i
      using that n [of k'] d(1,2) [of k' i] assms(4,5) by (auto split: if_splits)
    show "i \<in> old \<or> (M(k \<mapsto> n)) (ln_key e') = Some i" if "(L(n \<mapsto> e)) i = Some e'" for i e'
      using that d(3) [of i e'] assms(2,4) by (auto split: if_splits)
    show "\<exists>e'. (L(n \<mapsto> e)) i = Some e' \<and> \<not> active_in_map e'" if "i \<in> old" for i
      using that d(4) [of i] n [of k] by (cases "i = n") auto
  qed
  show "table_of (L(n \<mapsto> e)) (M(k \<mapsto> n)) = (table_of L M)(k \<mapsto> ln_value e)"
    using n by (auto simp: table_of_upd fun_eq_iff split: option.split)
qed

text \<open>A value that is replaced while the old one stays in the list.\<close>

lemma linked_supersede:
  assumes "linked L M old" and "M k = Some i" and "L i = Some o'" and "L n = None"
    and "ln_key e = k" and "\<not> free_key e"
  shows "linked (L(i \<mapsto> setInactiveInMap o', n \<mapsto> e)) (M(k \<mapsto> n)) (Set.insert i old)"
    "table_of (L(i \<mapsto> setInactiveInMap o', n \<mapsto> e)) (M(k \<mapsto> n)) = (table_of L M)(k \<mapsto> ln_value e)"
proof -
  note n = linked_fresh [OF assms(1,4)] and d = linkedD [OF assms(1)]
  have "i \<noteq> n" using assms(3,4) by auto
  have key: "ln_key o' = k" using d(2) [OF assms(2)] assms(3) by auto
  have other: "M k' = Some i \<Longrightarrow> k' = k" for k' using linked_inj [OF assms(1) _ assms(2)] by blast
  show "linked (L(i \<mapsto> setInactiveInMap o', n \<mapsto> e)) (M(k \<mapsto> n)) (Set.insert i old)"
  proof (rule linkedI)
    show "j \<notin> Set.insert i old \<and> (\<exists>e'. (L(i \<mapsto> setInactiveInMap o', n \<mapsto> e)) j = Some e' \<and> ln_key e' = k' \<and> \<not> free_key e')"
      if "(M(k \<mapsto> n)) k' = Some j" for k' j
      using that n [of k'] d(1,2) [of k' j] other [of k'] assms(5,6) \<open>i \<noteq> n\<close> by (auto split: if_splits)
    show "j \<in> Set.insert i old \<or> (M(k \<mapsto> n)) (ln_key e') = Some j"
      if "(L(i \<mapsto> setInactiveInMap o', n \<mapsto> e)) j = Some e'" for j e'
      using that d(3) [of j e'] assms(2,5) by (auto split: if_splits)
    show "\<exists>e'. (L(i \<mapsto> setInactiveInMap o', n \<mapsto> e)) j = Some e' \<and> \<not> active_in_map e'" if "j \<in> Set.insert i old" for j
      using that d(4) [of j] n [of k] \<open>i \<noteq> n\<close> by (cases "j = i") (auto simp: setInactiveInMap_def)
  qed
  show "table_of (L(i \<mapsto> setInactiveInMap o', n \<mapsto> e)) (M(k \<mapsto> n)) = (table_of L M)(k \<mapsto> ln_value e)"
  proof
    fix k'
    show "table_of (L(i \<mapsto> setInactiveInMap o', n \<mapsto> e)) (M(k \<mapsto> n)) k' = ((table_of L M)(k \<mapsto> ln_value e)) k'"
      using n [of k'] other [of k'] by (auto simp: table_of_upd split: option.split)
  qed
qed

lemma linked_assign:
  assumes "linked L M old" and "M k = Some i" and "L i = Some o'"
    and e: "ln_key e = ln_key o'" "free_key e = free_key o'"
  shows "linked (L(i \<mapsto> e)) M old" "table_of (L(i \<mapsto> e)) M = (table_of L M)(k \<mapsto> ln_value e)"
proof -
  note d = linkedD [OF assms(1)]
  have old: "i \<notin> old" by (rule d(1) [OF assms(2)])
  have key: "ln_key o' = k" "\<not> free_key o'" using d(2) [OF assms(2)] assms(3) by auto
  show "linked (L(i \<mapsto> e)) M old"
  proof (rule linkedI)
    show "j \<notin> old \<and> (\<exists>e'. (L(i \<mapsto> e)) j = Some e' \<and> ln_key e' = k' \<and> \<not> free_key e')"
      if "M k' = Some j" for k' j
      using d(1,2) [OF that] linked_inj [OF assms(1) that, of k] assms(2) e key by (cases "j = i") auto
    show "j \<in> old \<or> M (ln_key e') = Some j" if "(L(i \<mapsto> e)) j = Some e'" for j e'
      using that d(3) [of j e'] assms(2) e key by (cases "j = i") auto
    show "\<exists>e'. (L(i \<mapsto> e)) j = Some e' \<and> \<not> active_in_map e'" if "j \<in> old" for j
      using d(4) [OF that] that old by (cases "j = i") auto
  qed
  show "table_of (L(i \<mapsto> e)) M = (table_of L M)(k \<mapsto> ln_value e)"
  proof
    fix k'
    show "table_of (L(i \<mapsto> e)) M k' = ((table_of L M)(k \<mapsto> ln_value e)) k'"
    proof (cases "M k' = Some i")
      case True
      then show ?thesis using linked_inj [OF assms(1) _ assms(2)] by (simp add: table_of_upd)
    next
      case False
      with assms(2) show ?thesis by (cases "M k'") (auto simp: table_of_upd)
    qed
  qed
qed

text \<open>A key that goes out of the map; its element stays behind or is erased.\<close>

lemma table_of_delete:
  assumes "linked L M old" and "M k = Some i" and "\<And>j. j \<noteq> i \<Longrightarrow> L' j = L j"
  shows "table_of L' (M(k := None)) = (table_of L M)(k := None)"
proof
  fix k'
  show "table_of L' (M(k := None)) k' = ((table_of L M)(k := None)) k'"
  proof (cases "k' = k \<or> M k' = None")
    case False
    then obtain j where j: "M k' = Some j" "k' \<noteq> k" by auto
    then have "j \<noteq> i" using linked_inj [OF assms(1) _ assms(2)] by blast
    with j assms(3) show ?thesis by (simp add: table_of_upd)
  qed (auto simp: table_of_upd)
qed

lemma linked_retire:
  assumes "linked L M old" and "M k = Some i" and "L i = Some o'"
  shows "linked (L(i \<mapsto> setFreeKey (setInactiveInMap o'))) (M(k := None)) (Set.insert i old)"
proof (rule linkedI)
  note d = linkedD [OF assms(1)]
  let ?L = "L(i \<mapsto> setFreeKey (setInactiveInMap o'))"
  show "j \<notin> Set.insert i old \<and> (\<exists>e. ?L j = Some e \<and> ln_key e = k' \<and> \<not> free_key e)"
    if "(M(k := None)) k' = Some j" for k' j
  proof -
    have k': "k' \<noteq> k" "M k' = Some j" using that by (auto split: if_splits)
    then have "j \<noteq> i" using linked_inj [OF assms(1) _ assms(2), of k'] by auto
    with d(1,2) [OF k'(2)] show ?thesis by auto
  qed
  show "j \<in> Set.insert i old \<or> (M(k := None)) (ln_key e) = Some j" if "?L j = Some e" for j e
    using that d(3) [of j e] assms(2) by (auto split: if_splits)
  show "\<exists>e. ?L j = Some e \<and> \<not> active_in_map e" if "j \<in> Set.insert i old" for j
    using that d(4) [of j] by (cases "j = i") (auto simp: setFreeKey_def setInactiveInMap_def)
qed

lemma linked_drop:
  assumes "linked L M old" and "M k = Some i"
  shows "linked (L(i := None)) (M(k := None)) old"
proof (rule linkedI)
  note d = linkedD [OF assms(1)]
  show "j \<notin> old \<and> (\<exists>e. (L(i := None)) j = Some e \<and> ln_key e = k' \<and> \<not> free_key e)"
    if "(M(k := None)) k' = Some j" for k' j
  proof -
    have k': "k' \<noteq> k" "M k' = Some j" using that by (auto split: if_splits)
    then have "j \<noteq> i" using linked_inj [OF assms(1) _ assms(2), of k'] by auto
    with d(1,2) [OF k'(2)] show ?thesis by auto
  qed
  show "j \<in> old \<or> (M(k := None)) (ln_key e) = Some j" if "(L(i := None)) j = Some e" for j e
    using that d(3) [of j e] assms(2) by (auto split: if_splits)
  show "\<exists>e. (L(i := None)) j = Some e \<and> \<not> active_in_map e" if "j \<in> old" for j
    using that d(4) [of j] d(1) [OF assms(2)] by (cases "j = i") auto
qed

lemma linked_collect:
  assumes "linked L M (Set.insert i old)" and "i \<notin> old"
  shows "linked (L(i := None)) M old" "table_of (L(i := None)) M = table_of L M"
proof -
  note d = linkedD [OF assms(1)]
  have live: "M k \<noteq> Some i" for k using d(1) [of k i] by auto
  show "linked (L(i := None)) M old"
  proof (rule linkedI)
    show "j \<notin> old \<and> (\<exists>e. (L(i := None)) j = Some e \<and> ln_key e = k \<and> \<not> free_key e)" if "M k = Some j" for k j
      using d(1,2) [OF that] by auto
    show "j \<in> old \<or> M (ln_key e) = Some j" if "(L(i := None)) j = Some e" for j e
      using that d(3) [of j e] by (auto split: if_splits)
    show "\<exists>e. (L(i := None)) j = Some e \<and> \<not> active_in_map e" if "j \<in> old" for j
      using that d(4) [of j] assms(2) by (cases "j = i") auto
  qed
  show "table_of (L(i := None)) M = table_of L M"
    using live by (auto simp: table_of_upd fun_eq_iff split: option.split)
qed

subsection \<open>The changes of the table\<close>

text \<open>An operation adds a key, supersedes or assigns a value, or retires or drops a key.\<close>

definition added :: "('v \<Rightarrow> u64) \<Rightarrow> string \<Rightarrow> 'v ListNode \<Rightarrow> 'v SnapshotableHashTable \<Rightarrow> 'v SnapshotableHashTable" where
  "added sz k e t =
     t\<lparr>t_list := t_list t @ [(next_iter t, e)], next_iter := next_iter t + 1,
       t_map := AList.update k (next_iter t) (t_map t), arena := arena t @ [next_buffer t],
       next_buffer := next_buffer t + 1,
       approximate_data_size := approximate_data_size t + elem_size sz (next_iter t, e)\<rparr>"

definition superseded :: "('v \<Rightarrow> u64) \<Rightarrow> string \<Rightarrow> nat \<Rightarrow> 'v ListNode \<Rightarrow> 'v SnapshotableHashTable \<Rightarrow>
    'v SnapshotableHashTable" where
  "superseded sz k i e t =
     t\<lparr>t_list := upd i setInactiveInMap (t_list t) @ [(next_iter t, e)], next_iter := next_iter t + 1,
       t_map := AList.update k (next_iter t) (t_map t),
       snapshot_invalid_iters := snapshot_invalid_iters t @ [i],
       approximate_data_size := approximate_data_size t + elem_size sz (next_iter t, e)\<rparr>"

definition assigned :: "('v \<Rightarrow> u64) \<Rightarrow> nat \<Rightarrow> 'v \<Rightarrow> 'v \<Rightarrow> 'v SnapshotableHashTable \<Rightarrow> 'v SnapshotableHashTable" where
  "assigned sz i old v t =
     t\<lparr>t_list := upd i (ln_value_update (\<lambda>_. v)) (t_list t),
       approximate_data_size := approximate_data_size t + sz v - sz old\<rparr>"

definition retired :: "string \<Rightarrow> nat \<Rightarrow> 'v SnapshotableHashTable \<Rightarrow> 'v SnapshotableHashTable" where
  "retired k i t =
     t\<lparr>t_list := upd i (setFreeKey \<circ> setInactiveInMap) (t_list t), t_map := AList.delete k (t_map t),
       snapshot_invalid_iters := snapshot_invalid_iters t @ [i]\<rparr>"

definition dropped :: "('v \<Rightarrow> u64) \<Rightarrow> string \<Rightarrow> nat \<Rightarrow> 'v ListNode \<Rightarrow> 'v SnapshotableHashTable \<Rightarrow>
    'v SnapshotableHashTable" where
  "dropped sz k i old t =
     t\<lparr>t_list := del i (t_list t), t_map := AList.delete k (t_map t),
       arena := remove1 (ln_buffer old) (arena t),
       approximate_data_size := approximate_data_size t - elem_size sz (i, old)\<rparr>"

lemma table_okD:
  assumes "table_ok sz t"
  shows "links_ok t" "arena_ok t" "size_ok sz t"
  using assms by (simp_all add: table_ok_def)

lemma owned_outdated: "x \<in> set xs \<Longrightarrow> owned old x \<subseteq># sum_list (map (owned old) xs)"
  by (metis list.set_map mset_subset_eq_add_left add.commute sum_list_map_remove1)

lemma owned_arena:
  assumes "arena_ok t" and "map_of (t_list t) i = Some e" and "i \<notin> outdated t \<or> free_key e"
  shows "ln_buffer e \<in> set (arena t)"
proof -
  have "(i, e) \<in> set (t_list t)" using assms(2) by (rule map_of_SomeD)
  then have "owned (outdated t) (i, e) \<subseteq># mset (arena t)"
    using owned_outdated assms(1) unfolding arena_ok_def by metis
  then show ?thesis using assms(3) by (auto simp: owned_def)
qed

lemma added_ok:
  assumes ok: "table_ok sz t" and k: "map_of (t_map t) k = None"
    and e: "ln_key e = k" "ln_buffer e = next_buffer t" "\<not> free_key e"
  shows "table_ok sz (added sz k e t)" "table_map (added sz k e t) = (table_map t)(k \<mapsto> ln_value e)"
proof -
  note t = table_okD [OF ok]
  note l = links_okD [OF t(1)] and n = fresh_iter [OF t(1)]
  have L: "map_of (t_list (added sz k e t)) = (map_of (t_list t))(next_iter t \<mapsto> e)"
    "map_of (t_map (added sz k e t)) = (map_of (t_map t))(k \<mapsto> next_iter t)"
    using n(1) by (simp_all add: added_def map_of_push update_conv')
  have "links_ok (added sz k e t)"
    unfolding links_ok_def L using l n linked_add(1) [OF l(5) k n(2) e(1,3)]
    by (auto simp: added_def distinct_update less_Suc_eq)
  moreover have "arena_ok (added sz k e t)"
    using t(2) n(3) e(2) by (auto simp: arena_ok_def added_def owned_def less_Suc_eq)
  moreover have "size_ok sz (added sz k e t)"
    using t(3) by (simp add: size_ok_def added_def)
  ultimately show "table_ok sz (added sz k e t)" by (simp add: table_ok_def)
  show "table_map (added sz k e t) = (table_map t)(k \<mapsto> ln_value e)"
    unfolding table_map_of L by (rule linked_add(2) [OF l(5) k n(2) e(1,3)])
qed

lemma superseded_ok:
  assumes ok: "table_ok sz t" and k: "map_of (t_map t) k = Some i" "map_of (t_list t) i = Some old"
    and e: "ln_key e = k" "ln_buffer e = ln_buffer old" "\<not> free_key e"
  shows "table_ok sz (superseded sz k i e t)" "table_map (superseded sz k i e t) = (table_map t)(k \<mapsto> ln_value e)"
proof -
  note t = table_okD [OF ok]
  note l = links_okD [OF t(1)] and n = fresh_iter [OF t(1)]
  have fst: "fst ` set (upd i setInactiveInMap (t_list t)) = fst ` set (t_list t)"
    by (metis list.set_map map_fst_upd)
  have ne: "i \<noteq> next_iter t" using k(2) n(2) by auto
  have L: "map_of (t_list (superseded sz k i e t)) = (map_of (t_list t))(i \<mapsto> setInactiveInMap old, next_iter t \<mapsto> e)"
    "map_of (t_map (superseded sz k i e t)) = (map_of (t_map t))(k \<mapsto> next_iter t)"
    using k(2) ne n(1) by (simp_all add: superseded_def map_of_push update_conv' fun_upd_twist)
  have out: "outdated (superseded sz k i e t) = Set.insert i (outdated t)" by (simp add: superseded_def)
  note link = linked_supersede [OF l(5) k n(2) e(1,3)]
  have old: "i \<notin> outdated t" "\<not> free_key old" using linkedD(1,2) [OF l(5) k(1)] k(2) by auto
  have "links_ok (superseded sz k i e t)"
    unfolding links_ok_def L out using l(1-4) n(1) link(1) old(1) fst
    by (auto simp: superseded_def distinct_update less_Suc_eq)
  moreover have "arena_ok (superseded sz k i e t)"
  proof -
    have "sum_list (map (owned (Set.insert i (outdated t))) (upd i setInactiveInMap (t_list t))) +
        owned (outdated t) (i, old) =
        sum_list (map (owned (outdated t)) (t_list t)) + owned (Set.insert i (outdated t)) (i, setInactiveInMap old)"
      by (rule sum_upd [OF l(1) k(2)]) (simp add: owned_def)
    then have "sum_list (map (owned (Set.insert i (outdated t))) (upd i setInactiveInMap (t_list t))) +
        {#ln_buffer old#} = mset (arena t)"
      using t(2) old by (simp add: owned_def setInactiveInMap_def arena_ok_def)
    then show ?thesis
      using t(2) n(3) e(2) ne by (simp add: arena_ok_def superseded_def owned_def)
  qed
  moreover have "size_ok sz (superseded sz k i e t)"
    using t(3) sum_upd [OF l(1) k(2), of "elem_size sz" "elem_size sz" setInactiveInMap]
    by (simp add: size_ok_def superseded_def elem_size_def setInactiveInMap_def)
  ultimately show "table_ok sz (superseded sz k i e t)" by (simp add: table_ok_def)
  show "table_map (superseded sz k i e t) = (table_map t)(k \<mapsto> ln_value e)"
    unfolding table_map_of L by (rule link(2))
qed

lemma assigned_ok:
  assumes ok: "table_ok sz t" and k: "map_of (t_map t) k = Some i" "map_of (t_list t) i = Some old"
  shows "table_ok sz (assigned sz i (ln_value old) v t)"
    "table_map (assigned sz i (ln_value old) v t) = (table_map t)(k \<mapsto> v)"
proof -
  note t = table_okD [OF ok]
  note l = links_okD [OF t(1)]
  let ?t = "assigned sz i (ln_value old) v t" and ?f = "ln_value_update (\<lambda>_. v)"
  have L: "map_of (t_list ?t) = (map_of (t_list t))(i \<mapsto> old\<lparr>ln_value := v\<rparr>)" "t_map ?t = t_map t"
    using k(2) by (simp_all add: assigned_def)
  note link = linked_assign [OF l(5) k, of "old\<lparr>ln_value := v\<rparr>"]
  have fst: "fst ` set (upd i ?f (t_list t)) = fst ` set (t_list t)" by (metis list.set_map map_fst_upd)
  have "links_ok ?t"
    unfolding links_ok_def L using l(1-4) link(1) fst by (auto simp: assigned_def)
  moreover have "arena_ok ?t"
    using t(2) sum_upd [OF l(1) k(2), of "owned (outdated t)" "owned (outdated t)" ?f]
    by (simp add: arena_ok_def assigned_def owned_def split: if_splits)
  moreover have "size_ok sz ?t"
    using t(3) sum_upd [OF l(1) k(2), of "elem_size sz" "elem_size sz" ?f]
    by (simp add: size_ok_def assigned_def elem_size_def algebra_simps)
  ultimately show "table_ok sz ?t" by (simp add: table_ok_def)
  show "table_map ?t = (table_map t)(k \<mapsto> v)" unfolding table_map_of L using link(2) by simp
qed

lemma retired_ok:
  assumes ok: "table_ok sz t" and k: "map_of (t_map t) k = Some i" "map_of (t_list t) i = Some old"
  shows "table_ok sz (retired k i t)" "table_map (retired k i t) = (table_map t)(k := None)"
proof -
  note t = table_okD [OF ok]
  note l = links_okD [OF t(1)]
  let ?t = "retired k i t" and ?f = "setFreeKey \<circ> setInactiveInMap"
  have L: "map_of (t_list ?t) = (map_of (t_list t))(i \<mapsto> setFreeKey (setInactiveInMap old))"
    "map_of (t_map ?t) = (map_of (t_map t))(k := None)"
    using k(2) by (simp_all add: retired_def delete_conv')
  have out: "outdated ?t = Set.insert i (outdated t)" by (simp add: retired_def)
  have old: "i \<notin> outdated t" "\<not> free_key old" using linkedD(1,2) [OF l(5) k(1)] k(2) by auto
  have fst: "fst ` set (upd i ?f (t_list t)) = fst ` set (t_list t)" by (metis list.set_map map_fst_upd)
  have "links_ok ?t"
    unfolding links_ok_def L out using l(1-4) linked_retire [OF l(5) k] old(1) fst
    by (auto simp: retired_def distinct_delete)
  moreover have "sum_list (map (owned (Set.insert i (outdated t))) (upd i ?f (t_list t))) + owned (outdated t) (i, old) =
      sum_list (map (owned (outdated t)) (t_list t)) + owned (Set.insert i (outdated t)) (i, ?f old)"
    by (rule sum_upd [OF l(1) k(2)]) (simp add: owned_def)
  then have "arena_ok ?t"
    using t(2) old(1) by (simp add: arena_ok_def retired_def owned_def setFreeKey_def setInactiveInMap_def)
  moreover have "size_ok sz ?t"
    using t(3) sum_upd [OF l(1) k(2), of "elem_size sz" "elem_size sz" ?f]
    by (simp add: size_ok_def retired_def elem_size_def setFreeKey_def setInactiveInMap_def)
  ultimately show "table_ok sz ?t" by (simp add: table_ok_def)
  show "table_map ?t = (table_map t)(k := None)"
    unfolding table_map_of L by (rule table_of_delete [OF l(5) k(1)]) simp
qed

lemma dropped_ok:
  assumes ok: "table_ok sz t" and k: "map_of (t_map t) k = Some i" "map_of (t_list t) i = Some old"
  shows "table_ok sz (dropped sz k i old t)" "table_map (dropped sz k i old t) = (table_map t)(k := None)"
proof -
  note t = table_okD [OF ok]
  note l = links_okD [OF t(1)]
  let ?t = "dropped sz k i old t"
  have L: "map_of (t_list ?t) = (map_of (t_list t))(i := None)" "map_of (t_map ?t) = (map_of (t_map t))(k := None)"
    by (simp_all add: dropped_def delete_conv')
  have old: "i \<notin> outdated t" using linkedD(1) [OF l(5) k(1)] .
  have sub: "set (del i (t_list t)) \<subseteq> set (t_list t)" by (auto simp: del_def)
  have "links_ok ?t"
    unfolding links_ok_def L using l(1-4) linked_drop [OF l(5) k(1)] sub
    by (auto simp: dropped_def distinct_delete)
  moreover have "sum_list (map (owned (outdated t)) (del i (t_list t))) + owned (outdated t) (i, old) =
      sum_list (map (owned (outdated t)) (t_list t))"
    by (rule sum_del [OF l(1) k(2)]) simp
  then have "mset (remove1 (ln_buffer old) (arena t)) = sum_list (map (owned (outdated t)) (del i (t_list t)))"
    using t(2) old by (simp add: arena_ok_def owned_def) (metis add_mset_remove_trivial)
  then have "arena_ok ?t" using t(2) by (auto simp: arena_ok_def dropped_def dest: notin_set_remove1)
  moreover have "size_ok sz ?t"
    using t(3) sum_del [OF l(1) k(2), of "elem_size sz" "elem_size sz"]
    by (simp add: size_ok_def dropped_def algebra_simps)
  ultimately show "table_ok sz ?t" by (simp add: table_ok_def)
  show "table_map ?t = (table_map t)(k := None)"
    unfolding table_map_of L by (rule table_of_delete [OF l(5) k(1)]) simp
qed

subsection \<open>The operations on a well-formed table\<close>

lemma change_pushed:
  "links_ok t \<Longrightarrow> upd (next_iter t) f (t_list t @ [(next_iter t, e)]) = t_list t @ [(next_iter t, f e)]"
  using fresh_iter(1) [of t] by (simp add: upd_id)

lemma table_insert_new:
  fixes v :: 'v
  assumes "links_ok t" and "map_of (t_map t) k = None"
  defines "e \<equiv> setActiveInMap (setVersion (current_version t) (ListElem k (next_buffer t) v))"
  shows "table_insert sz k v t = ((next_iter t, True), added sz k e t)"
    "insertOrReplace sz k v t = Inr (added sz k e t)" "insertOrReplace_owned sz k v t = Inr (added sz k e t)"
  using assms(1,2) change_pushed [OF assms(1)]
  by (simp_all add: e_def table_insert_def insertOrReplace_def insertOrReplace_owned_def insertOrReplace_ref_def insert_new_def
      arena_alloc_def push_back_def change_def added_def updateDataSize_def elem_size_def ListElem_def setVersion_def
      setActiveInMap_def add.assoc)

lemma new_element [simp]:
  "ln_key (setActiveInMap (setVersion z (ListElem k b v))) = k" "ln_buffer (setActiveInMap (setVersion z (ListElem k b v))) = b"
  "free_key (setActiveInMap (setVersion z (ListElem k b v))) = False"
  "ln_value (setActiveInMap (setVersion z (ListElem k b v))) = v"
  "ln_version (setActiveInMap (setVersion z (ListElem k b v))) = take_bit 62 z"
  "ln_key (setVersion z (ListElem k b v)) = k" "ln_buffer (setVersion z (ListElem k b v)) = b"
  "free_key (setVersion z (ListElem k b v)) = False" "ln_value (setVersion z (ListElem k b v)) = v"
  "ln_version (setVersion z (ListElem k b v)) = take_bit 62 z"
  by (simp_all add: setActiveInMap_def setVersion_def ListElem_def)

lemma size_cancel: "s + key + v - key - w = s + v - (w :: u64)"
  by simp

text \<open>\<open>insertOrReplace\<close> of a key that is there, without and with a key of its own.\<close>

definition replaced :: "('v \<Rightarrow> u64) \<Rightarrow> string \<Rightarrow> nat \<Rightarrow> 'v ListNode \<Rightarrow> 'v \<Rightarrow> 'v SnapshotableHashTable \<Rightarrow>
    'v SnapshotableHashTable" where
  "replaced sz k i old v t =
     (if snapshot_mode t
      then superseded sz k i (setVersion (current_version t) (ListElem k (ln_buffer old) v)) t
      else assigned sz i (ln_value old) v t)"

lemma insertOrReplace_old:
  assumes ok: "table_ok sz t" and k: "map_of (t_map t) k = Some i" "map_of (t_list t) i = Some old"
    and sz: "sz (ln_value old) \<noteq> 0"
  shows "insertOrReplace sz k v t = Inr (replaced sz k i old v t)"
    "insertOrReplace_owned sz k v t = Inr ((replaced sz k i old v t)\<lparr>next_buffer := next_buffer t + 1\<rparr>)"
proof -
  note l = links_okD [OF table_okD(1) [OF ok]]
  have key: "ln_key old = k" using linkedD(2) [OF l(5) k(1)] k(2) by auto
  show "insertOrReplace sz k v t = Inr (replaced sz k i old v t)"
    using k sz key by (simp add: insertOrReplace_def insertOrReplace_ref_def at_iter_def replaced_def push_back_def change_def
        superseded_def assigned_def updateDataSize_def elem_size_def size_cancel add.assoc Let_def)
  have fresh: "next_buffer t \<notin> set (arena t)" using table_okD(2) [OF ok] by (auto simp: arena_ok_def)
  then have "remove1 (next_buffer t) (arena t @ [next_buffer t]) = arena t" by (simp add: remove1_append)
  then show "insertOrReplace_owned sz k v t = Inr ((replaced sz k i old v t)\<lparr>next_buffer := next_buffer t + 1\<rparr>)"
    using k sz key by (simp add: insertOrReplace_owned_def insertOrReplace_ref_def arena_alloc_def arena_free_def at_iter_def
        replaced_def push_back_def change_def superseded_def assigned_def updateDataSize_def elem_size_def size_cancel
        add.assoc Let_def)
qed

lemma erase_eq:
  assumes ok: "table_ok sz t" and k: "map_of (t_map t) k = Some i" "map_of (t_list t) i = Some old"
  shows "erase sz k t = Inr (True, if snapshot_mode t then retired k i t else dropped sz k i old t)"
proof -
  note l = links_okD [OF table_okD(1) [OF ok]]
  have key: "ln_key old = k" "i \<notin> outdated t" using linkedD(1,2) [OF l(5) k(1)] k(2) by auto
  then have "ln_buffer old \<in> set (arena t)" using owned_arena [OF table_okD(2) [OF ok] k(2)] by blast
  with k key show ?thesis
    by (simp add: erase_def at_iter_def change_def retired_def dropped_def arena_free_def list_erase_def updateDataSize_def
        elem_size_def algebra_simps)
qed

lemma table_updateValue_eq:
  assumes ok: "table_ok sz t" and k: "map_of (t_map t) k = Some i" "map_of (t_list t) i = Some old"
  shows "table_updateValue sz k f t =
    (if snapshot_mode t \<and> ln_version old \<le> snapshot_up_to_version t
     then Inr (next_iter t, superseded sz k i (setVersion (current_version t) (old\<lparr>ln_value := f (ln_value old)\<rparr>)) t)
     else Inr (i, assigned sz i (ln_value old) (f (ln_value old)) t))"
proof -
  note l = links_okD [OF table_okD(1) [OF ok]]
  have "ln_key old = k" using linkedD(2) [OF l(5) k(1)] k(2) by auto
  with k show ?thesis
    by (simp add: table_updateValue_def at_iter_def change_def push_back_def superseded_def assigned_def updateDataSize_def
        elem_size_def setVersion_def size_cancel add.assoc Let_def)
qed

subsection \<open>Collecting the outdated elements\<close>

lemma clear_outdated_ok:
  assumes ok: "table_ok sz t" and i: "snapshot_invalid_iters t = i # is" and t0: "t = t0\<lparr>snapshot_invalid_iters := i # is\<rparr>"
  shows "\<exists>t'. clear_outdated sz t0 i = Inr t' \<and> table_ok sz (t'\<lparr>snapshot_invalid_iters := is\<rparr>) \<and>
    table_map t' = table_map t0 \<and> t_list t' = del i (t_list t0) \<and> t_map t' = t_map t0"
proof -
  note t = table_okD [OF ok]
  note l = links_okD [OF t(1)]
  have "i \<in> outdated t" using i by simp
  then obtain e where e: "map_of (t_list t) i = Some e" using linkedD(4) [OF l(5)] by blast
  have i_is: "i \<notin> set is" and dist: "distinct is" using l(4) i by auto
  let ?a = "if free_key e then remove1 (ln_buffer e) (arena t) else arena t"
  define t' where "t' = t0\<lparr>t_list := del i (t_list t0), arena := ?a,
    approximate_data_size := approximate_data_size t0 - elem_size sz (i, e)\<rparr>"
  have "free_key e \<Longrightarrow> ln_buffer e \<in> set (arena t)" using owned_arena [OF t(2) e] by blast
  then have run: "clear_outdated sz t0 i = Inr t'"
    using e by (simp add: clear_outdated_def at_iter_def arena_free_def list_erase_def updateDataSize_def t'_def t0
        elem_size_def algebra_simps)
  let ?t = "t'\<lparr>snapshot_invalid_iters := is\<rparr>"
  have out: "outdated t = Set.insert i (set is)" using i by simp
  have L: "map_of (t_list ?t) = (map_of (t_list t))(i := None)" "t_map ?t = t_map t" by (simp_all add: t'_def t0)
  note link = linked_collect [OF l(5) [unfolded out] i_is]
  have sub: "set (del i (t_list t)) \<subseteq> set (t_list t)" by (auto simp: del_def)
  have "links_ok ?t"
    unfolding links_ok_def L using l(1-3) dist link(1) sub by (auto simp: t'_def t0)
  moreover have "sum_list (map (owned (set is)) (del i (t_list t))) + owned (outdated t) (i, e) =
      sum_list (map (owned (outdated t)) (t_list t))"
    by (rule sum_del [OF l(1) e]) (auto simp: owned_def out)
  then have "mset ?a = sum_list (map (owned (set is)) (del i (t_list t)))"
    using t(2) out by (auto simp: arena_ok_def owned_def) (metis add_mset_remove_trivial)
  then have "arena_ok ?t" using t(2) by (auto simp: arena_ok_def t'_def t0 dest: notin_set_remove1)
  moreover have "size_ok sz ?t"
    using t(3) sum_del [OF l(1) e, of "elem_size sz" "elem_size sz"]
    by (simp add: size_ok_def t'_def t0 algebra_simps)
  ultimately have "table_ok sz ?t" by (simp add: table_ok_def)
  moreover have "table_map t' = table_map t0" using link(2) by (simp add: table_map_of t'_def t0)
  ultimately show ?thesis using run by (auto simp: t'_def)
qed

lemma clear_loop_ok:
  "table_ok sz (t\<lparr>snapshot_invalid_iters := is\<rparr>) \<Longrightarrow>
   \<exists>t'. rfold (clear_outdated sz) t is = Inr t' \<and> table_ok sz (t'\<lparr>snapshot_invalid_iters := []\<rparr>) \<and>
     table_map t' = table_map t \<and> t_map t' = t_map t"
proof (induction "is" arbitrary: t)
  case (Cons i "is")
  obtain t1 where t1: "clear_outdated sz t i = Inr t1" "table_ok sz (t1\<lparr>snapshot_invalid_iters := is\<rparr>)"
      "table_map t1 = table_map t" "t_map t1 = t_map t"
    using clear_outdated_ok [OF Cons.prems _ refl] by auto
  from Cons.IH [OF t1(2)] t1 show ?case by auto
qed auto

lemma clearOutdatedNodes_ok:
  assumes "table_ok sz t"
  shows "\<exists>t'. clearOutdatedNodes sz t = Inr t' \<and> table_ok sz t' \<and> table_map t' = table_map t \<and>
    snapshot_invalid_iters t' = [] \<and> t_map t' = t_map t"
proof -
  have "table_ok sz (t\<lparr>snapshot_invalid_iters := snapshot_invalid_iters t\<rparr>)" using assms by simp
  from clear_loop_ok [OF this] show ?thesis by (auto simp: clearOutdatedNodes_def table_map_of)
qed

subsection \<open>Runs refine a map\<close>

lemma effects_Cons:
  "foldl (\<lambda>m op. Option.bind m (effect op)) (Some m0) (op # ops) = Some m \<longleftrightarrow>
   (\<exists>m1. effect op m0 = Some m1 \<and> foldl (\<lambda>m op. Option.bind m (effect op)) (Some m1) ops = Some m)"
proof -
  have "foldl (\<lambda>m op. Option.bind m (effect op)) None ops = None" by (induction ops) simp_all
  then show ?thesis by (cases "effect op m0") simp_all
qed

text \<open>
  The contract of a store of nodes, as \<open>KeeperStorage\<close> uses it: every operation that is allowed on the
  map that the store stands for succeeds and has the effect of the map operation.
\<close>

locale node_store =
  fixes ok :: "'t \<Rightarrow> bool" and contents :: "'t \<Rightarrow> 'm" and step :: "'op \<Rightarrow> 't \<Rightarrow> 't result"
    and effect :: "'op \<Rightarrow> 'm \<Rightarrow> 'm option"
  assumes step_ok: "ok t \<Longrightarrow> effect op (contents t) = Some m \<Longrightarrow> \<exists>t'. step op t = Inr t' \<and> ok t' \<and> contents t' = m"
begin

lemma run_ok:
  "ok t \<Longrightarrow> foldl (\<lambda>m op. Option.bind m (effect op)) (Some (contents t)) ops = Some m \<Longrightarrow>
   \<exists>t'. rfold (\<lambda>t op. step op t) t ops = Inr t' \<and> ok t' \<and> contents t' = m"
proof (induction ops arbitrary: t)
  case (Cons op ops)
  obtain m1 where m1: "effect op (contents t) = Some m1"
    "foldl (\<lambda>m op. Option.bind m (effect op)) (Some m1) ops = Some m"
    using Cons.prems(2) unfolding effects_Cons by blast
  obtain t1 where t1: "step op t = Inr t1" "ok t1" "contents t1 = m1" using step_ok [OF Cons.prems(1) m1(1)] by blast
  with Cons.IH [OF t1(2)] m1(2) show ?case by auto
qed simp

end

datatype 'v table_op = Insert string 'v | InsertOrReplace string 'v | InsertOwned string 'v | Erase string
  | UpdateValue string "'v \<Rightarrow> 'v" | StartSnapshot | EndSnapshot | CollectGarbage

definition table_step :: "('v \<Rightarrow> u64) \<Rightarrow> 'v table_op \<Rightarrow> 'v SnapshotableHashTable \<Rightarrow> 'v SnapshotableHashTable result" where
  "table_step sz op t =
     (case op of
        Insert k v \<Rightarrow> Inr (snd (table_insert sz k v t))
      | InsertOrReplace k v \<Rightarrow> insertOrReplace sz k v t
      | InsertOwned k v \<Rightarrow> insertOrReplace_owned sz k v t
      | Erase k \<Rightarrow> rbind (erase sz k t) (\<lambda>(_, t'). Inr t')
      | UpdateValue k f \<Rightarrow> rbind (table_updateValue sz k f t) (\<lambda>(_, t'). Inr t')
      | StartSnapshot \<Rightarrow> Inr (enableSnapshotMode (snd (snapshotSizeWithVersion t)) t)
      | EndSnapshot \<Rightarrow> Inr (disableSnapshotMode t)
      | CollectGarbage \<Rightarrow> clearOutdatedNodes sz t)"

definition map_effect :: "'v table_op \<Rightarrow> (string \<rightharpoonup> 'v) \<Rightarrow> (string \<rightharpoonup> 'v) option" where
  "map_effect op m =
     (case op of
        Insert k v \<Rightarrow> Some (if m k = None then m(k \<mapsto> v) else m)
      | InsertOrReplace k v \<Rightarrow> Some (m(k \<mapsto> v))
      | InsertOwned k v \<Rightarrow> Some (m(k \<mapsto> v))
      | Erase k \<Rightarrow> Some (m(k := None))
      | UpdateValue k f \<Rightarrow> map_option (\<lambda>v. m(k \<mapsto> f v)) (m k)
      | _ \<Rightarrow> Some m)"

definition sized_table :: "('v \<Rightarrow> u64) \<Rightarrow> 'v SnapshotableHashTable \<Rightarrow> bool" where
  "sized_table sz t \<longleftrightarrow> table_ok sz t \<and> (\<forall>v. sz v \<noteq> 0)"

lemma table_map_lookup:
  assumes "table_ok sz t"
  obtains (absent) "map_of (t_map t) k = None" and "table_map t k = None"
    | (present) i e where "map_of (t_map t) k = Some i" and "map_of (t_list t) i = Some e"
      and "table_map t k = Some (ln_value e)" and "ln_key e = k" and "\<not> free_key e"
proof (cases "map_of (t_map t) k")
  case None
  then show ?thesis using absent by (simp add: table_map_def)
next
  case (Some i)
  then obtain e where "map_of (t_list t) i = Some e" "ln_key e = k" "\<not> free_key e"
    using linkedD(2) [OF links_okD(5) [OF table_okD(1) [OF assms]]] by blast
  with Some show ?thesis using present by (simp add: table_map_def)
qed

text \<open>
  The results of the operations on the data, by the changes above: \<open>changes sz t m t'\<close> says that \<open>t'\<close>
  comes from \<open>t\<close> and stands for \<open>m\<close>. Elements are assigned in place only when no snapshot reads them.
\<close>

inductive changes :: "('v \<Rightarrow> u64) \<Rightarrow> 'v SnapshotableHashTable \<Rightarrow> (string \<rightharpoonup> 'v) \<Rightarrow> 'v SnapshotableHashTable \<Rightarrow> bool"
  for sz :: "'v \<Rightarrow> u64" and t :: "'v SnapshotableHashTable" where
  same: "changes sz t (table_map t) t"
| add: "map_of (t_map t) k = None \<Longrightarrow> ln_key e = k \<Longrightarrow> ln_buffer e = next_buffer t \<Longrightarrow> \<not> free_key e \<Longrightarrow>
    ln_version e = take_bit 62 (current_version t) \<Longrightarrow>
    changes sz t ((table_map t)(k \<mapsto> ln_value e)) (added sz k e t)"
| supersede: "snapshot_mode t \<Longrightarrow> map_of (t_map t) k = Some i \<Longrightarrow> map_of (t_list t) i = Some old \<Longrightarrow> ln_key e = k \<Longrightarrow>
    ln_buffer e = ln_buffer old \<Longrightarrow> \<not> free_key e \<Longrightarrow> ln_version e = take_bit 62 (current_version t) \<Longrightarrow>
    next_buffer t \<le> n \<Longrightarrow>
    changes sz t ((table_map t)(k \<mapsto> ln_value e)) ((superseded sz k i e t)\<lparr>next_buffer := n\<rparr>)"
| assign: "map_of (t_map t) k = Some i \<Longrightarrow> map_of (t_list t) i = Some old \<Longrightarrow>
    \<not> snapshot_mode t \<or> \<not> ln_version old \<le> snapshot_up_to_version t \<Longrightarrow> next_buffer t \<le> n \<Longrightarrow>
    changes sz t ((table_map t)(k \<mapsto> v)) ((assigned sz i (ln_value old) v t)\<lparr>next_buffer := n\<rparr>)"
| retire: "snapshot_mode t \<Longrightarrow> map_of (t_map t) k = Some i \<Longrightarrow> map_of (t_list t) i = Some old \<Longrightarrow>
    changes sz t ((table_map t)(k := None)) (retired k i t)"
| drop: "\<not> snapshot_mode t \<Longrightarrow> map_of (t_map t) k = Some i \<Longrightarrow> map_of (t_list t) i = Some old \<Longrightarrow>
    changes sz t ((table_map t)(k := None)) (dropped sz k i old t)"

lemma table_ok_buffers: "table_ok sz t \<Longrightarrow> next_buffer t \<le> n \<Longrightarrow> table_ok sz (t\<lparr>next_buffer := n\<rparr>)"
  by (auto simp: table_ok_def links_ok_def arena_ok_def size_ok_def)

lemma changes_ok:
  assumes "changes sz t m t'" and "table_ok sz t"
  shows "table_ok sz t' \<and> table_map t' = m"
  using assms
proof cases
  case (supersede k i old e n)
  then have "next_buffer (superseded sz k i e t) \<le> n" by (simp add: superseded_def)
  with supersede superseded_ok [OF assms(2) supersede(4,5), of e] table_ok_buffers show ?thesis
    by (simp add: table_map_of)
next
  case (assign k i old n v)
  then have "next_buffer (assigned sz i (ln_value old) v t) \<le> n" by (simp add: assigned_def)
  with assign assigned_ok [OF assms(2) assign(3,4), of v] table_ok_buffers show ?thesis by (simp add: table_map_of)
next
  case (add k e)
  with added_ok [OF assms(2) add(3-6)] show ?thesis by simp
next
  case (retire k i old)
  with retired_ok [OF assms(2) retire(4,5)] show ?thesis by simp
next
  case (drop k i old)
  with dropped_ok [OF assms(2) drop(4,5)] show ?thesis by simp
qed (use assms(2) in simp)

lemma new_changes:
  fixes v :: 'v
  assumes "map_of (t_map t) k = None"
  defines "e \<equiv> setActiveInMap (setVersion (current_version t) (ListElem k (next_buffer t) v))"
  shows "changes sz t ((table_map t)(k \<mapsto> v)) (added sz k e t)"
proof -
  have "changes sz t ((table_map t)(k \<mapsto> ln_value e)) (added sz k e t)"
    by (rule changes.add [OF assms(1)]) (simp_all add: e_def)
  then show ?thesis by (simp add: e_def)
qed

lemma insert_changes:
  assumes "table_ok sz t"
  shows "changes sz t (if table_map t k = None then (table_map t)(k \<mapsto> v) else table_map t) (snd (table_insert sz k v t))"
proof (cases rule: table_map_lookup [OF assms, where k = k, case_names absent present])
  case absent
  then show ?thesis
    using table_insert_new(1) [OF table_okD(1) [OF assms] absent(1), of sz v] new_changes [OF absent(1), of sz v] by simp
next
  case present
  then show ?thesis using changes.same by (simp add: table_insert_def)
qed

lemma replace_changes:
  assumes "map_of (t_map t) k = Some i" and "map_of (t_list t) i = Some old" and "next_buffer t \<le> n"
  shows "changes sz t ((table_map t)(k \<mapsto> v)) ((replaced sz k i old v t)\<lparr>next_buffer := n\<rparr>)"
proof (cases "snapshot_mode t")
  case True
  let ?e = "setVersion (current_version t) (ListElem k (ln_buffer old) v)"
  have "changes sz t ((table_map t)(k \<mapsto> ln_value ?e)) ((superseded sz k i ?e t)\<lparr>next_buffer := n\<rparr>)"
    by (rule changes.supersede [OF True assms(1,2)]) (simp_all add: assms(3))
  with True show ?thesis by (simp add: replaced_def)
next
  case False
  with changes.assign [OF assms(1,2) _ assms(3)] show ?thesis by (simp add: replaced_def)
qed

lemma insertOrReplace_changes:
  assumes "table_ok sz t" and "\<forall>v. sz v \<noteq> 0"
  shows "\<exists>t'. insertOrReplace sz k v t = Inr t' \<and> changes sz t ((table_map t)(k \<mapsto> v)) t'"
    "\<exists>t'. insertOrReplace_owned sz k v t = Inr t' \<and> changes sz t ((table_map t)(k \<mapsto> v)) t'"
proof (atomize (full), cases rule: table_map_lookup [OF assms(1), where k = k, case_names absent present])
  case absent
  with table_insert_new(2,3) [OF table_okD(1) [OF assms(1)] absent(1), of sz v] new_changes [OF absent(1), of sz v]
  show "(\<exists>t'. insertOrReplace sz k v t = Inr t' \<and> changes sz t ((table_map t)(k \<mapsto> v)) t') \<and>
    (\<exists>t'. insertOrReplace_owned sz k v t = Inr t' \<and> changes sz t ((table_map t)(k \<mapsto> v)) t')" by simp
next
  case (present i e)
  note r = replace_changes [OF present(1,2), where sz = sz and v = v]
  have "(replaced sz k i e v t)\<lparr>next_buffer := next_buffer t\<rparr> = replaced sz k i e v t"
    by (simp add: replaced_def superseded_def assigned_def)
  with r [of "next_buffer t"] r [of "next_buffer t + 1"] insertOrReplace_old [OF assms(1) present(1,2), of v] assms(2)
  show "(\<exists>t'. insertOrReplace sz k v t = Inr t' \<and> changes sz t ((table_map t)(k \<mapsto> v)) t') \<and>
    (\<exists>t'. insertOrReplace_owned sz k v t = Inr t' \<and> changes sz t ((table_map t)(k \<mapsto> v)) t')" by simp
qed

lemma erase_changes:
  assumes "table_ok sz t"
  shows "\<exists>t'. erase sz k t = Inr (table_map t k \<noteq> None, t') \<and> changes sz t ((table_map t)(k := None)) t'"
proof (cases rule: table_map_lookup [OF assms, where k = k, case_names absent present])
  case absent
  then have "(table_map t)(k := None) = table_map t" by auto
  with absent changes.same show ?thesis by (simp add: erase_def)
next
  case (present i e)
  with erase_eq [OF assms present(1,2)] changes.retire changes.drop show ?thesis by fastforce
qed

lemma table_updateValue_changes:
  assumes "table_ok sz t" and "table_map t k = Some v"
  shows "\<exists>i t'. table_updateValue sz k f t = Inr (i, t') \<and> changes sz t ((table_map t)(k \<mapsto> f v)) t'"
proof (cases rule: table_map_lookup [OF assms(1), where k = k, case_names absent present])
  case absent
  with assms(2) show ?thesis by simp
next
  case (present i e)
  note u = table_updateValue_eq [OF assms(1) present(1,2), of f]
  have v: "v = ln_value e" using present(3) assms(2) by simp
  show ?thesis
  proof (cases "snapshot_mode t \<and> ln_version e \<le> snapshot_up_to_version t")
    case True
    let ?e = "setVersion (current_version t) (e\<lparr>ln_value := f (ln_value e)\<rparr>)"
    have "changes sz t ((table_map t)(k \<mapsto> ln_value ?e)) ((superseded sz k i ?e t)\<lparr>next_buffer := next_buffer t\<rparr>)"
      by (rule changes.supersede) (use True present in \<open>auto simp: setVersion_def\<close>)
    with True u v show ?thesis by (auto simp: superseded_def setVersion_def)
  next
    case False
    with u v changes.assign [OF present(1,2) _ order_refl, of sz "f v"] show ?thesis by (auto simp: assigned_def)
  qed
qed

definition data_op :: "'v table_op \<Rightarrow> bool" where
  "data_op op = (case op of StartSnapshot \<Rightarrow> False | EndSnapshot \<Rightarrow> False | CollectGarbage \<Rightarrow> False | _ \<Rightarrow> True)"

lemma data_step:
  assumes "sized_table sz t" and "map_effect op (table_map t) = Some m" and "data_op op"
  obtains t' where "table_step sz op t = Inr t'" and "changes sz t m t'"
proof -
  have ok: "table_ok sz t" "\<forall>v. sz v \<noteq> 0" using assms(1) by (auto simp: sized_table_def)
  have "\<exists>t'. table_step sz op t = Inr t' \<and> changes sz t m t'"
  proof (cases op)
    case (Insert k v)
    with insert_changes [OF ok(1), of k v] assms(2) show ?thesis by (simp add: table_step_def map_effect_def)
  next
    case (InsertOrReplace k v)
    with insertOrReplace_changes(1) [OF ok, of k v] assms(2) show ?thesis by (auto simp: table_step_def map_effect_def)
  next
    case (InsertOwned k v)
    with insertOrReplace_changes(2) [OF ok, of k v] assms(2) show ?thesis by (auto simp: table_step_def map_effect_def)
  next
    case (Erase k)
    with erase_changes [OF ok(1), of k] assms(2) show ?thesis by (auto simp: table_step_def map_effect_def)
  next
    case (UpdateValue k f)
    with table_updateValue_changes [OF ok(1), of k _ f] assms(2) show ?thesis by (fastforce simp: table_step_def map_effect_def)
  qed (use assms(3) in \<open>simp_all add: data_op_def\<close>)
  with that show ?thesis by blast
qed

lemma table_step_ok:
  assumes "sized_table sz t" and "map_effect op (table_map t) = Some m"
  shows "\<exists>t'. table_step sz op t = Inr t' \<and> sized_table sz t' \<and> table_map t' = m"
proof (cases "data_op op")
  case True
  then show ?thesis
    using data_step [OF assms] changes_ok [of sz t m] assms(1) by (metis sized_table_def)
next
  case False
  then consider "op = StartSnapshot" | "op = EndSnapshot" | "op = CollectGarbage"
    by (cases op) (simp_all add: data_op_def)
  then show ?thesis
    using assms clearOutdatedNodes_ok [of sz t]
    by cases (auto simp: table_step_def map_effect_def sized_table_def enableSnapshotMode_def disableSnapshotMode_def
        table_ok_def links_ok_def arena_ok_def size_ok_def table_map_of)
qed

interpretation snapshot_table: node_store "sized_table sz" table_map "table_step sz" map_effect
  for sz :: "'v \<Rightarrow> u64"
  by unfold_locales (rule table_step_ok)

lemma init_ok: "table_ok sz SnapshotableHashTable_init" "table_map SnapshotableHashTable_init = Map.empty"
  by (simp_all add: SnapshotableHashTable_init_def table_ok_def links_ok_def arena_ok_def size_ok_def linked_def
      table_map_def fun_eq_iff)

definition map_run :: "'v table_op list \<Rightarrow> (string \<rightharpoonup> 'v) option" where
  "map_run ops = foldl (\<lambda>m op. Option.bind m (map_effect op)) (Some Map.empty) ops"

definition table_run :: "('v \<Rightarrow> u64) \<Rightarrow> 'v table_op list \<Rightarrow> 'v SnapshotableHashTable result" where
  "table_run sz ops = rfold (\<lambda>t op. table_step sz op t) SnapshotableHashTable_init ops"

lemma table_run_ok:
  assumes "\<forall>v. sz v \<noteq> 0" and "map_run ops = Some m"
  obtains t where "table_run sz ops = Inr t" and "table_ok sz t" and "table_map t = m"
proof -
  have "sized_table sz SnapshotableHashTable_init" using assms(1) init_ok(1) by (simp add: sized_table_def)
  from snapshot_table.run_ok [OF this, of ops m] assms(2) that show ?thesis
    by (auto simp: map_run_def table_run_def init_ok sized_table_def)
qed

lemma table_size_card:
  assumes "table_ok sz t"
  shows "table_size t = card (dom (table_map t))"
proof -
  have "dom (table_map t) = dom (map_of (t_map t))"
  proof (rule set_eqI)
    fix k
    show "k \<in> dom (table_map t) \<longleftrightarrow> k \<in> dom (map_of (t_map t))"
      by (cases rule: table_map_lookup [OF assms, where k = k]) auto
  qed
  also have "\<dots> = set (map fst (t_map t))" by (simp add: dom_map_of_conv_image_fst)
  finally show ?thesis
    using distinct_card [OF links_okD(3) [OF table_okD(1) [OF assms]]] by (simp add: table_size_def)
qed

lemma fold_sizes:
  "fold (\<lambda>x s. s + size_of (ln_key (snd x)) + sz (ln_value (snd x))) xs a = a + sum_list (map (elem_size sz) xs)"
  by (induction xs arbitrary: a) (simp_all add: elem_size_def add.assoc)

text \<open>
  C17: The table is a map: a run of inserts, replacements, erasures, updates, snapshot modes and garbage
  collections never uses an erased iterator and never frees a key twice, whatever their order;
  afterwards every lookup gives the value of the same operations on a map, the number of entries is
  the size of that map, and the approximate data size is what counting the elements again would give.
\<close>

theorem table_refines_map:
  assumes "\<forall>v. sz v \<noteq> 0" and "map_run ops = Some m"
  shows "\<exists>t. table_run sz ops = Inr t \<and>
    (\<forall>k. contains k t \<longleftrightarrow> m k \<noteq> None) \<and> (\<forall>k v. m k = Some v \<longrightarrow> getValue k t = Inr v) \<and>
    table_size t = card (dom m) \<and> recalculateDataSize sz t = t"
proof -
  obtain t where t: "table_run sz ops = Inr t" "table_ok sz t" "table_map t = m"
    by (rule table_run_ok [OF assms])
  have "contains k t \<longleftrightarrow> m k \<noteq> None" "m k = Some v \<longrightarrow> getValue k t = Inr v" for k v
    unfolding t(3) [symmetric]
    by (cases rule: table_map_lookup [OF t(2), where k = k]; simp add: contains_def getValue_def at_iter_def)+
  moreover have "recalculateDataSize sz t = t"
    using table_okD(3) [OF t(2)] by (simp add: recalculateDataSize_def fold_sizes size_ok_def)
  ultimately show ?thesis using t table_size_card [OF t(2)] by auto
qed

definition example_ops :: "nat table_op list" where
  "example_ops = [Insert ''a'' 1, Insert ''b'' 2, StartSnapshot, UpdateValue ''a'' Suc, InsertOrReplace ''b'' 7,
     Erase ''b'', Insert ''c'' 5, EndSnapshot, CollectGarbage, Erase ''c'']"

theorem table_refines_map_witness:
  "\<exists>t. table_run (\<lambda>_. 8) example_ops = Inr t \<and> getValue ''a'' t = Inr 2 \<and> table_size t = 1"
proof -
  have m: "map_run example_ops = Some [''a'' \<mapsto> 2]"
    by (auto simp: example_ops_def map_run_def map_effect_def fun_eq_iff)
  from table_refines_map [OF _ m, of "\<lambda>_. 8"] show ?thesis by auto
qed

subsection \<open>Snapshots\<close>

text \<open>The versions of the elements do not exceed the current one, as long as its counter does not wrap.\<close>

definition versions_ok :: "'v SnapshotableHashTable \<Rightarrow> bool" where
  "versions_ok t \<longleftrightarrow> (\<forall>x\<in>set (t_list t). ln_version (snd x) \<le> current_version t)"

lemma take_bit_le: "take_bit n (w :: u64) \<le> w"
  by (simp add: word_le_nat_alt unsigned_take_bit_eq take_bit_nat_less_eq_self)

lemma versions_changes:
  assumes "versions_ok t"
  shows "ln_version e \<le> current_version t \<Longrightarrow> versions_ok (added sz k e t)"
    "ln_version e \<le> current_version t \<Longrightarrow> versions_ok (superseded sz k i e t)"
    "versions_ok (assigned sz i old v t)" "versions_ok (retired k i t)" "versions_ok (dropped sz k i e t)"
  using assms by (auto simp: versions_ok_def added_def superseded_def assigned_def retired_def dropped_def upd_def del_def
      setInactiveInMap_def setFreeKey_def)

lemma version_frame:
  "current_version (added sz k e t) = current_version t" "current_version (superseded sz k i e t) = current_version t"
  "current_version (assigned sz i old v t) = current_version t" "current_version (retired k i t) = current_version t"
  "current_version (dropped sz k i e t) = current_version t"
  by (simp_all add: added_def superseded_def assigned_def retired_def dropped_def)

lemma clear_outdated_frame:
  assumes "clear_outdated sz t i = Inr t'"
  shows "current_version t' = current_version t" "set (t_list t') \<subseteq> set (t_list t)"
  using assms by (auto simp: clear_outdated_def arena_free_def list_erase_def updateDataSize_def del_def Let_def
      split: if_splits)

lemma clear_loop_frame:
  "rfold (clear_outdated sz) t is = Inr t' \<Longrightarrow> current_version t' = current_version t \<and> set (t_list t') \<subseteq> set (t_list t)"
proof (induction "is" arbitrary: t)
  case (Cons i "is")
  then obtain t2 where t2: "clear_outdated sz t i = Inr t2" "rfold (clear_outdated sz) t2 is = Inr t'" by auto
  show ?case using Cons.IH [OF t2(2)] clear_outdated_frame [OF t2(1)] by auto
qed simp

lemma clearOutdatedNodes_versions:
  assumes "clearOutdatedNodes sz t = Inr t'" and "versions_ok t"
  shows "versions_ok t' \<and> current_version t' = current_version t"
proof -
  obtain t1 where t1: "rfold (clear_outdated sz) t (snapshot_invalid_iters t) = Inr t1"
      "t' = t1\<lparr>snapshot_invalid_iters := []\<rparr>"
    using assms(1) by (auto simp: clearOutdatedNodes_def)
  from clear_loop_frame [OF t1(1)] t1(2) assms(2) show ?thesis by (auto simp: versions_ok_def subset_iff)
qed

lemma changes_versions:
  assumes "changes sz t m t'" and "versions_ok t"
  shows "versions_ok t' \<and> current_version t' = current_version t"
  using assms(1)
proof cases
  case (add k e)
  then show ?thesis using versions_changes(1) [OF assms(2), of e sz k] take_bit_le by (simp add: version_frame)
next
  case (supersede k i old e n)
  then show ?thesis
    using versions_changes(2) [OF assms(2), of e sz k i] take_bit_le by (auto simp: version_frame versions_ok_def)
next
  case (assign k i old n v)
  then show ?thesis
    using versions_changes(3) [OF assms(2), of sz i "ln_value old" v] by (auto simp: version_frame versions_ok_def)
qed (use assms(2) versions_changes(4,5) version_frame in auto)

lemma unat_Suc_version: "z \<noteq> - 1 \<Longrightarrow> unat (z + 1) = unat z + 1" for z :: u64
  by (metis add_eq_0_iff2 add.commute unatSuc Suc_eq_plus1)

lemma table_step_versions:
  assumes ok: "sized_table sz t" and eff: "map_effect op (table_map t) = Some m" and v: "versions_ok t"
    and max: "current_version t \<noteq> - 1" and step: "table_step sz op t = Inr t'"
  shows "versions_ok t' \<and> unat (current_version t') \<le> unat (current_version t) + 1"
proof (cases "data_op op")
  case True
  then show ?thesis using data_step [OF ok eff True] changes_versions [OF _ v] step by fastforce
next
  case False
  then consider "op = StartSnapshot" | "op = EndSnapshot" | "op = CollectGarbage"
    by (cases op) (simp_all add: data_op_def)
  then show ?thesis
  proof cases
    case 1
    then have t': "t' = enableSnapshotMode (current_version t) t"
      using step by (simp add: table_step_def snapshotSizeWithVersion_def)
    have "current_version t \<le> current_version t + 1"
      using unat_Suc_version [OF max] by (simp add: word_le_nat_alt)
    then have "versions_ok t'" unfolding t' versions_ok_def enableSnapshotMode_def
      using v order_trans by (fastforce simp: versions_ok_def)
    then show ?thesis unfolding t' using unat_Suc_version [OF max] by (simp add: enableSnapshotMode_def)
  next
    case 2
    then have "t' = disableSnapshotMode t" using step by (simp add: table_step_def)
    then show ?thesis using v by (simp add: disableSnapshotMode_def versions_ok_def)
  next
    case 3
    then have "clearOutdatedNodes sz t = Inr t'" using step by (simp add: table_step_def)
    from clearOutdatedNodes_versions [OF this v] show ?thesis by simp
  qed
qed

lemma table_run_versions:
  "sized_table sz t \<Longrightarrow> foldl (\<lambda>m op. Option.bind m (map_effect op)) (Some (table_map t)) ops = Some m \<Longrightarrow>
   versions_ok t \<Longrightarrow> unat (current_version t) + length ops < 2 ^ 64 \<Longrightarrow>
   rfold (\<lambda>t op. table_step sz op t) t ops = Inr t' \<Longrightarrow> versions_ok t'"
proof (induction ops arbitrary: t)
  case (Cons op ops)
  obtain m1 where m1: "map_effect op (table_map t) = Some m1"
    "foldl (\<lambda>m op. Option.bind m (map_effect op)) (Some m1) ops = Some m"
    using Cons.prems(2) unfolding effects_Cons by blast
  obtain t1 where t1: "table_step sz op t = Inr t1" "sized_table sz t1" "table_map t1 = m1"
    using table_step_ok [OF Cons.prems(1) m1(1)] by blast
  have "unat (- 1 :: u64) = 2 ^ 64 - 1" by (simp add: unsigned_minus_1_eq_mask mask_eq_exp_minus_1)
  then have "current_version t \<noteq> - 1" using Cons.prems(4) by auto
  from table_step_versions [OF Cons.prems(1) m1(1) Cons.prems(3) this t1(1)]
  have "versions_ok t1" "unat (current_version t1) + length ops < 2 ^ 64" using Cons.prems(4) by auto
  with Cons.IH [OF t1(2)] m1(2) t1(1,3) Cons.prems(5) show ?case by simp
qed simp

text \<open>What the writer of a snapshot reads: the first elements of the list, as many as there were.\<close>

definition key_value :: "nat \<times> 'v ListNode \<Rightarrow> string \<times> 'v" where
  "key_value x = (ln_key (snd x), ln_value (snd x))"

definition snapshot_view :: "nat \<Rightarrow> 'v SnapshotableHashTable \<Rightarrow> (string \<times> 'v) list" where
  "snapshot_view n t = map key_value (take n (t_list t))"

definition frozen :: "nat \<Rightarrow> (string \<times> 'v) list \<Rightarrow> 'v SnapshotableHashTable \<Rightarrow> bool" where
  "frozen n xs t \<longleftrightarrow>
     snapshot_mode t \<and> n \<le> length (t_list t) \<and> snapshot_view n t = xs \<and>
     (\<forall>x\<in>set (take n (t_list t)). ln_version (snd x) \<le> snapshot_up_to_version t)"

lemma frozen_upd:
  assumes "frozen n xs t" and "\<And>e. ln_key (f e) = ln_key e \<and> ln_version (f e) = ln_version e"
    and "(\<forall>e. ln_value (f e) = ln_value e) \<or> i \<notin> fst ` set (take n (t_list t))"
  shows "n \<le> length (upd i f (t_list t))" "map key_value (take n (upd i f (t_list t) @ ys)) = xs"
    "\<forall>x\<in>set (take n (upd i f (t_list t) @ ys)). ln_version (snd x) \<le> snapshot_up_to_version t"
proof -
  have f: "n \<le> length (t_list t)" "map key_value (take n (t_list t)) = xs"
    "\<forall>x\<in>set (take n (t_list t)). ln_version (snd x) \<le> snapshot_up_to_version t"
    using assms(1) by (auto simp: frozen_def snapshot_view_def)
  have len: "length (upd i f (t_list t)) = length (t_list t)" by (simp add: upd_def)
  with f(1) show "n \<le> length (upd i f (t_list t))" by simp
  have take: "take n (upd i f (t_list t) @ ys) = upd i f (take n (t_list t))"
    using f(1) len by (simp add: upd_def take_map)
  show "\<forall>x\<in>set (take n (upd i f (t_list t) @ ys)). ln_version (snd x) \<le> snapshot_up_to_version t"
    unfolding take using f(3) assms(2) by (auto simp: upd_def)
  show "map key_value (take n (upd i f (t_list t) @ ys)) = xs"
    using assms(3)
  proof
    assume "\<forall>e. ln_value (f e) = ln_value e"
    then have "map key_value (upd i f zs) = map key_value zs" for zs
      using assms(2) by (induction zs) (auto simp: upd_def key_value_def)
    then show ?thesis unfolding take using f(2) by simp
  next
    assume "i \<notin> fst ` set (take n (t_list t))"
    then show ?thesis unfolding take using f(2) by (simp add: upd_id)
  qed
qed

lemma frozen_outside:
  assumes "frozen n xs t" and "links_ok t" and "map_of (t_list t) i = Some e" and "\<not> ln_version e \<le> snapshot_up_to_version t"
  shows "i \<notin> fst ` set (take n (t_list t))"
proof
  assume "i \<in> fst ` set (take n (t_list t))"
  then obtain e' where e': "(i, e') \<in> set (take n (t_list t))" by auto
  then have "e' = e" using map_of_is_SomeI [OF links_okD(1) [OF assms(2)] in_set_takeD [OF e']] assms(3) by simp
  with e' assms(1,4) show False by (force simp: frozen_def)
qed

lemma frozen_list:
  assumes "frozen n xs t" and "\<And>e. ln_key (f e) = ln_key e \<and> ln_version (f e) = ln_version e"
    and "(\<forall>e. ln_value (f e) = ln_value e) \<or> i \<notin> fst ` set (take n (t_list t))"
    and "t_list t' = upd i f (t_list t) @ ys" and "snapshot_mode t' = snapshot_mode t"
    and "snapshot_up_to_version t' = snapshot_up_to_version t"
  shows "frozen n xs t'"
proof -
  note f = frozen_upd [OF assms(1-3)]
  have "n \<le> length (t_list t')" using f(1) assms(4) by simp
  moreover have "snapshot_view n t' = xs" unfolding snapshot_view_def assms(4) by (rule f(2))
  moreover have "\<forall>x\<in>set (take n (t_list t')). ln_version (snd x) \<le> snapshot_up_to_version t'"
    unfolding assms(4,6) by (rule f(3))
  ultimately show ?thesis using assms(1,5) by (simp add: frozen_def)
qed

lemma changes_frozen:
  assumes "changes sz t m t'" and fr: "frozen n xs t" and ok: "links_ok t"
  shows "frozen n xs t'"
  using assms(1)
proof cases
  case (add k e)
  with fr show ?thesis by (simp add: frozen_def snapshot_view_def added_def)
next
  case (supersede k i old e b)
  show ?thesis
    by (rule frozen_list [OF fr, where f = setInactiveInMap and i = i and ys = "[(next_iter t, e)]"])
      (simp_all add: supersede(2) superseded_def setInactiveInMap_def)
next
  case (assign k i old b v)
  have "i \<notin> fst ` set (take n (t_list t))"
    using frozen_outside [OF fr ok assign(4)] assign(5) fr by (simp add: frozen_def)
  then show ?thesis
    by (intro frozen_list [OF fr, where f = "ln_value_update (\<lambda>_. v)" and i = i and ys = "[]"])
      (simp_all add: assign(2) assigned_def)
next
  case (retire k i old)
  show ?thesis
    by (rule frozen_list [OF fr, where f = "setFreeKey \<circ> setInactiveInMap" and i = i and ys = "[]"])
      (simp_all add: retire(2) retired_def setInactiveInMap_def setFreeKey_def)
qed (use fr in \<open>simp_all add: frozen_def\<close>)

lemma data_run_frozen:
  "sized_table sz t \<Longrightarrow> foldl (\<lambda>m op. Option.bind m (map_effect op)) (Some (table_map t)) ops = Some m \<Longrightarrow>
   \<forall>op\<in>set ops. data_op op \<Longrightarrow> frozen n xs t \<Longrightarrow>
   \<exists>t'. rfold (\<lambda>t op. table_step sz op t) t ops = Inr t' \<and> frozen n xs t' \<and> table_map t' = m"
proof (induction ops arbitrary: t)
  case (Cons op ops)
  obtain m1 where m1: "map_effect op (table_map t) = Some m1"
    "foldl (\<lambda>m op. Option.bind m (map_effect op)) (Some m1) ops = Some m"
    using Cons.prems(2) unfolding effects_Cons by blast
  obtain t1 where t1: "table_step sz op t = Inr t1" "sized_table sz t1" "table_map t1 = m1"
    using table_step_ok [OF Cons.prems(1) m1(1)] by blast
  have "links_ok t" using Cons.prems(1) table_okD(1) by (auto simp: sized_table_def)
  then have "frozen n xs t1"
    using data_step [OF Cons.prems(1) m1(1)] changes_frozen [OF _ Cons.prems(4)] Cons.prems(3) t1(1) by fastforce
  with Cons.IH [OF t1(2)] m1(2) t1(1,3) Cons.prems(3) show ?case by simp
qed simp

lemma list_is_map:
  assumes "table_ok sz t" and "snapshot_invalid_iters t = []"
  shows "distinct (map fst (map key_value (t_list t)))" "map_of (map key_value (t_list t)) = table_map t"
proof -
  note l = links_okD [OF table_okD(1) [OF assms(1)]]
  have idx: "map_of (t_map t) (ln_key e) = Some i" if "(i, e) \<in> set (t_list t)" for i e
    using linkedD(3) [OF l(5) map_of_is_SomeI [OF l(1) that]] assms(2) by simp
  have "inj_on (ln_key \<circ> snd) (set (t_list t))"
  proof (rule inj_onI)
    fix x y assume xy: "x \<in> set (t_list t)" "y \<in> set (t_list t)" "(ln_key \<circ> snd) x = (ln_key \<circ> snd) y"
    then have "fst x = fst y" using idx [of "fst x" "snd x"] idx [of "fst y" "snd y"] by simp
    with xy(1,2) l(1) show "x = y" by (metis eq_key_imp_eq_value prod.collapse)
  qed
  then show d: "distinct (map fst (map key_value (t_list t)))"
    using l(1) by (simp add: key_value_def distinct_map o_def)
  show "map_of (map key_value (t_list t)) = table_map t"
  proof
    fix k
    show "map_of (map key_value (t_list t)) k = table_map t k"
    proof (cases rule: table_map_lookup [OF assms(1), where k = k, case_names absent present])
      case absent
      then have "k \<notin> fst ` set (map key_value (t_list t))" using idx by (force simp: key_value_def)
      then show ?thesis using absent(2) by (simp add: map_of_eq_None_iff)
    next
      case (present i e)
      then have "(k, ln_value e) \<in> set (map key_value (t_list t))"
        using map_of_SomeD [OF present(2)] by (force simp: key_value_def)
      then show ?thesis using map_of_is_SomeI [OF d] present(3) by simp
    qed
  qed
qed

text \<open>
  C18: A snapshot is isolated: when no outdated elements are left from an earlier snapshot, the list
  holds every key of the table once, and while the snapshot mode is on, no sequence of inserts,
  replacements, erasures and updates changes the elements that the writer of the snapshot reads;
  meanwhile lookups see the new values. The bound on the operations before the snapshot keeps the
  version counter from wrapping.
\<close>

theorem snapshot_isolated:
  assumes "\<forall>v. sz v \<noteq> 0" and "map_run before = Some m" and "length before < 2 ^ 64"
    and "table_run sz before = Inr t" and "snapshot_invalid_iters t = []"
    and "map_run (before @ [StartSnapshot] @ during) = Some m'"
    and "\<forall>op\<in>set during. data_op op"
  shows "\<exists>t'. table_run sz (before @ [StartSnapshot] @ during) = Inr t' \<and> table_map t' = m' \<and>
    snapshot_view (fst (snapshotSizeWithVersion t)) t' = map key_value (t_list t) \<and>
    distinct (map fst (map key_value (t_list t))) \<and> map_of (map key_value (t_list t)) = m"
proof -
  have "table_ok sz t \<and> table_map t = m" using table_run_ok [OF assms(1,2)] assms(4) by auto
  then have t: "table_ok sz t" "table_map t = m" by blast+
  have init: "sized_table sz SnapshotableHashTable_init" using assms(1) init_ok(1) by (simp add: sized_table_def)
  have "versions_ok (SnapshotableHashTable_init :: 'a SnapshotableHashTable)"
    "current_version (SnapshotableHashTable_init :: 'a SnapshotableHashTable) = 0"
    by (simp_all add: versions_ok_def SnapshotableHashTable_init_def)
  then have "versions_ok t"
    using table_run_versions [OF init, of before m t] assms(2,3,4) by (simp add: init_ok(2) map_run_def table_run_def)
  then have fr: "frozen (length (t_list t)) (map key_value (t_list t)) (enableSnapshotMode (current_version t) t)"
    by (auto simp: frozen_def snapshot_view_def enableSnapshotMode_def versions_ok_def)
  let ?t = "enableSnapshotMode (current_version t) t"
  have start: "table_step sz StartSnapshot t = Inr ?t" by (simp add: table_step_def snapshotSizeWithVersion_def)
  have "sized_table sz ?t" "table_map ?t = m"
    using table_step_ok [of sz t StartSnapshot m] t assms(1) start by (auto simp: sized_table_def map_effect_def)
  moreover have "foldl (\<lambda>m op. Option.bind m (map_effect op)) (Some m) during = Some m'"
    using assms(2,6) by (simp add: map_run_def map_effect_def)
  ultimately obtain t' where "rfold (\<lambda>t op. table_step sz op t) ?t during = Inr t'"
      "frozen (length (t_list t)) (map key_value (t_list t)) t'" "table_map t' = m'"
    using data_run_frozen [OF _ _ assms(7) fr] by blast
  moreover have "table_run sz (before @ [StartSnapshot] @ during) = rfold (\<lambda>t op. table_step sz op t) ?t during"
    using assms(4) start by (simp add: table_run_def)
  ultimately show ?thesis
    using list_is_map [OF t(1) assms(5)] t(2) by (auto simp: frozen_def snapshotSizeWithVersion_def)
qed

theorem snapshot_isolated_witness:
  "\<exists>t'. table_run (\<lambda>_. 8) ([Insert ''a'' (1 :: nat), Insert ''b'' 2] @ [StartSnapshot] @
        [UpdateValue ''a'' Suc, Erase ''b'', Insert ''c'' 5]) = Inr t' \<and>
     snapshot_view 2 t' = [(''a'', 1), (''b'', 2)] \<and> table_map t' = [''a'' \<mapsto> 2, ''c'' \<mapsto> 5]"
proof -
  let ?b = "[Insert ''a'' (1 :: nat), Insert ''b'' 2]" and ?d = "[UpdateValue ''a'' Suc, Erase ''b'', Insert ''c'' (5 :: nat)]"
  have m: "map_run ?b = Some [''a'' \<mapsto> 1, ''b'' \<mapsto> 2]" "map_run (?b @ [StartSnapshot] @ ?d) = Some [''a'' \<mapsto> 2, ''c'' \<mapsto> 5]"
    by (auto simp: map_run_def map_effect_def fun_eq_iff)
  obtain t where t: "table_run (\<lambda>_. 8) ?b = Inr t" by (rule table_run_ok [OF _ m(1), of "\<lambda>_. 8"]) simp
  have "snapshot_invalid_iters (projr (table_run (\<lambda>_. 8) ?b)) = []"
    "map key_value (t_list (projr (table_run (\<lambda>_. 8) ?b))) = [(''a'', 1), (''b'', 2)]" by (code_simp, code_simp)
  then have t': "snapshot_invalid_iters t = []" "map key_value (t_list t) = [(''a'', 1), (''b'', 2)]"
    using t by simp_all
  from arg_cong [OF t'(2), of length] have "fst (snapshotSizeWithVersion t) = 2" by (simp add: snapshotSizeWithVersion_def)
  with snapshot_isolated [OF _ m(1) _ t t'(1) m(2)] t'(2) show ?thesis by (auto simp: data_op_def)
qed

text \<open>
  C19: No key is leaked and none is freed twice: after any run of operations the table can be cleared,
  and then the arena holds no allocation and the table nothing.
\<close>

theorem clear_releases_keys:
  assumes "\<forall>v. sz v \<noteq> 0" and "map_run ops = Some m" and "table_run sz ops = Inr t"
  shows "\<exists>t'. table_clear sz t = Inr t' \<and> arena t' = [] \<and> t_list t' = [] \<and> table_size t' = 0 \<and> approximate_data_size t' = 0"
proof -
  have ok: "table_ok sz t" using table_run_ok [OF assms(1,2)] assms(3) by auto
  obtain t1 where t1: "clearOutdatedNodes sz t = Inr t1" "table_ok sz t1" "snapshot_invalid_iters t1 = []"
    using clearOutdatedNodes_ok [OF ok] by blast
  have free: "mset (arena u) = mset (map (ln_buffer \<circ> snd) xs) \<Longrightarrow>
      \<exists>u'. rfold (\<lambda>t x. arena_free (ln_buffer (snd x)) t) u xs = Inr u' \<and> arena u' = [] \<and> t_map u' = t_map u" for xs u
  proof (induction xs arbitrary: u)
    case (Cons x xs)
    have "ln_buffer (snd x) \<in> set (arena u)" using Cons.prems by (metis list.set_intros(1) list.simps(9) mset_eq_setD o_apply)
    with Cons.prems have "\<exists>u'. arena_free (ln_buffer (snd x)) u = Inr u' \<and> t_map u' = t_map u \<and>
        mset (arena u') = mset (map (ln_buffer \<circ> snd) xs)"
      by (auto simp: arena_free_def o_def)
    with Cons.IH show ?case by fastforce
  qed simp
  have "sum_list (map (owned {}) xs) = mset (map (ln_buffer \<circ> snd) xs)" for xs :: "(nat \<times> 'a ListNode) list"
    by (induction xs) (auto simp: owned_def)
  then have "mset (arena (t1\<lparr>t_map := []\<rparr>)) = mset (map (ln_buffer \<circ> snd) (t_list t1))"
    using table_okD(2) [OF t1(2)] t1(3) by (simp add: arena_ok_def)
  from free [OF this] t1(1) show ?thesis by (auto simp: table_clear_def updateDataSize_def table_size_def)
qed

theorem clear_releases_keys_witness:
  "\<exists>t t'. table_run (\<lambda>_. 8) example_ops = Inr t \<and> table_clear (\<lambda>_. 8) t = Inr t' \<and> arena t \<noteq> [] \<and> arena t' = []"
proof -
  have m: "map_run example_ops = Some [''a'' \<mapsto> 2]"
    by (auto simp: example_ops_def map_run_def map_effect_def fun_eq_iff)
  obtain t where t: "table_run (\<lambda>_. 8) example_ops = Inr t" by (rule table_run_ok [OF _ m, of "\<lambda>_. 8"]) simp
  have "arena (projr (table_run (\<lambda>_. 8) example_ops)) \<noteq> []" by code_simp
  with t clear_releases_keys [OF _ m t] show ?thesis by auto
qed

end
