(* ===== verification/SipHash.thy ===== *)
theory SipHash
  imports Prelude
begin

unbundle bit_operations_syntax

text \<open>
  \<open>SipHash\<close> (\<open>src/Common/SipHash.h\<close>): the streaming SipHash-2-4 behind every digest of Keeper.
  The union of \<open>current_word\<close> and \<open>current_bytes[8]\<close> is the list of its eight bytes, read as a
  little-endian word. The main result is that the optimised \<open>update\<close>, which works on whole words,
  is the byte-at-a-time absorption, so that a hash does not depend on how the input was cut.
\<close>

subsection \<open>State\<close>

record SipHash =
  v0 :: u64
  v1 :: u64
  v2 :: u64
  v3 :: u64
  cnt :: u64
  is_reference_128 :: bool
  current_bytes :: "u8 list"

definition rotl :: "u64 \<Rightarrow> nat \<Rightarrow> u64" where
  "rotl x n = push_bit n x OR drop_bit (64 - n) x"

text \<open>\<open>unalignedLoadLittleEndian\<close>, and the bytes of an integer of \<open>n\<close> bytes in memory.\<close>

fun le_word :: "u8 list \<Rightarrow> u64" where
  "le_word [] = 0"
| "le_word (b # bs) = ucast b OR push_bit 8 (le_word bs)"

definition le_bytes :: "nat \<Rightarrow> int \<Rightarrow> u8 list" where
  "le_bytes n x = map (\<lambda>i. word_of_int (drop_bit (8 * i) x)) [0..<n]"

definition current_word :: "SipHash \<Rightarrow> u64" where
  "current_word s = le_word (current_bytes s)"

definition sipround :: "SipHash \<Rightarrow> SipHash" where
  "sipround s =
     (let a0 = v0 s + v1 s; a1 = rotl (v1 s) 13 XOR a0; a0 = rotl a0 32;
          a2 = v2 s + v3 s; a3 = rotl (v3 s) 16 XOR a2;
          a0 = a0 + a3; a3 = rotl a3 21 XOR a0;
          a2 = a2 + a1; a1 = rotl a1 17 XOR a2; a2 = rotl a2 32
      in s\<lparr>v0 := a0, v1 := a1, v2 := a2, v3 := a3\<rparr>)"

definition SipHash_init :: "u64 \<Rightarrow> u64 \<Rightarrow> bool \<Rightarrow> SipHash" where
  "SipHash_init key0 key1 is_reference =
     \<lparr>v0 = 0x736f6d6570736575 XOR key0,
      v1 = (if is_reference then (0x646f72616e646f6d XOR key1) XOR 0xee
            else 0x646f72616e646f6d XOR key1),
      v2 = 0x6c7967656e657261 XOR key0,
      v3 = 0x7465646279746573 XOR key1,
      cnt = 0, is_reference_128 = is_reference, current_bytes = replicate 8 0\<rparr>"

text \<open>The absorption of \<open>current_word\<close>, which the source repeats in \<open>update\<close> and \<open>finalize\<close>.\<close>

definition compress :: "SipHash \<Rightarrow> SipHash" where
  "compress s =
     (let w = current_word s;
          s = sipround (sipround (s\<lparr>v3 := v3 s XOR w\<rparr>))
      in s\<lparr>v0 := v0 s XOR w\<rparr>)"

definition finalize :: "SipHash \<Rightarrow> SipHash" where
  "finalize s =
     (let s = compress (s\<lparr>current_bytes := (current_bytes s)[7 := ucast (cnt s)]\<rparr>);
          s = s\<lparr>v2 := v2 s XOR (if is_reference_128 s then 0xee else 0xff)\<rparr>
      in sipround (sipround (sipround (sipround s))))"

subsection \<open>Update\<close>

text \<open>The loop that completes the word left over from the previous call.\<close>

fun fill_word :: "SipHash \<Rightarrow> u8 list \<Rightarrow> SipHash \<times> u8 list" where
  "fill_word s [] = (s, [])"
| "fill_word s (b # bs) =
     (if cnt s AND 7 = 0 then (s, b # bs)
      else fill_word (s\<lparr>current_bytes := (current_bytes s)[unat (cnt s AND 7) := b],
                        cnt := cnt s + 1\<rparr>) bs)"

text \<open>The loop over whole words.\<close>

function absorb_words :: "SipHash \<Rightarrow> u8 list \<Rightarrow> SipHash \<times> u8 list" where
  "absorb_words s bs =
     (if 8 \<le> length bs
      then absorb_words (compress (s\<lparr>current_bytes := take 8 bs\<rparr>)) (drop 8 bs)
      else (s, bs))"
  by pat_completeness auto
termination by (relation "measure (\<lambda>(s, bs). length bs)") auto

declare absorb_words.simps [simp del]

definition pad_word :: "u8 list \<Rightarrow> u8 list" where
  "pad_word bs = bs @ replicate (8 - length bs) 0"

definition absorb_rest :: "SipHash \<Rightarrow> u8 list \<Rightarrow> SipHash" where
  "absorb_rest s bs =
     (case absorb_words (s\<lparr>cnt := cnt s + of_nat (length bs)\<rparr>) bs of
        (s', rest) \<Rightarrow> s'\<lparr>current_bytes := pad_word rest\<rparr>)"

definition update :: "SipHash \<Rightarrow> u8 list \<Rightarrow> SipHash" where
  "update s bs =
     (if cnt s AND 7 \<noteq> 0 then
        (case fill_word s bs of
           (s', rest) \<Rightarrow> if cnt s' AND 7 \<noteq> 0 then s' else absorb_rest (compress s') rest)
      else absorb_rest s bs)"

definition update_string :: "SipHash \<Rightarrow> string \<Rightarrow> SipHash" where
  "update_string s str = update s (map (\<lambda>c. of_char c) str)"

definition update_int64 :: "SipHash \<Rightarrow> int \<Rightarrow> SipHash" where
  "update_int64 s x = update s (le_bytes 8 x)"

definition update_int32 :: "SipHash \<Rightarrow> int \<Rightarrow> SipHash" where
  "update_int32 s x = update s (le_bytes 4 x)"

subsection \<open>Results\<close>

definition get64 :: "SipHash \<Rightarrow> u64" where
  "get64 s = (let s = finalize s in v0 s XOR v1 s XOR v2 s XOR v3 s)"

definition get128 :: "SipHash \<Rightarrow> u64 \<times> u64" where
  "get128 s = (let s = finalize s in (v0 s XOR v1 s, v2 s XOR v3 s))"

text \<open>The reference 128-bit result, as the pair of its low and high half.\<close>

definition get128Reference :: "SipHash \<Rightarrow> (u64 \<times> u64) result" where
  "get128Reference s =
     (if \<not> is_reference_128 s then Inl Logical_error
      else let s = finalize s;
               lo = v0 s XOR v1 s XOR v2 s XOR v3 s;
               s = sipround (sipround (sipround (sipround (s\<lparr>v1 := v1 s XOR 0xdd\<rparr>))))
           in Inr (lo, v0 s XOR v1 s XOR v2 s XOR v3 s))"

definition sipHash64Keyed :: "u64 \<Rightarrow> u64 \<Rightarrow> u8 list \<Rightarrow> u64" where
  "sipHash64Keyed key0 key1 bs = get64 (update (SipHash_init key0 key1 False) bs)"

definition sipHash128Keyed :: "u64 \<Rightarrow> u64 \<Rightarrow> u8 list \<Rightarrow> u64 \<times> u64" where
  "sipHash128Keyed key0 key1 bs = get128 (update (SipHash_init key0 key1 False) bs)"

definition sipHash128ReferenceKeyed :: "u64 \<Rightarrow> u64 \<Rightarrow> u8 list \<Rightarrow> (u64 \<times> u64) result" where
  "sipHash128ReferenceKeyed key0 key1 bs = get128Reference (update (SipHash_init key0 key1 True) bs)"

subsection \<open>Byte-wise reference\<close>

text \<open>One byte goes to its place in the current word; a complete word is absorbed at once.\<close>

definition byte_step :: "SipHash \<Rightarrow> u8 \<Rightarrow> SipHash" where
  "byte_step s b =
     (let s' = s\<lparr>current_bytes := (current_bytes s)[unat (cnt s AND 7) := b], cnt := cnt s + 1\<rparr>
      in if cnt s' AND 7 = 0 then (compress s')\<lparr>current_bytes := replicate 8 0\<rparr> else s')"

text \<open>Bytes of the current word not yet received are zero.\<close>

definition sip_inv :: "SipHash \<Rightarrow> bool" where
  "sip_inv s \<longleftrightarrow> (\<exists>bs. length bs = unat (cnt s AND 7) \<and> current_bytes s = pad_word bs)"

lemma u64_and_7: "unat (w AND 7) = unat (w :: u64) mod 8"
proof -
  have "w AND 7 = take_bit 3 w" by (simp add: take_bit_eq_mask mask_eq_exp_minus_1)
  then show ?thesis by (simp add: unsigned_take_bit_eq) (simp add: take_bit_eq_mod)
qed

lemma u64_and_7_eq_0: "w AND 7 = 0 \<longleftrightarrow> unat (w :: u64) mod 8 = 0"
  by (metis u64_and_7 unat_eq_zero)

lemma u64_idx_Suc: "unat (w + 1 :: u64) mod 8 = Suc (unat w mod 8) mod 8"
proof -
  have "unat (w + 1) = Suc (unat w) mod 2 ^ 64" by (simp add: unat_word_ariths)
  then have "unat (w + 1) mod 8 = Suc (unat w) mod 8" by (simp add: mod_mod_cancel)
  then show ?thesis by (simp add: mod_Suc_eq)
qed

lemma u64_idx_add: "unat (w + of_nat n :: u64) mod 8 = (unat w + n) mod 8"
proof (induction n)
  case (Suc n)
  have "unat (w + of_nat (Suc n)) mod 8 = Suc (unat (w + of_nat n) mod 8) mod 8"
    using u64_idx_Suc [of "w + of_nat n"] by (simp add: ac_simps)
  with Suc show ?case by (simp add: mod_Suc_eq)
qed simp

lemma sipround_frame [simp]:
  "cnt (sipround s) = cnt s" "is_reference_128 (sipround s) = is_reference_128 s"
  "current_bytes (sipround s) = current_bytes s"
  by (simp_all add: sipround_def Let_def)

lemma compress_frame [simp]:
  "cnt (compress s) = cnt s" "is_reference_128 (compress s) = is_reference_128 s"
  "current_bytes (compress s) = current_bytes s"
  by (simp_all add: compress_def Let_def)

lemma sipround_upd [simp]:
  "sipround (s\<lparr>cnt := c\<rparr>) = (sipround s)\<lparr>cnt := c\<rparr>"
  "sipround (s\<lparr>current_bytes := bs\<rparr>) = (sipround s)\<lparr>current_bytes := bs\<rparr>"
  by (simp_all add: sipround_def Let_def)

lemma compress_cnt [simp]:
  "compress (s\<lparr>cnt := c\<rparr>) = (compress s)\<lparr>cnt := c\<rparr>"
  "compress (s\<lparr>cnt := c, current_bytes := bs\<rparr>) = (compress (s\<lparr>current_bytes := bs\<rparr>))\<lparr>cnt := c\<rparr>"
  by ((cases s, simp add: compress_def current_word_def sipround_def Let_def)+)

lemma pad_word_snoc:
  assumes "length bs < 8"
  shows "(pad_word bs)[length bs := b] = pad_word (bs @ [b])"
proof -
  have "replicate (8 - length bs) (0 :: u8) = 0 # replicate (8 - Suc (length bs)) 0"
    using assms by (metis Suc_diff_Suc replicate_Suc)
  then show ?thesis by (simp add: pad_word_def list_update_append)
qed

lemma pad_word_full: "length bs = 8 \<Longrightarrow> pad_word bs = bs"
  by (simp add: pad_word_def)

lemma pad_word_Nil: "pad_word [] = replicate 8 0"
  by (simp add: pad_word_def)

lemma byte_step_pad:
  assumes "length bs = unat (cnt s) mod 8" and "current_bytes s = pad_word bs"
  shows "byte_step s b =
    (if length bs = 7
     then (compress (s\<lparr>current_bytes := bs @ [b]\<rparr>))\<lparr>cnt := cnt s + 1, current_bytes := replicate 8 0\<rparr>
     else s\<lparr>current_bytes := pad_word (bs @ [b]), cnt := cnt s + 1\<rparr>)"
proof -
  have l: "length bs < 8" using assms(1) by simp
  have "(cnt s + 1) AND 7 = 0 \<longleftrightarrow> length bs = 7"
    using l by (simp add: u64_and_7_eq_0 u64_idx_Suc flip: assms(1)) (simp add: mod_Suc)
  then show ?thesis
    using l assms(2) pad_word_full [of "bs @ [b]"]
    by (auto simp: byte_step_def Let_def u64_and_7 pad_word_snoc simp flip: assms(1))
qed

text \<open>Absorbing bytes that stay within the current word.\<close>

lemma foldl_byte_step_partial:
  assumes "length bs = unat (cnt s) mod 8" and "current_bytes s = pad_word bs"
    and "length bs + length cs < 8"
  shows "foldl byte_step s cs =
    s\<lparr>current_bytes := pad_word (bs @ cs), cnt := cnt s + of_nat (length cs)\<rparr>"
  using assms
proof (induction cs arbitrary: s bs)
  case Nil
  then show ?case by (cases s) simp
next
  case (Cons c cs)
  let ?s = "s\<lparr>current_bytes := pad_word (bs @ [c]), cnt := cnt s + 1\<rparr>"
  have "byte_step s c = ?s" using Cons.prems by (simp add: byte_step_pad)
  moreover have "length (bs @ [c]) = unat (cnt ?s) mod 8"
    using Cons.prems by (simp add: u64_idx_Suc flip: Cons.prems(1))
  ultimately show ?case
    using Cons.IH [of "bs @ [c]" ?s] Cons.prems(3) by (simp add: ac_simps)
qed

text \<open>Absorbing bytes up to and including the last one of the current word.\<close>

lemma foldl_byte_step_complete:
  assumes "length bs = unat (cnt s) mod 8" and "current_bytes s = pad_word bs"
    and "length bs + length cs = 8"
  shows "foldl byte_step s cs =
    (compress (s\<lparr>current_bytes := bs @ cs\<rparr>))
      \<lparr>cnt := cnt s + of_nat (length cs), current_bytes := replicate 8 0\<rparr>"
proof -
  have "cs \<noteq> []" using assms by (auto simp: assms(1))
  then obtain ds d where cs: "cs = ds @ [d]" using rev_exhaust by blast
  let ?s = "s\<lparr>current_bytes := pad_word (bs @ ds), cnt := cnt s + of_nat (length ds)\<rparr>"
  have "foldl byte_step s ds = ?s"
    using assms cs by (intro foldl_byte_step_partial) auto
  moreover have "length (bs @ ds) = unat (cnt ?s) mod 8"
  proof -
    have "(unat (cnt s) + length ds) mod 8 = (length bs + length ds) mod 8"
      by (simp add: assms(1) mod_add_left_eq)
    then show ?thesis using assms(3) cs by (simp add: u64_idx_add)
  qed
  ultimately show ?thesis
    using byte_step_pad [of "bs @ ds" ?s d] assms(3) cs by (simp add: ac_simps)
qed

lemma absorb_rest_bytes: "absorb_rest (s\<lparr>current_bytes := xs\<rparr>) cs = absorb_rest s cs"
proof (cases "8 \<le> length cs")
  case True
  then have "absorb_words (s\<lparr>current_bytes := xs, cnt := c\<rparr>) cs = absorb_words (s\<lparr>cnt := c\<rparr>) cs" for c
    by (subst (1 2) absorb_words.simps) (simp add: absorb_words.simps)
  then show ?thesis by (simp add: absorb_rest_def)
next
  case False
  then show ?thesis by (simp add: absorb_rest_def absorb_words.simps)
qed

lemma absorb_rest_word:
  assumes "8 \<le> length cs"
  shows "absorb_rest s cs =
    absorb_rest ((compress (s\<lparr>current_bytes := take 8 cs\<rparr>))\<lparr>cnt := cnt s + 8\<rparr>) (drop 8 cs)"
proof -
  have "of_nat (length cs) = (8 :: u64) + of_nat (length (drop 8 cs))"
    using assms by (metis le_add_diff_inverse length_drop of_nat_add of_nat_numeral)
  then have "cnt s + of_nat (length cs) = cnt s + 8 + of_nat (length (drop 8 cs))"
    by (simp add: ac_simps)
  moreover have "absorb_words (s\<lparr>cnt := c\<rparr>) cs =
      absorb_words ((compress (s\<lparr>current_bytes := take 8 cs\<rparr>))\<lparr>cnt := c\<rparr>) (drop 8 cs)" for c
    using assms by (subst absorb_words.simps) simp
  ultimately show ?thesis by (simp add: absorb_rest_def add.assoc)
qed

lemma foldl_byte_step_words:
  "unat (cnt s) mod 8 = 0 \<Longrightarrow> current_bytes s = pad_word [] \<Longrightarrow>
   foldl byte_step s cs = absorb_rest s cs"
proof (induction cs arbitrary: s rule: length_induct)
  case (1 cs)
  show ?case
  proof (cases "8 \<le> length cs")
    case False
    then have "absorb_rest s cs =
        s\<lparr>cnt := cnt s + of_nat (length cs), current_bytes := pad_word cs\<rparr>"
      by (simp add: absorb_rest_def absorb_words.simps)
    then show ?thesis
      using foldl_byte_step_partial [of "[]" s cs] "1.prems" False by simp
  next
    case True
    let ?s = "(compress (s\<lparr>current_bytes := take 8 cs\<rparr>))
        \<lparr>cnt := cnt s + 8, current_bytes := replicate 8 0\<rparr>"
    have "foldl byte_step s (take 8 cs) = ?s"
      using foldl_byte_step_complete [of "[]" s "take 8 cs"] "1.prems" True by simp
    then have "foldl byte_step s cs = foldl byte_step ?s (drop 8 cs)"
      by (metis append_take_drop_id foldl_append)
    also have "\<dots> = absorb_rest ?s (drop 8 cs)"
      using "1.IH" [rule_format, of "drop 8 cs" ?s] "1.prems" True u64_idx_add [of "cnt s" 8]
      by (simp add: pad_word_Nil mod_eq_0_iff_dvd)
    also have "\<dots> = absorb_rest s cs"
      using absorb_rest_word [OF True] by (simp add: absorb_rest_bytes)
    finally show ?thesis .
  qed
qed

lemma fill_word_step:
  assumes "length bs = unat (cnt s) mod 8" and "bs \<noteq> []" and "current_bytes s = pad_word bs"
  shows "fill_word s (c # cs) =
    fill_word (s\<lparr>current_bytes := pad_word (bs @ [c]), cnt := cnt s + 1\<rparr>) cs"
proof -
  have "length bs < 8" using assms(1) by simp
  moreover have "cnt s AND 7 \<noteq> 0" using assms(1,2) by (metis length_0_conv u64_and_7_eq_0)
  ultimately show ?thesis
    using assms(3) by (simp add: u64_and_7 pad_word_snoc flip: assms(1))
qed

lemma fill_word_partial:
  "length bs = unat (cnt s) mod 8 \<Longrightarrow> bs \<noteq> [] \<Longrightarrow> current_bytes s = pad_word bs \<Longrightarrow>
   length bs + length cs < 8 \<Longrightarrow>
   fill_word s cs = (s\<lparr>current_bytes := pad_word (bs @ cs), cnt := cnt s + of_nat (length cs)\<rparr>, [])"
proof (induction cs arbitrary: s bs)
  case Nil
  then show ?case by (cases s) simp
next
  case (Cons c cs)
  let ?s = "s\<lparr>current_bytes := pad_word (bs @ [c]), cnt := cnt s + 1\<rparr>"
  have "length (bs @ [c]) = unat (cnt ?s) mod 8"
    using Cons.prems(4) by (simp add: u64_idx_Suc flip: Cons.prems(1))
  with Cons.IH [of "bs @ [c]" ?s] Cons.prems(4) fill_word_step [OF Cons.prems(1-3)]
  show ?case by (simp add: add.assoc)
qed

lemma fill_word_complete:
  assumes "length bs = unat (cnt s) mod 8" and "bs \<noteq> []" and "current_bytes s = pad_word bs"
    and "length bs + length cs = 8"
  shows "fill_word s (cs @ ds) =
    (s\<lparr>current_bytes := bs @ cs, cnt := cnt s + of_nat (length cs)\<rparr>, ds)"
  using assms
proof (induction cs arbitrary: s bs)
  case Nil
  then show ?case by simp
next
  case (Cons c cs)
  let ?s = "s\<lparr>current_bytes := pad_word (bs @ [c]), cnt := cnt s + 1\<rparr>"
  have idx: "unat (cnt ?s) mod 8 = length (bs @ [c]) mod 8"
    by (simp add: u64_idx_Suc flip: Cons.prems(1))
  note step = fill_word_step [OF Cons.prems(1-3), of c "cs @ ds"]
  show ?case
  proof (cases cs)
    case Nil
    then have "length (bs @ [c]) = 8" using Cons.prems(4) by simp
    moreover from this idx have "cnt ?s AND 7 = 0" by (simp add: u64_and_7_eq_0)
    ultimately show ?thesis using step Nil by (cases ds) (simp_all add: pad_word_full)
  next
    case more: (Cons c' cs')
    then have "length (bs @ [c]) < 8" using Cons.prems(4) by simp
    with idx Cons.IH [of "bs @ [c]" ?s] Cons.prems(4) step show ?thesis
      by (simp add: add.assoc)
  qed
qed

lemma update_byte_wise:
  assumes "sip_inv s"
  shows "update s cs = foldl byte_step s cs"
proof -
  obtain bs where bs: "length bs = unat (cnt s) mod 8" "current_bytes s = pad_word bs"
    using assms by (auto simp: sip_inv_def u64_and_7)
  show ?thesis
  proof (cases "bs = []")
    case True
    then show ?thesis
      using bs foldl_byte_step_words [of s cs] by (simp add: update_def u64_and_7_eq_0)
  next
    case False
    have ne: "cnt s AND 7 \<noteq> 0" using bs(1) False by (metis length_0_conv u64_and_7_eq_0)
    have idx: "unat (cnt s + of_nat n) mod 8 = (length bs + n) mod 8" for n
      by (simp add: u64_idx_add bs(1) mod_add_left_eq)
    show ?thesis
    proof (cases "length bs + length cs < 8")
      case True
      then show ?thesis
        using ne False idx fill_word_partial [OF bs(1) False bs(2) True]
          foldl_byte_step_partial [OF bs True]
        by (simp add: update_def u64_and_7_eq_0)
    next
      case ge: False
      define xs ys where "xs = take (8 - length bs) cs" and "ys = drop (8 - length bs) cs"
      have cs: "cs = xs @ ys" by (simp add: xs_def ys_def)
      have "length bs < 8" using bs(1) by simp
      then have len: "length bs + length xs = 8" using ge by (simp add: xs_def)
      let ?s = "compress (s\<lparr>current_bytes := bs @ xs, cnt := cnt s + of_nat (length xs)\<rparr>)"
      have "foldl byte_step s xs = ?s\<lparr>current_bytes := replicate 8 0\<rparr>"
        using foldl_byte_step_complete [OF bs len] by simp
      then have "foldl byte_step s cs = absorb_rest ?s ys"
        using foldl_byte_step_words [of "?s\<lparr>current_bytes := replicate 8 0\<rparr>" ys] idx [of "length xs"] len
        by (simp add: cs absorb_rest_bytes pad_word_Nil)
      then show ?thesis
        using ne idx [of "length xs"] len fill_word_complete [OF bs(1) False bs(2) len, of ys]
        by (simp add: update_def u64_and_7_eq_0 flip: cs)
    qed
  qed
qed

lemma sip_inv_init: "sip_inv (SipHash_init key0 key1 r)"
  by (simp add: sip_inv_def SipHash_init_def pad_word_def)

lemma sip_inv_byte_step:
  assumes "sip_inv s"
  shows "sip_inv (byte_step s b)"
proof -
  obtain bs where bs: "length bs = unat (cnt s) mod 8" "current_bytes s = pad_word bs"
    using assms by (auto simp: sip_inv_def u64_and_7)
  have idx: "unat (cnt s + 1) mod 8 = Suc (length bs) mod 8"
    by (simp add: u64_idx_Suc flip: bs(1))
  have "length bs < 8" using bs(1) by simp
  show ?thesis
  proof (cases "length bs = 7")
    case True
    then show ?thesis
      using idx byte_step_pad [OF bs, of b] by (simp add: sip_inv_def u64_and_7 pad_word_Nil)
  next
    case False
    then have "length (bs @ [b]) = unat (cnt s + 1) mod 8" using idx \<open>length bs < 8\<close> by simp
    then show ?thesis
      using False byte_step_pad [OF bs, of b]
      by (auto simp: sip_inv_def u64_and_7 intro!: exI [of _ "bs @ [b]"])
  qed
qed

lemma sip_inv_update: "sip_inv s \<Longrightarrow> sip_inv (update s cs)"
proof -
  have "sip_inv s \<Longrightarrow> sip_inv (foldl byte_step s cs)"
    by (induction cs arbitrary: s) (simp_all add: sip_inv_byte_step)
  then show "sip_inv s \<Longrightarrow> sip_inv (update s cs)" by (simp add: update_byte_wise)
qed

lemma update_append: "sip_inv s \<Longrightarrow> update (update s as) bs = update s (as @ bs)"
  by (metis foldl_append sip_inv_update update_byte_wise)

text \<open>
  C27: Hashing in pieces gives the hash of the whole: any sequence of calls of \<open>update\<close> leaves the
  state of one call on the concatenated input, and \<open>update\<close> is byte-wise absorption.
\<close>

theorem siphash_streaming:
  "foldl update (SipHash_init key0 key1 r) chunks = update (SipHash_init key0 key1 r) (concat chunks) \<and>
   update (SipHash_init key0 key1 r) bs = foldl byte_step (SipHash_init key0 key1 r) bs"
proof -
  have "sip_inv s \<Longrightarrow> foldl update s chunks = update s (concat chunks)" for s
  proof (induction chunks arbitrary: s)
    case Nil
    then show ?case by (simp add: update_byte_wise)
  next
    case (Cons c cs)
    then show ?case by (simp add: sip_inv_update update_append)
  qed
  then show ?thesis by (simp add: sip_inv_init update_byte_wise)
qed


end
