(* ===== verification/SessionExpiry.thy ===== *)
theory SessionExpiry
  imports Prelude "HOL-Library.Signed_Division"
begin

text \<open>
  \<open>SessionExpiryQueue\<close> (\<open>src/Coordination/SessionExpiryQueue.h\<close>, \<open>.cpp\<close>): sessions grouped
  in buckets by their expiration time rounded up to the next tick. \<open>std::map\<close> is an
  association list ordered by key; the clock (\<open>getNowMilliseconds\<close>) is an argument of the
  operations that read it. The code dereferences the result of a bucket lookup without
  testing it for \<open>end()\<close>; the model returns \<open>Undefined_behaviour\<close> there.
\<close>

subsection \<open>Ordered maps\<close>

fun om_put :: "int \<Rightarrow> 'v \<Rightarrow> (int \<times> 'v) list \<Rightarrow> (int \<times> 'v) list" where
  "om_put k v [] = [(k, v)]"
| "om_put k v ((l, w) # m) =
     (if k < l then (k, v) # (l, w) # m else if k = l then (k, v) # m else (l, w) # om_put k v m)"

definition om_erase :: "int \<Rightarrow> (int \<times> 'v) list \<Rightarrow> (int \<times> 'v) list" where
  "om_erase k m = filter (\<lambda>kv. fst kv \<noteq> k) m"

definition om_sorted :: "(int \<times> 'v) list \<Rightarrow> bool" where
  "om_sorted m \<longleftrightarrow> sorted_wrt (<) (map fst m)"

lemma om_lookup_put [simp]: "map_of (om_put k v m) = (map_of m)(k \<mapsto> v)"
  by (induction m) (auto simp: fun_eq_iff)

lemma om_keys_put: "fst ` set (om_put k v m) = insert k (fst ` set m)"
  by (induction k v m rule: om_put.induct) (simp_all add: insert_commute)

lemma om_sorted_put: "om_sorted m \<Longrightarrow> om_sorted (om_put k v m)"
  unfolding om_sorted_def
proof (induction m)
  case (Cons a m)
  obtain l w where a: "a = (l, w)" by (cases a)
  have "set (map fst (om_put k v m)) = insert k (set (map fst m))"
    using om_keys_put [of k v m] by simp
  with Cons a show ?case by auto
qed simp

lemma om_lookup_erase [simp]: "map_of (om_erase k m) = (map_of m)(k := None)"
  by (induction m) (auto simp: om_erase_def fun_eq_iff)

lemma om_sorted_erase: "om_sorted m \<Longrightarrow> om_sorted (om_erase k m)"
  by (simp add: om_sorted_def om_erase_def sorted_wrt_map sorted_wrt_filter)

lemma om_sorted_distinct: "om_sorted m \<Longrightarrow> distinct (map fst m)"
  by (simp add: om_sorted_def strict_sorted_iff)

subsection \<open>The queue\<close>

record SessionExpiryQueue =
  session_to_expiration_time :: "session \<rightharpoonup> int"
  expiry_to_sessions :: "(int \<times> session list) list"
  expiration_interval :: int

definition SessionExpiryQueue_init :: "int \<Rightarrow> SessionExpiryQueue" where
  "SessionExpiryQueue_init interval =
     \<lparr>session_to_expiration_time = Map.empty, expiry_to_sessions = [],
      expiration_interval = interval\<rparr>"

definition roundToNextInterval :: "SessionExpiryQueue \<Rightarrow> int \<Rightarrow> int" where
  "roundToNextInterval q time = (time sdiv expiration_interval q + 1) * expiration_interval q"

text \<open>
  Take a session out of the bucket of \<open>t\<close> and drop the bucket when it becomes empty: the end of
  \<open>remove\<close> and of the update branch.
\<close>

definition leave_bucket :: "(int \<times> session list) list \<Rightarrow> int \<Rightarrow> session \<Rightarrow>
    (int \<times> session list) list result" where
  "leave_bucket m t sid =
     (case map_of m t of
        None \<Rightarrow> Inl Undefined_behaviour
      | Some ss \<Rightarrow>
          Inr (if hs_erase sid ss = [] then om_erase t m else om_put t (hs_erase sid ss) m))"

definition enter_bucket :: "(int \<times> session list) list \<Rightarrow> int \<Rightarrow> session \<Rightarrow>
    (int \<times> session list) list" where
  "enter_bucket m t sid =
     om_put t (hs_insert sid (case map_of m t of None \<Rightarrow> [] | Some ss \<Rightarrow> ss)) m"

definition remove :: "SessionExpiryQueue \<Rightarrow> session \<Rightarrow> (SessionExpiryQueue \<times> bool) result" where
  "remove q sid =
     (case session_to_expiration_time q sid of
        None \<Rightarrow> Inr (q, False)
      | Some t \<Rightarrow>
          rbind (leave_bucket (expiry_to_sessions q) t sid) (\<lambda>m.
            Inr (q\<lparr>expiry_to_sessions := m,
                   session_to_expiration_time := (session_to_expiration_time q)(sid := None)\<rparr>,
                 True)))"

definition addNewSessionOrUpdate ::
    "SessionExpiryQueue \<Rightarrow> int \<Rightarrow> session \<Rightarrow> int \<Rightarrow> SessionExpiryQueue result" where
  "addNewSessionOrUpdate q now sid timeout_ms =
     (let new_expiry_time = roundToNextInterval q (now + timeout_ms);
          times = (session_to_expiration_time q)(sid \<mapsto> new_expiry_time)
      in case session_to_expiration_time q sid of
        Some prev_expiry_time \<Rightarrow>
          if new_expiry_time = prev_expiry_time then
            Inr (q\<lparr>session_to_expiration_time := times\<rparr>)
          else
            rbind (leave_bucket (enter_bucket (expiry_to_sessions q) new_expiry_time sid)
                     prev_expiry_time sid) (\<lambda>m.
              Inr (q\<lparr>session_to_expiration_time := times, expiry_to_sessions := m\<rparr>))
      | None \<Rightarrow>
          Inr (q\<lparr>session_to_expiration_time := times,
                 expiry_to_sessions := enter_bucket (expiry_to_sessions q) new_expiry_time sid\<rparr>))"

fun expired_from :: "(int \<times> session list) list \<Rightarrow> int \<Rightarrow> session list" where
  "expired_from [] now = []"
| "expired_from ((expire_time, expired_sessions) # m) now =
     (if expire_time \<le> now then expired_sessions @ expired_from m now else [])"

definition getExpiredSessions :: "SessionExpiryQueue \<Rightarrow> int \<Rightarrow> session list" where
  "getExpiredSessions q now = expired_from (expiry_to_sessions q) now"

definition clear :: "SessionExpiryQueue \<Rightarrow> SessionExpiryQueue" where
  "clear q = q\<lparr>session_to_expiration_time := Map.empty, expiry_to_sessions := []\<rparr>"

subsection \<open>Invariant and specification\<close>

text \<open>The buckets are ordered, non-empty, duplicate-free, and index the expiration times.\<close>

definition buckets_ok :: "(int \<times> session list) list \<Rightarrow> bool" where
  "buckets_ok m \<longleftrightarrow> om_sorted m \<and> (\<forall>ss\<in>ran (map_of m). ss \<noteq> [] \<and> distinct ss)"

definition expiry_inv :: "SessionExpiryQueue \<Rightarrow> bool" where
  "expiry_inv q \<longleftrightarrow>
     buckets_ok (expiry_to_sessions q) \<and>
     (\<forall>s t. session_to_expiration_time q s = Some t \<longleftrightarrow>
        s \<in> set (bucket (map_of (expiry_to_sessions q)) t))"

lemma expiry_inv_init: "expiry_inv (SessionExpiryQueue_init i)"
  by (simp add: expiry_inv_def SessionExpiryQueue_init_def buckets_ok_def om_sorted_def)

lemma expiry_inv_clear: "expiry_inv (clear q)"
  by (simp add: expiry_inv_def clear_def buckets_ok_def om_sorted_def)

lemma bucket_enter [simp]:
  "bucket (map_of (enter_bucket m t sid)) u =
     (if u = t then hs_insert sid (bucket (map_of m) t) else bucket (map_of m) u)"
  by (cases "map_of m t")
    (simp_all add: enter_bucket_def bucket_upd bucket_None bucket_Some del: fun_upd_apply)

lemma bucket_leave:
  "leave_bucket m t sid = Inr m' \<Longrightarrow>
     bucket (map_of m') u =
       (if u = t then hs_erase sid (bucket (map_of m) t) else bucket (map_of m) u)"
  by (cases "map_of m t")
    (auto simp: leave_bucket_def bucket_upd bucket_Some simp del: fun_upd_apply split: if_splits)

lemma buckets_ok_put:
  assumes "buckets_ok m" and "ss \<noteq> []" and "distinct ss"
  shows "buckets_ok (om_put t ss m)"
proof -
  have "ran (map_of (om_put t ss m)) \<subseteq> insert ss (ran (map_of m))"
    by (auto simp: ran_def split: if_splits)
  then have "\<forall>xs\<in>ran (map_of (om_put t ss m)). xs \<noteq> [] \<and> distinct xs"
    using assms unfolding buckets_ok_def by blast
  with assms show ?thesis by (simp add: buckets_ok_def om_sorted_put del: om_lookup_put)
qed

lemma buckets_ok_erase:
  assumes "buckets_ok m"
  shows "buckets_ok (om_erase t m)"
proof -
  have "ran (map_of (om_erase t m)) \<subseteq> ran (map_of m)"
    by (auto simp: ran_def split: if_splits)
  with assms show ?thesis unfolding buckets_ok_def using om_sorted_erase by blast
qed

lemma buckets_ok_lookup: "buckets_ok m \<Longrightarrow> map_of m t = Some ss \<Longrightarrow> distinct ss"
  unfolding buckets_ok_def by (metis ranI)

lemma buckets_ok_enter: "buckets_ok m \<Longrightarrow> buckets_ok (enter_bucket m t sid)"
  using buckets_ok_lookup [of m t]
  by (cases "map_of m t") (simp_all add: enter_bucket_def buckets_ok_put)

lemma buckets_ok_leave: "buckets_ok m \<Longrightarrow> leave_bucket m t sid = Inr m' \<Longrightarrow> buckets_ok m'"
  by (cases "map_of m t")
    (auto simp: leave_bucket_def split: if_splits
      intro: buckets_ok_put buckets_ok_erase distinct_hs_erase buckets_ok_lookup)

lemma leave_bucket_defined:
  "sid \<in> set (bucket (map_of m) t) \<Longrightarrow> \<exists>m'. leave_bucket m t sid = Inr m'"
  by (cases "map_of m t") (simp_all add: leave_bucket_def bucket_def)

lemma remove_correct:
  assumes "expiry_inv q"
  shows "\<exists>q'. remove q sid = Inr (q', sid \<in> dom (session_to_expiration_time q)) \<and> expiry_inv q' \<and>
    session_to_expiration_time q' = (session_to_expiration_time q)(sid := None) \<and>
    expiration_interval q' = expiration_interval q"
proof (cases "session_to_expiration_time q sid")
  case None
  with assms show ?thesis by (auto simp: remove_def)
next
  case (Some t)
  with assms have "sid \<in> set (bucket (map_of (expiry_to_sessions q)) t)"
    unfolding expiry_inv_def by blast
  then obtain m where m: "leave_bucket (expiry_to_sessions q) t sid = Inr m"
    using leave_bucket_defined by blast
  let ?q = "q\<lparr>expiry_to_sessions := m,
              session_to_expiration_time := (session_to_expiration_time q)(sid := None)\<rparr>"
  have ok: "buckets_ok (expiry_to_sessions q)"
    and idx: "\<And>s t. session_to_expiration_time q s = Some t \<longleftrightarrow>
        s \<in> set (bucket (map_of (expiry_to_sessions q)) t)"
    using assms unfolding expiry_inv_def by blast+
  have "expiry_inv ?q"
    using buckets_ok_leave [OF ok m] Some
    by (auto simp: expiry_inv_def bucket_leave [OF m] idx [symmetric])
  with Some m show ?thesis by (auto simp: remove_def)
qed

lemma addNewSessionOrUpdate_correct:
  assumes "expiry_inv q"
  shows "\<exists>q'. addNewSessionOrUpdate q now sid timeout_ms = Inr q' \<and> expiry_inv q' \<and>
    session_to_expiration_time q' =
      (session_to_expiration_time q)(sid \<mapsto> roundToNextInterval q (now + timeout_ms)) \<and>
    expiration_interval q' = expiration_interval q"
proof -
  let ?t = "roundToNextInterval q (now + timeout_ms)"
  let ?times = "(session_to_expiration_time q)(sid \<mapsto> ?t)"
  let ?e = "enter_bucket (expiry_to_sessions q) ?t sid"
  have ok: "buckets_ok (expiry_to_sessions q)"
    and idx: "\<And>s t. session_to_expiration_time q s = Some t \<longleftrightarrow>
        s \<in> set (bucket (map_of (expiry_to_sessions q)) t)"
    using assms unfolding expiry_inv_def by blast+
  note ok_e = buckets_ok_enter [OF ok, of ?t sid]
  show ?thesis
  proof (cases "session_to_expiration_time q sid")
    case None
    then have "expiry_inv (q\<lparr>session_to_expiration_time := ?times, expiry_to_sessions := ?e\<rparr>)"
      using ok_e by (auto simp: expiry_inv_def idx [symmetric])
    with None show ?thesis by (simp add: addNewSessionOrUpdate_def Let_def)
  next
    case (Some p)
    show ?thesis
    proof (cases "?t = p")
      case True
      with Some have "?times = session_to_expiration_time q" by auto
      with True Some assms show ?thesis by (simp add: addNewSessionOrUpdate_def Let_def)
    next
      case False
      with Some idx have "sid \<in> set (bucket (map_of ?e) p)" by auto
      then obtain m where m: "leave_bucket ?e p sid = Inr m"
        using leave_bucket_defined by blast
      have "expiry_inv (q\<lparr>session_to_expiration_time := ?times, expiry_to_sessions := m\<rparr>)"
        using False Some buckets_ok_leave [OF ok_e m]
        by (auto simp: expiry_inv_def bucket_leave [OF m] idx [symmetric])
      with False Some m show ?thesis by (simp add: addNewSessionOrUpdate_def Let_def)
    qed
  qed
qed

lemma expired_from_takeWhile:
  "expired_from m now = concat (map snd (takeWhile (\<lambda>b. fst b \<le> now) m))"
  by (induction m now rule: expired_from.induct) simp_all

lemma sorted_takeWhile_filter:
  "om_sorted m \<Longrightarrow> takeWhile (\<lambda>b. fst b \<le> now) m = filter (\<lambda>b. fst b \<le> now) m"
proof (induction m)
  case (Cons b m)
  then have "filter (\<lambda>b. fst b \<le> now) m = []" if "\<not> fst b \<le> now"
    using that by (fastforce simp: om_sorted_def filter_empty_conv)
  with Cons show ?case by (simp add: om_sorted_def)
qed simp

lemma in_buckets_iff:
  assumes "expiry_inv q"
  shows "(\<exists>ss. (t, ss) \<in> set (expiry_to_sessions q) \<and> s \<in> set ss) \<longleftrightarrow>
     session_to_expiration_time q s = Some t"
proof -
  have "distinct (map fst (expiry_to_sessions q))"
    using assms by (simp add: expiry_inv_def buckets_ok_def om_sorted_distinct)
  then have "(t, ss) \<in> set (expiry_to_sessions q) \<longleftrightarrow> map_of (expiry_to_sessions q) t = Some ss"
    for ss by (metis map_of_eq_Some_iff)
  moreover have "session_to_expiration_time q s = Some t \<longleftrightarrow>
      s \<in> set (bucket (map_of (expiry_to_sessions q)) t)"
    using assms unfolding expiry_inv_def by blast
  ultimately show ?thesis
    by (cases "map_of (expiry_to_sessions q) t") (simp_all add: bucket_def)
qed

lemma getExpiredSessions_set:
  assumes "expiry_inv q"
  shows "set (getExpiredSessions q now) =
    {s. \<exists>t. session_to_expiration_time q s = Some t \<and> t \<le> now}"
proof -
  have "om_sorted (expiry_to_sessions q)"
    using assms by (simp add: expiry_inv_def buckets_ok_def)
  then have "set (getExpiredSessions q now) =
      {s. \<exists>t. (\<exists>ss. (t, ss) \<in> set (expiry_to_sessions q) \<and> s \<in> set ss) \<and> t \<le> now}"
    by (force simp: getExpiredSessions_def expired_from_takeWhile sorted_takeWhile_filter)
  then show ?thesis by (simp only: in_buckets_iff [OF assms])
qed

lemma roundToNextInterval_bounds:
  assumes "0 < expiration_interval q" and "0 \<le> time"
  shows "time < roundToNextInterval q time \<and>
    roundToNextInterval q time \<le> time + expiration_interval q"
proof -
  let ?i = "expiration_interval q"
  have "time sdiv ?i = time div ?i" using assms by (auto simp: signed_divide_int_def sgn_if)
  then have "roundToNextInterval q time = time - time mod ?i + ?i"
    by (simp add: roundToNextInterval_def algebra_simps minus_mod_eq_mult_div)
  moreover have "0 \<le> time mod ?i" "time mod ?i < ?i" using assms(1) by simp_all
  ultimately show ?thesis by simp
qed

subsection \<open>Histories\<close>

text \<open>
  The calls that change the queue: a session was created or heard from
  (\<open>KeeperStorage::addSessionID\<close>, \<open>getSessionID\<close>, \<open>processRequest\<close>), or it was closed.
\<close>

datatype expiry_op = Touch (touch_now: int) (op_session: session) (touch_timeout: int)
  | Drop (op_session: session)

fun expiry_step :: "expiry_op \<Rightarrow> SessionExpiryQueue \<Rightarrow> SessionExpiryQueue result" where
  "expiry_step (Touch now sid timeout_ms) q = addNewSessionOrUpdate q now sid timeout_ms"
| "expiry_step (Drop sid) q = rbind (remove q sid) (\<lambda>(q', _). Inr q')"

fun expiry_run :: "expiry_op list \<Rightarrow> SessionExpiryQueue \<Rightarrow> SessionExpiryQueue result" where
  "expiry_run [] q = Inr q"
| "expiry_run (op # ops) q = rbind (expiry_step op q) (expiry_run ops)"

text \<open>The specification: a deadline per session, a multiple of the interval.\<close>

fun deadline_step :: "int \<Rightarrow> expiry_op \<Rightarrow> (session \<rightharpoonup> int) \<Rightarrow> (session \<rightharpoonup> int)" where
  "deadline_step i (Touch now sid timeout_ms) d = d(sid \<mapsto> ((now + timeout_ms) sdiv i + 1) * i)"
| "deadline_step i (Drop sid) d = d(sid := None)"

lemma expiry_step_refines:
  "expiry_inv q \<Longrightarrow>
   \<exists>q'. expiry_step op q = Inr q' \<and> expiry_inv q' \<and>
     session_to_expiration_time q' =
       deadline_step (expiration_interval q) op (session_to_expiration_time q) \<and>
     expiration_interval q' = expiration_interval q"
  using addNewSessionOrUpdate_correct [of q "touch_now op" "op_session op" "touch_timeout op"]
    remove_correct [of q "op_session op"]
  by (cases op) (auto simp: roundToNextInterval_def)

lemma expiry_run_refines:
  "expiry_inv q \<Longrightarrow>
   \<exists>q'. expiry_run ops q = Inr q' \<and> expiry_inv q' \<and>
     session_to_expiration_time q' =
       fold (deadline_step (expiration_interval q)) ops (session_to_expiration_time q) \<and>
     expiration_interval q' = expiration_interval q"
proof (induction ops arbitrary: q)
  case (Cons op ops)
  from expiry_step_refines [OF Cons.prems, of op] obtain q1 where
    "expiry_step op q = Inr q1" "expiry_inv q1"
    "session_to_expiration_time q1 =
       deadline_step (expiration_interval q) op (session_to_expiration_time q)"
    "expiration_interval q1 = expiration_interval q" by blast
  with Cons.IH [of q1] show ?case by simp
qed simp

lemma deadline_other:
  "\<forall>op\<in>set ops. op_session op \<noteq> s \<Longrightarrow> fold (deadline_step i) ops d s = d s"
proof (induction ops arbitrary: d)
  case (Cons op ops)
  then have "deadline_step i op d s = d s" by (cases op) auto
  with Cons show ?case by simp
qed simp

lemma distinct_buckets:
  "distinct (map fst m) \<Longrightarrow> \<forall>b\<in>set m. distinct (snd b) \<Longrightarrow>
   \<forall>b\<in>set m. \<forall>c\<in>set m. fst b \<noteq> fst c \<longrightarrow> set (snd b) \<inter> set (snd c) = {} \<Longrightarrow>
   distinct (concat (map snd m))"
proof (induction m)
  case (Cons b m)
  have "set (snd b) \<inter> set (snd c) = {}" if "c \<in> set m" for c
  proof -
    have "fst b \<noteq> fst c" using Cons.prems(1) that by auto
    then show ?thesis using Cons.prems(3) that by simp
  qed
  then have "set (snd b) \<inter> (\<Union>c\<in>set m. set (snd c)) = {}" by blast
  with Cons show ?case by simp
qed simp

lemma getExpiredSessions_distinct:
  assumes "expiry_inv q"
  shows "distinct (getExpiredSessions q now)"
proof -
  let ?m = "expiry_to_sessions q"
  have ok: "buckets_ok ?m" using assms by (simp add: expiry_inv_def)
  then have d: "distinct (map fst ?m)" by (simp add: buckets_ok_def om_sorted_distinct)
  have dis: "distinct (snd b)" if "b \<in> set ?m" for b
    using buckets_ok_lookup [OF ok, of "fst b" "snd b"] that d by simp
  have sep: "set (snd b) \<inter> set (snd c) = {}"
    if "b \<in> set ?m" "c \<in> set ?m" "fst b \<noteq> fst c" for b c
    using that in_buckets_iff [OF assms, of "fst b"] in_buckets_iff [OF assms, of "fst c"]
    by (metis disjoint_iff option.inject prod.collapse)
  have "distinct (concat (map snd (filter (\<lambda>b. fst b \<le> now) ?m)))"
    using d dis sep by (intro distinct_buckets) (auto simp: distinct_map_filter)
  then show ?thesis
    using ok by (simp add: getExpiredSessions_def expired_from_takeWhile sorted_takeWhile_filter
        buckets_ok_def)
qed


text \<open>
  C26: After a session was heard from at \<open>t0\<close>, and whatever happens to other sessions, it is not
  reported as expired up to \<open>t0 + timeout\<close>, and it is reported once a further expiration
  interval has passed.
\<close>

theorem expiry_window:
  assumes "0 < i" and "0 \<le> t0 + timeout"
    and "\<forall>op\<in>set later. op_session op \<noteq> s"
  shows "\<exists>q. expiry_run (before @ Touch t0 s timeout # later) (SessionExpiryQueue_init i) = Inr q \<and>
    (\<forall>now. now \<le> t0 + timeout \<longrightarrow> s \<notin> set (getExpiredSessions q now)) \<and>
    (\<forall>now. t0 + timeout + i \<le> now \<longrightarrow> s \<in> set (getExpiredSessions q now))"
proof -
  let ?ops = "before @ Touch t0 s timeout # later"
  from expiry_run_refines [OF expiry_inv_init, of ?ops i] obtain q where
    q: "expiry_run ?ops (SessionExpiryQueue_init i) = Inr q" "expiry_inv q"
      "session_to_expiration_time q = fold (deadline_step i) ?ops Map.empty"
    by (auto simp: SessionExpiryQueue_init_def)
  let ?d = "((t0 + timeout) sdiv i + 1) * i"
  have "session_to_expiration_time q s = Some ?d"
    by (simp add: q(3) deadline_other [OF assms(3)])
  moreover have "t0 + timeout < ?d \<and> ?d \<le> t0 + timeout + i"
    using roundToNextInterval_bounds [of "SessionExpiryQueue_init i"] assms(1,2)
    by (simp add: roundToNextInterval_def SessionExpiryQueue_init_def)
  ultimately show ?thesis using q(1) getExpiredSessions_set [OF q(2)] by auto
qed

theorem expiry_window_witness:
  "\<exists>q. expiry_run ([Touch 0 7 30] @ Touch 95 7 30 # [Touch 100 8 10, Drop 8])
        (SessionExpiryQueue_init 50) = Inr q \<and>
    (\<forall>now. now \<le> 95 + 30 \<longrightarrow> 7 \<notin> set (getExpiredSessions q now)) \<and>
    (\<forall>now. 95 + 30 + 50 \<le> now \<longrightarrow> 7 \<in> set (getExpiredSessions q now))"
  by (rule expiry_window) simp_all

end
