(* ===== verification/KeeperPaths.thy ===== *)
theory KeeperPaths
  imports Prelude "HOL-Library.Sublist"
begin

text \<open>
  Node paths: \<open>findLastSlash\<close>, \<open>parentNodePath\<close> and \<open>getBaseNodeName\<close> of
  \<open>src/Coordination/KeeperCommon.cpp\<close> and \<open>matchPath\<close> of
  \<open>src/Common/ZooKeeper/ZooKeeperCommon.cpp\<close>.

  \<open>std::string::npos\<close> is \<open>None\<close>. \<open>parentNodePath\<close> builds a \<open>StringRef\<close> of length
  \<open>npos\<close> for a path without a slash; every later read of it overruns the buffer, so the
  model returns \<open>None\<close> there and the callers turn it into undefined behaviour.
\<close>

subsection \<open>Definitions\<close>

text \<open>The loop \<open>for (size_t i = path.size - 1; i > 0; --i)\<close>.\<close>

fun findLastSlash_loop :: "path \<Rightarrow> nat \<Rightarrow> nat option" where
  "findLastSlash_loop p 0 = (if p ! 0 = CHR ''/'' then Some 0 else None)"
| "findLastSlash_loop p (Suc i) =
     (if p ! Suc i = CHR ''/'' then Some (Suc i) else findLastSlash_loop p i)"

definition findLastSlash :: "path \<Rightarrow> nat option" where
  "findLastSlash p = (if p = [] then None else findLastSlash_loop p (length p - 1))"

definition parentNodePath :: "path \<Rightarrow> path option" where
  "parentNodePath p =
     (case findLastSlash p of
        None \<Rightarrow> None
      | Some rslash_pos \<Rightarrow> if rslash_pos > 0 then Some (take rslash_pos p) else Some ''/'')"

definition getBaseNodeName :: "path \<Rightarrow> path" where
  "getBaseNodeName p =
     (case findLastSlash p of None \<Rightarrow> p | Some basename_start \<Rightarrow> drop (basename_start + 1) p)"

text \<open>\<open>std::filesystem::path(dir) / child\<close>, for a relative \<open>child\<close>.\<close>

definition fs_join :: "path \<Rightarrow> path \<Rightarrow> path" where
  "fs_join dir child =
     (if dir = [] \<or> last dir = CHR ''/'' then dir @ child else dir @ ''/'' @ child)"

datatype PathMatchResult = NOT_MATCH | EXACT | IS_CHILD

text \<open>\<open>std::mismatch\<close>: the two suffixes that start at the first difference.\<close>

fun mismatch :: "'a list \<Rightarrow> 'a list \<Rightarrow> 'a list \<times> 'a list" where
  "mismatch (x # xs) (y # ys) = (if x = y then mismatch xs ys else (x # xs, y # ys))"
| "mismatch xs ys = (xs, ys)"

definition remove_slash_suffix :: "path \<Rightarrow> path" where
  "remove_slash_suffix p = (if p \<noteq> [] \<and> last p = CHR ''/'' then butlast p else p)"

definition matchPath :: "path \<Rightarrow> path \<Rightarrow> PathMatchResult" where
  "matchPath p match_to =
     (case mismatch (remove_slash_suffix p) (remove_slash_suffix match_to) of
        (first_it, second_it) \<Rightarrow>
          if second_it \<noteq> [] then NOT_MATCH
          else if first_it = [] then EXACT
          else if hd first_it = CHR ''/'' then IS_CHILD else NOT_MATCH)"

text \<open>The constants of \<open>src/Coordination/KeeperConstants.h\<close>.\<close>

definition keeper_system_path :: path where
  "keeper_system_path = ''/keeper''"

definition keeper_api_version_path :: path where
  "keeper_api_version_path = keeper_system_path @ ''/api_version''"

definition keeper_api_feature_flags_path :: path where
  "keeper_api_feature_flags_path = keeper_system_path @ ''/feature_flags''"

definition keeper_config_path :: path where
  "keeper_config_path = keeper_system_path @ ''/config''"

definition keeper_availability_zone_path :: path where
  "keeper_availability_zone_path = keeper_system_path @ ''/availability_zone''"

text \<open>
  Paths in the form the ZooKeeper protocol prescribes: absolute, no empty component, no
  trailing slash but for the root. The server does not check it; theorems that need it
  name it as a hypothesis.
\<close>

fun no_double_slash :: "path \<Rightarrow> bool" where
  "no_double_slash [] \<longleftrightarrow> True"
| "no_double_slash [a] \<longleftrightarrow> True"
| "no_double_slash (a # b # p) \<longleftrightarrow> \<not> (a = CHR ''/'' \<and> b = CHR ''/'') \<and> no_double_slash (b # p)"

definition canonical :: "path \<Rightarrow> bool" where
  "canonical p \<longleftrightarrow> p = ''/'' \<or>
     (p \<noteq> [] \<and> hd p = CHR ''/'' \<and> last p \<noteq> CHR ''/'' \<and> no_double_slash p)"

subsection \<open>The position of the last slash\<close>

lemma findLastSlash_loop_Some:
  "findLastSlash_loop p n = Some i \<Longrightarrow>
     i \<le> n \<and> p ! i = CHR ''/'' \<and> (\<forall>j. i < j \<and> j \<le> n \<longrightarrow> p ! j \<noteq> CHR ''/'')"
  by (induction n) (auto split: if_splits simp: le_Suc_eq)

lemma findLastSlash_loop_None:
  "findLastSlash_loop p n = None \<longleftrightarrow> (\<forall>j\<le>n. p ! j \<noteq> CHR ''/'')"
  by (induction n) (auto simp: le_Suc_eq)

lemma findLastSlash_None: "findLastSlash p = None \<longleftrightarrow> CHR ''/'' \<notin> set p"
proof (cases "p = []")
  case False
  then have "(\<forall>j\<le>length p - 1. p ! j \<noteq> CHR ''/'') \<longleftrightarrow> (\<forall>j<length p. p ! j \<noteq> CHR ''/'')"
    by (metis One_nat_def Suc_pred length_greater_0_conv less_Suc_eq_le)
  with False show ?thesis
    by (auto simp: findLastSlash_def findLastSlash_loop_None in_set_conv_nth)
qed (simp add: findLastSlash_def)

lemma findLastSlash_SomeD:
  assumes "findLastSlash p = Some i"
  shows "i < length p" "p ! i = CHR ''/''" "CHR ''/'' \<notin> set (drop (Suc i) p)"
proof -
  from assms have ne: "p \<noteq> []" and l: "findLastSlash_loop p (length p - 1) = Some i"
    by (auto simp: findLastSlash_def split: if_splits)
  note f = findLastSlash_loop_Some [OF l]
  from f ne show "i < length p" by (cases p) auto
  from f show "p ! i = CHR ''/''" by simp
  show "CHR ''/'' \<notin> set (drop (Suc i) p)"
  proof
    assume "CHR ''/'' \<in> set (drop (Suc i) p)"
    then obtain k where "k < length (drop (Suc i) p)" and "drop (Suc i) p ! k = CHR ''/''"
      by (auto simp: in_set_conv_nth)
    then have "p ! (Suc i + k) = CHR ''/''" and "Suc i + k \<le> length p - 1" by auto
    with f show False by (metis add_Suc less_add_Suc1)
  qed
qed

text \<open>Splitting a path at its last slash: the shape every lemma below uses.\<close>

lemma findLastSlash_append:
  assumes "CHR ''/'' \<notin> set b"
  shows "findLastSlash (a @ CHR ''/'' # b) = Some (length a)"
proof -
  let ?p = "a @ CHR ''/'' # b"
  have "findLastSlash ?p \<noteq> None" by (simp add: findLastSlash_None)
  then obtain i where i: "findLastSlash ?p = Some i" by blast
  note d = findLastSlash_SomeD [OF i]
  have "\<not> i < length a"
  proof
    assume "i < length a"
    then have "CHR ''/'' \<in> set (drop (Suc i) ?p)" by simp
    with d(3) show False ..
  qed
  moreover have "\<not> length a < i"
  proof
    assume "length a < i"
    then have "?p ! i = b ! (i - length a - 1)" and "i - length a - 1 < length b"
      using d(1) by (auto simp: nth_append nth_Cons')
    with d(2) assms show False by (metis nth_mem)
  qed
  ultimately show ?thesis using i by simp
qed

lemma parentNodePath_append [simp]:
  "CHR ''/'' \<notin> set b \<Longrightarrow>
     parentNodePath (a @ CHR ''/'' # b) = Some (if a = [] then ''/'' else a)"
  by (simp add: parentNodePath_def findLastSlash_append)

lemma getBaseNodeName_append [simp]:
  "CHR ''/'' \<notin> set b \<Longrightarrow> getBaseNodeName (a @ CHR ''/'' # b) = b"
  by (simp add: getBaseNodeName_def findLastSlash_append)

lemmas parentNodePath_slash [simp] = parentNodePath_append [of _ "[]", simplified]
lemmas getBaseNodeName_slash [simp] = getBaseNodeName_append [of _ "[]", simplified]

lemma path_split_last:
  assumes "CHR ''/'' \<in> set p"
  obtains a b where "p = a @ CHR ''/'' # b" "CHR ''/'' \<notin> set b"
  using split_list_last [OF assms] by blast

lemma parentNodePath_None: "parentNodePath p = None \<longleftrightarrow> CHR ''/'' \<notin> set p"
  by (cases "findLastSlash p") (auto simp: parentNodePath_def simp flip: findLastSlash_None)

lemma getBaseNodeName_no_slash: "CHR ''/'' \<notin> set (getBaseNodeName p)"
proof (cases "CHR ''/'' \<in> set p")
  case True
  then obtain a b where "p = a @ CHR ''/'' # b" "CHR ''/'' \<notin> set b" by (rule path_split_last)
  then show ?thesis by simp
next
  case False
  then have "findLastSlash p = None" by (simp add: findLastSlash_None)
  with False show ?thesis by (simp add: getBaseNodeName_def)
qed

text \<open>Appending slash-free characters (a sequence number) keeps the parent.\<close>

lemma parentNodePath_suffix:
  assumes "CHR ''/'' \<notin> set s"
  shows "parentNodePath (p @ s) = parentNodePath p"
proof (cases "CHR ''/'' \<in> set p")
  case True
  then obtain a b where "p = a @ CHR ''/'' # b" "CHR ''/'' \<notin> set b" by (rule path_split_last)
  with assms parentNodePath_append [of "b @ s" a] parentNodePath_append [of b a]
  show ?thesis by simp
next
  case False
  with assms have "CHR ''/'' \<notin> set (p @ s)" by simp
  with False show ?thesis by (metis parentNodePath_None)
qed

subsection \<open>Canonical paths\<close>

lemma canonical_root [simp, intro]: "canonical ''/''"
  by (simp add: canonical_def)

lemma canonical_slash: "canonical p \<Longrightarrow> CHR ''/'' \<in> set p"
  by (cases p) (auto simp: canonical_def)

lemma canonical_not_Nil [simp]: "\<not> canonical []"
  by (simp add: canonical_def)

lemma no_double_slash_appendD:
  "no_double_slash (p @ q) \<Longrightarrow> no_double_slash p \<and> no_double_slash q"
proof (induction p rule: no_double_slash.induct)
  case (2 v)
  then show ?case by (cases q) auto
qed auto

lemma no_double_slash_append_slash:
  "no_double_slash (a @ CHR ''/'' # b) \<Longrightarrow> a \<noteq> [] \<Longrightarrow> last a \<noteq> CHR ''/''"
  by (induction a rule: no_double_slash.induct) auto

lemma no_double_slash_Cons: "CHR ''/'' \<notin> set b \<Longrightarrow> no_double_slash (x # b)"
  by (induction b arbitrary: x) auto

lemma no_double_slash_join:
  "no_double_slash a \<Longrightarrow> last a \<noteq> CHR ''/'' \<Longrightarrow> CHR ''/'' \<notin> set b \<Longrightarrow>
     no_double_slash (a @ CHR ''/'' # b)"
proof (induction a rule: no_double_slash.induct)
qed (simp_all add: no_double_slash_Cons)

lemma canonical_split:
  assumes "canonical p" and "p \<noteq> ''/''"
  obtains a b where "p = a @ CHR ''/'' # b" and "CHR ''/'' \<notin> set b" and "b \<noteq> []"
    and "a = [] \<or> canonical a \<and> a \<noteq> ''/''"
proof -
  from canonical_slash [OF assms(1)] obtain a b
    where p: "p = a @ CHR ''/'' # b" and b: "CHR ''/'' \<notin> set b"
    by (rule path_split_last)
  from assms have hd: "hd p = CHR ''/''" and la: "last p \<noteq> CHR ''/''" and nd: "no_double_slash p"
    by (auto simp: canonical_def)
  from la p have "b \<noteq> []" by auto
  moreover have "a = [] \<or> canonical a \<and> a \<noteq> ''/''"
  proof (cases "a = []")
    case False
    with hd p have "hd a = CHR ''/''" by simp
    moreover from nd p False have "last a \<noteq> CHR ''/''"
      using no_double_slash_append_slash by blast
    moreover from nd p have "no_double_slash a" using no_double_slash_appendD by blast
    ultimately show ?thesis using False by (auto simp: canonical_def)
  qed simp
  ultimately show ?thesis using that p b by blast
qed

lemma canonical_extend:
  assumes "canonical q" and "CHR ''/'' \<notin> set b" and "b \<noteq> []"
  shows "canonical (fs_join q b)"
proof (cases "q = ''/''")
  case True
  from assms(2,3) have "no_double_slash (CHR ''/'' # b)" "last b \<noteq> CHR ''/''"
    by (simp_all add: no_double_slash_Cons, metis last_in_set)
  with True assms(3) show ?thesis by (simp add: canonical_def fs_join_def)
next
  case False
  with assms(1) have q: "q \<noteq> []" "hd q = CHR ''/''" "last q \<noteq> CHR ''/''" "no_double_slash q"
    by (auto simp: canonical_def)
  from assms(2,3) have "last b \<noteq> CHR ''/''" by (metis last_in_set)
  with q assms(2,3) show ?thesis
    by (simp add: canonical_def fs_join_def no_double_slash_join)
qed

lemma canonical_parent_base:
  assumes "canonical p" and "p \<noteq> ''/''"
  shows "\<exists>q. parentNodePath p = Some q \<and> canonical q \<and> length q < length p \<and>
           getBaseNodeName p \<noteq> [] \<and> CHR ''/'' \<notin> set (getBaseNodeName p) \<and>
           fs_join q (getBaseNodeName p) = p"
proof -
  from assms obtain a b where p: "p = a @ CHR ''/'' # b" and b: "CHR ''/'' \<notin> set b" "b \<noteq> []"
    and a: "a = [] \<or> canonical a \<and> a \<noteq> ''/''"
    by (rule canonical_split)
  from b(2) have "length b > 0" by simp
  moreover have "fs_join ''/'' b = CHR ''/'' # b" by (simp add: fs_join_def)
  ultimately show ?thesis using p b a by (cases "a = []") (auto simp: fs_join_def canonical_def)
qed

text \<open>
  C21: For a canonical path other than the root, \<open>parentNodePath\<close> and
  \<open>getBaseNodeName\<close> split it losslessly: the parent is again canonical and strictly
  shorter, the base name is a non-empty component without a slash, and joining the two the
  way the list request does (\<open>std::filesystem::path(parent) / base\<close>) gives the path back.
\<close>

theorem parent_base_join:
  assumes "canonical p" and "p \<noteq> ''/''"
  shows "\<exists>q. parentNodePath p = Some q \<and> canonical q \<and> length q < length p \<and>
           getBaseNodeName p \<noteq> [] \<and> CHR ''/'' \<notin> set (getBaseNodeName p) \<and>
           fs_join q (getBaseNodeName p) = p"
  using assms by (rule canonical_parent_base)

theorem parent_base_join_witness:
  "canonical ''/a/bc'' \<and> ''/a/bc'' \<noteq> ''/'' \<and>
   (\<exists>q. parentNodePath ''/a/bc'' = Some q \<and> canonical q \<and> length q < length ''/a/bc'' \<and>
           getBaseNodeName ''/a/bc'' \<noteq> [] \<and> CHR ''/'' \<notin> set (getBaseNodeName ''/a/bc'') \<and>
           fs_join q (getBaseNodeName ''/a/bc'') = ''/a/bc'')"
proof -
  have h: "canonical ''/a/bc''" and h2: "''/a/bc'' \<noteq> ''/''" by (simp_all add: canonical_def)
  show ?thesis by (intro conjI h h2 parent_base_join [OF h h2])
qed

subsection \<open>Matching a path against the system path\<close>

lemma mismatch_prefix:
  "snd (mismatch xs ys) = [] \<longleftrightarrow> prefix ys xs"
  by (induction xs ys rule: mismatch.induct) auto

lemma mismatch_fst:
  "prefix ys xs \<Longrightarrow> xs = ys @ fst (mismatch xs ys)"
  by (induction xs ys rule: mismatch.induct) auto

text \<open>
  C22: \<open>matchPath(path, match_to)\<close> decides the subtree relation: with one trailing slash
  dropped from each side, it answers \<open>EXACT\<close> when the paths are equal, \<open>IS_CHILD\<close> when the
  path continues \<open>match_to\<close> with a slash, and \<open>NOT_MATCH\<close> otherwise (in particular for a
  longer sibling such as \<open>/keeper2\<close>).
\<close>

theorem matchPath_spec:
  "matchPath p match_to =
     (if remove_slash_suffix p = remove_slash_suffix match_to then EXACT
      else if \<exists>r. remove_slash_suffix p = remove_slash_suffix match_to @ CHR ''/'' # r
      then IS_CHILD else NOT_MATCH)"
proof (cases "prefix (remove_slash_suffix match_to) (remove_slash_suffix p)")
  case True
  define f where "f = fst (mismatch (remove_slash_suffix p) (remove_slash_suffix match_to))"
  from True have "remove_slash_suffix p = remove_slash_suffix match_to @ f"
    unfolding f_def by (rule mismatch_fst)
  moreover from True have "mismatch (remove_slash_suffix p) (remove_slash_suffix match_to) = (f, [])"
    by (simp add: f_def prod_eq_iff mismatch_prefix)
  ultimately show ?thesis by (cases f) (auto simp: matchPath_def)
next
  case False
  then have "snd (mismatch (remove_slash_suffix p) (remove_slash_suffix match_to)) \<noteq> []"
    by (simp add: mismatch_prefix)
  with False show ?thesis
    by (auto simp: matchPath_def split: prod.splits)
qed

end
