(* ===== verification/KeeperTypes.thy ===== *)
theory KeeperTypes
  imports KeeperPaths
begin

text \<open>
  The protocol data of Keeper: access control entries, node statistics, error and operation
  codes, requests and responses (\<open>src/Common/ZooKeeper/IKeeper.h\<close>, \<open>ZooKeeperCommon.h\<close>,
  \<open>ZooKeeperConstants.h\<close>). A class hierarchy of requests is one datatype with a constructor per
  class; the fields every request has (\<open>xid\<close>, \<open>has_watch\<close>,
  \<open>restored_from_zookeeper_log\<close>) wrap it. Timing fields used for logging only are left out.
\<close>

subsection \<open>Access control lists and statistics\<close>

record ACL =
  permissions :: int
  acl_scheme :: string
  acl_ident :: string

definition ACL_Read :: int where "ACL_Read = 1"
definition ACL_Write :: int where "ACL_Write = 2"
definition ACL_Create :: int where "ACL_Create = 4"
definition ACL_Delete :: int where "ACL_Delete = 8"
definition ACL_Admin :: int where "ACL_Admin = 16"

type_synonym ACLs = "ACL list"

record AuthID =
  auth_scheme :: string
  auth_ident :: string

record Stat =
  st_czxid :: int
  st_mzxid :: int
  st_ctime :: int
  st_mtime :: int
  st_version :: int
  st_cversion :: int
  st_aversion :: int
  st_ephemeralOwner :: int
  st_dataLength :: int
  st_numChildren :: int
  st_pzxid :: int

text \<open>The default-constructed \<open>Stat\<close>.\<close>

definition Stat_default :: Stat where
  "Stat_default = \<lparr>st_czxid = 0, st_mzxid = 0, st_ctime = 0, st_mtime = 0, st_version = 0,
     st_cversion = 0, st_aversion = 0, st_ephemeralOwner = 0, st_dataLength = 0,
     st_numChildren = 0, st_pzxid = 0\<rparr>"

subsection \<open>Error codes, operation codes, events\<close>

datatype Error =
    ZOK | ZSYSTEMERROR | ZRUNTIMEINCONSISTENCY | ZDATAINCONSISTENCY | ZCONNECTIONLOSS
  | ZMARSHALLINGERROR | ZUNIMPLEMENTED | ZOPERATIONTIMEOUT | ZBADARGUMENTS | ZINVALIDSTATE
  | ZAPIERROR | ZNONODE | ZNOAUTH | ZBADVERSION | ZNOCHILDRENFOREPHEMERALS | ZNODEEXISTS
  | ZNOTEMPTY | ZSESSIONEXPIRED | ZINVALIDCALLBACK | ZINVALIDACL | ZAUTHFAILED | ZCLOSING
  | ZNOTHING | ZSESSIONMOVED | ZNOTREADONLY

datatype OpNum =
    OpClose | OpError | OpCreate | OpRemove | OpExists | OpGet | OpSet | OpGetACL | OpSetACL
  | OpSimpleList | OpSync | OpHeartbeat | OpList | OpCheck | OpMulti | OpReconfig | OpMultiRead
  | OpAuth | OpFilteredList | OpCheckNotExists | OpCreateIfNotExists | OpSessionID

datatype Event = CREATED | DELETED | CHANGED | CHILD | SESSION | NOTWATCHING

datatype ListRequestType = LIST_ALL | PERSISTENT_ONLY | EPHEMERAL_ONLY

datatype OperationType = ReadOp | WriteOp

text \<open>The session state sent with a watch notification (\<open>Coordination::State::CONNECTED\<close>).\<close>

definition State_CONNECTED :: int where "State_CONNECTED = 3"

definition WATCH_XID :: int where "WATCH_XID = - 1"
definition PING_XID :: int where "PING_XID = - 2"
definition AUTH_XID :: int where "AUTH_XID = - 4"
definition CLOSE_XID :: int where "CLOSE_XID = 2147483647"

subsection \<open>Requests\<close>

record CreateRequestData =
  cr_path :: path
  cr_data :: string
  cr_is_ephemeral :: bool
  cr_is_sequential :: bool
  cr_acls :: ACLs
  cr_not_exists :: bool
  cr_parent_cversion :: int

record CheckRequestData =
  ck_path :: path
  ck_version :: int
  ck_not_exists :: bool

text \<open>
  The class of a request with its fields; \<open>'r\<close> is the type of the sub-requests of a multi request.
\<close>

datatype 'r request_class =
    HeartbeatRequest
  | SyncRequest path
  | AuthRequest int string string
  | CloseRequest
  | CreateRequest CreateRequestData
  | RemoveRequest path int
  | ExistsRequest path
  | GetRequest path
  | SetRequest path string int
  | ListRequest path
  | SimpleListRequest path
  | FilteredListRequest path ListRequestType
  | CheckRequest CheckRequestData
  | SetACLRequest path ACLs int
  | GetACLRequest path
  | MultiRequest "OperationType option" "'r list"
  | ReconfigRequest string string string int
  | SessionIDRequest int int int

datatype ZooKeeperRequest =
    ZooKeeperRequest (xid: int) (has_watch: bool) (restored_from_zookeeper_log: bool)
      (body: "ZooKeeperRequest request_class")

type_synonym RequestBody = "ZooKeeperRequest request_class"

fun getPath_body :: "RequestBody \<Rightarrow> path" where
  "getPath_body (SyncRequest p) = p"
| "getPath_body (CreateRequest c) = cr_path c"
| "getPath_body (RemoveRequest p v) = p"
| "getPath_body (ExistsRequest p) = p"
| "getPath_body (GetRequest p) = p"
| "getPath_body (SetRequest p d v) = p"
| "getPath_body (ListRequest p) = p"
| "getPath_body (SimpleListRequest p) = p"
| "getPath_body (FilteredListRequest p t) = p"
| "getPath_body (CheckRequest c) = ck_path c"
| "getPath_body (SetACLRequest p a v) = p"
| "getPath_body (GetACLRequest p) = p"
| "getPath_body (ReconfigRequest j l n v) = keeper_config_path"
| "getPath_body _ = []"

definition getPath :: "ZooKeeperRequest \<Rightarrow> path" where
  "getPath r = getPath_body (body r)"

fun getOpNum_body :: "RequestBody \<Rightarrow> OpNum" where
  "getOpNum_body HeartbeatRequest = OpHeartbeat"
| "getOpNum_body (SyncRequest p) = OpSync"
| "getOpNum_body (AuthRequest t s d) = OpAuth"
| "getOpNum_body CloseRequest = OpClose"
| "getOpNum_body (CreateRequest c) = (if cr_not_exists c then OpCreateIfNotExists else OpCreate)"
| "getOpNum_body (RemoveRequest p v) = OpRemove"
| "getOpNum_body (ExistsRequest p) = OpExists"
| "getOpNum_body (GetRequest p) = OpGet"
| "getOpNum_body (SetRequest p d v) = OpSet"
| "getOpNum_body (ListRequest p) = OpList"
| "getOpNum_body (SimpleListRequest p) = OpSimpleList"
| "getOpNum_body (FilteredListRequest p t) = OpFilteredList"
| "getOpNum_body (CheckRequest c) = (if ck_not_exists c then OpCheckNotExists else OpCheck)"
| "getOpNum_body (SetACLRequest p a v) = OpSetACL"
| "getOpNum_body (GetACLRequest p) = OpGetACL"
| "getOpNum_body (MultiRequest t rs) =
     (if t = None \<or> t = Some WriteOp then OpMulti else OpMultiRead)"
| "getOpNum_body (ReconfigRequest j l n v) = OpReconfig"
| "getOpNum_body (SessionIDRequest i t s) = OpSessionID"

definition getOpNum :: "ZooKeeperRequest \<Rightarrow> OpNum" where
  "getOpNum r = getOpNum_body (body r)"

definition isReadRequest :: "ZooKeeperRequest \<Rightarrow> bool" where
  "isReadRequest r =
     (case body r of
        ExistsRequest p \<Rightarrow> True
      | GetRequest p \<Rightarrow> True
      | ListRequest p \<Rightarrow> True
      | SimpleListRequest p \<Rightarrow> True
      | FilteredListRequest p t \<Rightarrow> True
      | CheckRequest c \<Rightarrow> True
      | GetACLRequest p \<Rightarrow> True
      | MultiRequest t rs \<Rightarrow> getOpNum r = OpMultiRead
      | _ \<Rightarrow> False)"

subsection \<open>Responses\<close>

datatype 'r response_class =
    HeartbeatResponse
  | SyncResponse path
  | AuthResponse
  | CloseResponse
  | CreateResponse path
  | CreateIfNotExistsResponse path
  | RemoveResponse
  | ExistsResponse Stat
  | GetResponse string Stat
  | SetResponse Stat
  | ListResponse "string list" Stat
  | SimpleListResponse "string list" Stat
  | CheckResponse
  | CheckNotExistsResponse
  | SetACLResponse Stat
  | GetACLResponse ACLs Stat
  | MultiWriteResponse "'r list"
  | MultiReadResponse "'r list"
  | ReconfigResponse string Stat
  | ErrorResponse
  | WatchResponse Event int path
  | SessionIDResponse int int int

datatype ZooKeeperResponse =
    ZooKeeperResponse (resp_error: Error) (resp_zxid: int) (resp_xid: int)
      (resp_body: "ZooKeeperResponse response_class")

type_synonym ResponseBody = "ZooKeeperResponse response_class"

text \<open>
  \<open>makeResponse\<close>: the default-constructed response of the request's class, with
  \<open>error = ZOK\<close>, \<open>zxid = 0\<close> and \<open>xid = 0\<close>.
\<close>

definition fresh_response :: "ResponseBody \<Rightarrow> ZooKeeperResponse" where
  "fresh_response b = ZooKeeperResponse ZOK 0 0 b"

fun makeResponse_body :: "ZooKeeperResponse request_class \<Rightarrow> ResponseBody" where
  "makeResponse_body HeartbeatRequest = HeartbeatResponse"
| "makeResponse_body (SyncRequest p) = SyncResponse []"
| "makeResponse_body (AuthRequest t s d) = AuthResponse"
| "makeResponse_body CloseRequest = CloseResponse"
| "makeResponse_body (CreateRequest c) =
     (if cr_not_exists c then CreateIfNotExistsResponse [] else CreateResponse [])"
| "makeResponse_body (RemoveRequest p v) = RemoveResponse"
| "makeResponse_body (ExistsRequest p) = ExistsResponse Stat_default"
| "makeResponse_body (GetRequest p) = GetResponse [] Stat_default"
| "makeResponse_body (SetRequest p d v) = SetResponse Stat_default"
| "makeResponse_body (ListRequest p) = ListResponse [] Stat_default"
| "makeResponse_body (SimpleListRequest p) = SimpleListResponse [] Stat_default"
| "makeResponse_body (FilteredListRequest p t) = ListResponse [] Stat_default"
| "makeResponse_body (CheckRequest c) =
     (if ck_not_exists c then CheckNotExistsResponse else CheckResponse)"
| "makeResponse_body (SetACLRequest p a v) = SetACLResponse Stat_default"
| "makeResponse_body (GetACLRequest p) = GetACLResponse [] Stat_default"
| "makeResponse_body (MultiRequest t rs) =
     (if t = None \<or> t = Some WriteOp then MultiWriteResponse rs else MultiReadResponse rs)"
| "makeResponse_body (ReconfigRequest j l n v) = ReconfigResponse [] Stat_default"
| "makeResponse_body (SessionIDRequest i t s) = SessionIDResponse 0 0 0"

primrec makeResponse :: "ZooKeeperRequest \<Rightarrow> ZooKeeperResponse" where
  "makeResponse (ZooKeeperRequest x w z b) =
     fresh_response (makeResponse_body (map_request_class makeResponse b))"

definition with_error :: "Error \<Rightarrow> ZooKeeperResponse \<Rightarrow> ZooKeeperResponse" where
  "with_error e r = ZooKeeperResponse e (resp_zxid r) (resp_xid r) (resp_body r)"

definition with_body :: "ResponseBody \<Rightarrow> ZooKeeperResponse \<Rightarrow> ZooKeeperResponse" where
  "with_body b r = ZooKeeperResponse (resp_error r) (resp_zxid r) (resp_xid r) b"

definition with_ids :: "int \<Rightarrow> int \<Rightarrow> ZooKeeperResponse \<Rightarrow> ZooKeeperResponse" where
  "with_ids x z r = ZooKeeperResponse (resp_error r) z x (resp_body r)"

lemma response_setters [simp]:
  "resp_error (with_error e r) = e" "resp_body (with_error e r) = resp_body r"
  "resp_error (with_body b r) = resp_error r" "resp_body (with_body b r) = b"
  "resp_error (with_ids x z r) = resp_error r" "resp_body (with_ids x z r) = resp_body r"
  "resp_xid (with_ids x z r) = x" "resp_zxid (with_ids x z r) = z"
  by (simp_all add: with_error_def with_body_def with_ids_def)

lemma resp_error_makeResponse [simp]: "resp_error (makeResponse r) = ZOK"
  by (cases r) (simp add: fresh_response_def)

lemma resp_body_makeResponse:
  "resp_body (makeResponse r) = makeResponse_body (map_request_class makeResponse (body r))"
  by (cases r) (simp add: fresh_response_def)

record ResponseForSession =
  rs_session_id :: session
  rs_response :: ZooKeeperResponse

end
