(* ===== verification/KeeperNode.thy ===== *)
theory KeeperNode
  imports KeeperTypes SipHash
begin

text \<open>
  \<open>KeeperStorage::Node\<close> (\<open>src/Coordination/KeeperStorage.h\<close>, \<open>KeeperStorage.cpp\<close>): the fields of a
  node, its statistics, its digest, and the closures \<open>update_fn\<close> of the requests.

  The union of \<open>ephemeral_owner\<close> with \<open>seq_num\<close> and \<open>num_children\<close> is three fields; the code reads
  the first only when the node is ephemeral and the others only when it is not, and
  \<open>setEphemeralOwner\<close>, the only writer of the owner, also clears the bits of the other two. The
  buffer \<open>data\<close> with its \<open>data_size\<close> is the string of \<open>getData\<close>. The memo \<open>cached_digest\<close> is an
  extension of the record: everything below but \<open>getDigest\<close> is independent of it.
\<close>

record Node =
  n_czxid :: int
  n_mzxid :: int
  n_pzxid :: int
  n_acl_id :: u64
  n_mtime :: int
  n_data :: string
  n_version :: int
  n_cversion :: int
  n_aversion :: int
  n_is_ephemeral :: bool
  n_ctime :: int
  n_ephemeral_owner :: int
  n_seq_num :: int
  n_num_children :: int
  n_children :: "string list"

definition Node_default :: Node where
  "Node_default = \<lparr>n_czxid = 0, n_mzxid = 0, n_pzxid = 0, n_acl_id = 0, n_mtime = 0, n_data = [],
     n_version = 0, n_cversion = 0, n_aversion = 0, n_is_ephemeral = False, n_ctime = 0,
     n_ephemeral_owner = 0, n_seq_num = 0, n_num_children = 0, n_children = []\<rparr>"

subsection \<open>Accessors and setters\<close>

definition isEphemeral :: "'a Node_scheme \<Rightarrow> bool" where
  "isEphemeral n = n_is_ephemeral n"

definition ephemeralOwner :: "'a Node_scheme \<Rightarrow> int" where
  "ephemeralOwner n = (if isEphemeral n then n_ephemeral_owner n else 0)"

definition setEphemeralOwner :: "int \<Rightarrow> 'a Node_scheme \<Rightarrow> 'a Node_scheme" where
  "setEphemeralOwner ow n =
     n\<lparr>n_is_ephemeral := (ow \<noteq> 0), n_ephemeral_owner := ow, n_seq_num := 0, n_num_children := 0\<rparr>"

definition numChildren :: "'a Node_scheme \<Rightarrow> int" where
  "numChildren n = (if isEphemeral n then 0 else n_num_children n)"

definition setNumChildren :: "int \<Rightarrow> 'a Node_scheme \<Rightarrow> 'a Node_scheme" where
  "setNumChildren k n = n\<lparr>n_num_children := k\<rparr>"

definition increaseNumChildren :: "'a Node_scheme \<Rightarrow> 'a Node_scheme" where
  "increaseNumChildren n = n\<lparr>n_num_children := n_num_children n + 1\<rparr>"

definition decreaseNumChildren :: "'a Node_scheme \<Rightarrow> 'a Node_scheme" where
  "decreaseNumChildren n = n\<lparr>n_num_children := n_num_children n - 1\<rparr>"

definition seqNum :: "'a Node_scheme \<Rightarrow> int" where
  "seqNum n = (if isEphemeral n then 0 else n_seq_num n)"

definition setSeqNum :: "int \<Rightarrow> 'a Node_scheme \<Rightarrow> 'a Node_scheme" where
  "setSeqNum k n = n\<lparr>n_seq_num := k\<rparr>"

definition increaseSeqNum :: "'a Node_scheme \<Rightarrow> 'a Node_scheme" where
  "increaseSeqNum n = n\<lparr>n_seq_num := n_seq_num n + 1\<rparr>"

definition node_empty :: "'a Node_scheme \<Rightarrow> bool" where
  "node_empty n \<longleftrightarrow> n_data n = [] \<and> n_mzxid n = 0"

definition copyStats :: "Stat \<Rightarrow> 'a Node_scheme \<Rightarrow> 'a Node_scheme" where
  "copyStats stat n =
     (let n = n\<lparr>n_czxid := st_czxid stat, n_mzxid := st_mzxid stat, n_pzxid := st_pzxid stat,
                n_mtime := st_mtime stat, n_ctime := st_ctime stat, n_version := st_version stat,
                n_cversion := st_cversion stat, n_aversion := st_aversion stat\<rparr>
      in if st_ephemeralOwner stat = 0
         then setNumChildren (st_numChildren stat) (n\<lparr>n_is_ephemeral := False\<rparr>)
         else setEphemeralOwner (st_ephemeralOwner stat) n)"

definition setResponseStat :: "'a Node_scheme \<Rightarrow> Stat" where
  "setResponseStat n =
     \<lparr>st_czxid = n_czxid n, st_mzxid = n_mzxid n, st_ctime = n_ctime n, st_mtime = n_mtime n,
      st_version = n_version n, st_cversion = n_cversion n, st_aversion = n_aversion n,
      st_ephemeralOwner = ephemeralOwner n, st_dataLength = sint (of_nat (length (n_data n)) :: 32 word),
      st_numChildren = numChildren n, st_pzxid = n_pzxid n\<rparr>"

text \<open>\<open>data_size\<close> is 32 bits wide: longer data is cut to the remainder of its length.\<close>

definition setData :: "string \<Rightarrow> 'a Node_scheme \<Rightarrow> 'a Node_scheme" where
  "setData new_data n = n\<lparr>n_data := take (length new_data mod 2 ^ 32) new_data\<rparr>"

lemma setData_code [code]:
  "setData new_data n = n\<lparr>n_data := take (nat (int (length new_data) mod 4294967296)) new_data\<rparr>"
  by (simp add: setData_def nat_mod_as_int)

definition addChild :: "string \<Rightarrow> 'a Node_scheme \<Rightarrow> 'a Node_scheme" where
  "addChild child n = n\<lparr>n_children := hs_insert child (n_children n)\<rparr>"

definition removeChild :: "string \<Rightarrow> 'a Node_scheme \<Rightarrow> 'a Node_scheme" where
  "removeChild child n = n\<lparr>n_children := hs_erase child (n_children n)\<rparr>"

text \<open>\<open>shallowCopy\<close> into a fresh node: everything but the children.\<close>

definition shallowCopy :: "Node \<Rightarrow> Node" where
  "shallowCopy other = other\<lparr>n_children := []\<rparr>"

text \<open>\<open>sizeInBytes\<close>, with \<open>sizeof(Node)\<close> and \<open>sizeof(StringRef)\<close> as arguments.\<close>

definition sizeInBytes :: "u64 \<Rightarrow> u64 \<Rightarrow> 'a Node_scheme \<Rightarrow> u64" where
  "sizeInBytes node_size ref_size n =
     node_size + of_nat (length (n_children n)) * ref_size + of_nat (length (n_data n))"

subsection \<open>Digest\<close>

definition calculateDigest :: "path \<Rightarrow> 'a Node_scheme \<Rightarrow> u64" where
  "calculateDigest p n =
     (let h = update_string (SipHash_init 0 0 False) p;
          h = (if n_data n \<noteq> [] then update_string h (n_data n) else h);
          h = update_int64 h (n_czxid n);
          h = update_int64 h (n_mzxid n);
          h = update_int64 h (n_ctime n);
          h = update_int64 h (n_mtime n);
          h = update_int32 h (n_version n);
          h = update_int32 h (n_cversion n);
          h = update_int32 h (n_aversion n);
          h = update_int64 h (ephemeralOwner n);
          h = update_int32 h (numChildren n);
          h = update_int64 h (n_pzxid n);
          digest = get64 h
      in if digest = 0 then 1 else digest)"

record CachedNode = Node +
  n_cached_digest :: u64

definition invalidateDigestCache :: "CachedNode \<Rightarrow> CachedNode" where
  "invalidateDigestCache n = n\<lparr>n_cached_digest := 0\<rparr>"

definition getDigest :: "path \<Rightarrow> CachedNode \<Rightarrow> CachedNode \<times> u64" where
  "getDigest p n =
     (let n = (if n_cached_digest n = 0 then n\<lparr>n_cached_digest := calculateDigest p n\<rparr> else n)
      in (n, n_cached_digest n))"

subsection \<open>Update functions\<close>

text \<open>
  The closures stored in \<open>UpdateNodeDelta\<close>, one constructor per lambda of the source:
  the parent update of a creation, of a removal from a ZooKeeper log, and of a removal; the update
  of a node by a set request and of its parent; and the increment of \<open>aversion\<close>.
\<close>

datatype UpdateFn =
    ParentOfCreate int zxid
  | ParentPzxid zxid
  | ParentOfRemove
  | SetNode zxid string int
  | ParentOfSet
  | IncAversion

fun update_fn :: "UpdateFn \<Rightarrow> 'a Node_scheme \<Rightarrow> 'a Node_scheme" where
  "update_fn (ParentOfCreate parent_cversion z) n =
     (let n = increaseSeqNum n;
          n = (if parent_cversion = - 1 then n\<lparr>n_cversion := n_cversion n + 1\<rparr>
               else if parent_cversion > n_cversion n then n\<lparr>n_cversion := parent_cversion\<rparr>
               else n);
          n = (if z > n_pzxid n then n\<lparr>n_pzxid := z\<rparr> else n)
      in increaseNumChildren n)"
| "update_fn (ParentPzxid z) n = (if n_pzxid n < z then n\<lparr>n_pzxid := z\<rparr> else n)"
| "update_fn ParentOfRemove n = decreaseNumChildren (n\<lparr>n_cversion := n_cversion n + 1\<rparr>)"
| "update_fn (SetNode z new_data time) n =
     setData new_data (n\<lparr>n_version := n_version n + 1, n_mzxid := z, n_mtime := time\<rparr>)"
| "update_fn ParentOfSet n = n\<lparr>n_cversion := n_cversion n + 1\<rparr>"
| "update_fn IncAversion n = n\<lparr>n_aversion := n_aversion n + 1\<rparr>"

subsection \<open>What updates leave alone\<close>

lemma update_fn_frame [simp]:
  "n_acl_id (update_fn f n) = n_acl_id n"
  "n_children (update_fn f n) = n_children n"
  "n_is_ephemeral (update_fn f n) = n_is_ephemeral n"
  "n_ephemeral_owner (update_fn f n) = n_ephemeral_owner n"
  "n_ctime (update_fn f n) = n_ctime n"
  "n_czxid (update_fn f n) = n_czxid n"
  by (cases f; simp add: Let_def increaseSeqNum_def increaseNumChildren_def
      decreaseNumChildren_def setData_def)+

lemma isEphemeral_update_fn [simp]: "isEphemeral (update_fn f n) = isEphemeral n"
  by (simp add: isEphemeral_def)

lemma ephemeralOwner_update_fn [simp]: "ephemeralOwner (update_fn f n) = ephemeralOwner n"
  by (simp add: ephemeralOwner_def)

lemma n_version_update_fn:
  "n_version (update_fn f n) = n_version n + (case f of SetNode _ _ _ \<Rightarrow> 1 | _ \<Rightarrow> 0)"
  by (cases f) (simp_all add: Let_def increaseSeqNum_def increaseNumChildren_def
      decreaseNumChildren_def setData_def)

text \<open>How an update changes the child counter.\<close>

definition children_delta :: "UpdateFn \<Rightarrow> int" where
  "children_delta f = (case f of ParentOfCreate _ _ \<Rightarrow> 1 | ParentOfRemove \<Rightarrow> - 1 | _ \<Rightarrow> 0)"

lemma numChildren_update_fn:
  "\<not> isEphemeral n \<Longrightarrow> numChildren (update_fn f n) = numChildren n + children_delta f"
  by (cases f) (simp_all add: numChildren_def children_delta_def isEphemeral_def Let_def
      increaseSeqNum_def increaseNumChildren_def decreaseNumChildren_def setData_def)

text \<open>
  The part of a node that the uncommitted state carries: it keeps neither the children nor the
  interned ACL.
\<close>

definition core :: "Node \<Rightarrow> Node" where
  "core n = n\<lparr>n_acl_id := 0, n_children := []\<rparr>"

lemma core_simps [simp]:
  "core (core n) = core n"
  "core (n\<lparr>n_acl_id := a\<rparr>) = core n"
  "core (n\<lparr>n_children := cs\<rparr>) = core n"
  "core (addChild c n) = core n"
  "core (removeChild c n) = core n"
  "core (shallowCopy n) = core n"
  "n_version (core n) = n_version n"
  "n_aversion (core n) = n_aversion n"
  "isEphemeral (core n) = isEphemeral n"
  "ephemeralOwner (core n) = ephemeralOwner n"
  "numChildren (core n) = numChildren n"
  "seqNum (core n) = seqNum n"
  by (simp_all add: core_def addChild_def removeChild_def shallowCopy_def isEphemeral_def
      ephemeralOwner_def numChildren_def seqNum_def)

lemma core_fields:
  "n_czxid (core n) = n_czxid n" "n_mzxid (core n) = n_mzxid n" "n_pzxid (core n) = n_pzxid n"
  "n_mtime (core n) = n_mtime n" "n_ctime (core n) = n_ctime n" "n_data (core n) = n_data n"
  "n_cversion (core n) = n_cversion n"
  by (simp_all add: core_def)

lemma core_update_fn: "core (update_fn f n) = update_fn f (core n)"
  by (cases f) (simp_all add: core_def Let_def increaseSeqNum_def increaseNumChildren_def
      decreaseNumChildren_def setData_def)

lemma core_eq_accessors:
  assumes "core a = core b"
  shows "n_version a = n_version b" "n_aversion a = n_aversion b"
    "isEphemeral a = isEphemeral b" "ephemeralOwner a = ephemeralOwner b"
    "numChildren a = numChildren b" "seqNum a = seqNum b" "n_data a = n_data b"
proof -
  have "n_data (core n) = n_data n" for n by (simp add: core_def)
  with assms show "n_data a = n_data b" by metis
qed (metis assms core_simps)+

lemma setResponseStat_core: "setResponseStat (core n) = setResponseStat n"
  by (simp add: setResponseStat_def core_def ephemeralOwner_def numChildren_def isEphemeral_def)

lemma calculateDigest_core: "calculateDigest p (core n) = calculateDigest p n"
  by (simp only: calculateDigest_def core_simps core_fields cong: if_cong)

lemma calculateDigest_core_eq:
  "core a = core b \<Longrightarrow> calculateDigest p a = calculateDigest p b"
  by (metis calculateDigest_core)

lemma calculateDigest_nonzero: "calculateDigest p n \<noteq> 0"
  by (simp add: calculateDigest_def Let_def)

subsection \<open>The digest memo\<close>

text \<open>
  What the storage does to a node that it keeps at the path \<open>p\<close>: read the digest
  (\<open>removeDigest\<close>), run an update and re-read the digest (the commit of \<open>UpdateNodeDelta\<close>:
  \<open>removeDigest\<close>, \<open>updateValue\<close>, \<open>addDigest\<close>), invalidate and update (\<open>applyDelta\<close>), change the
  children, or change the ACL.
\<close>

datatype node_op = ReadDigest | CommitUpdate UpdateFn | ApplyUpdate UpdateFn
  | AddChild string | RemoveChild string | SetAclId u64

fun node_step :: "path \<Rightarrow> CachedNode \<Rightarrow> node_op \<Rightarrow> CachedNode" where
  "node_step p n ReadDigest = fst (getDigest p n)"
| "node_step p n (CommitUpdate f) =
     fst (getDigest p (invalidateDigestCache (update_fn f (fst (getDigest p n)))))"
| "node_step p n (ApplyUpdate f) = update_fn f (invalidateDigestCache n)"
| "node_step p n (AddChild c) = addChild c n"
| "node_step p n (RemoveChild c) = removeChild c n"
| "node_step p n (SetAclId a) = n\<lparr>n_acl_id := a\<rparr>"

definition memo_ok :: "path \<Rightarrow> CachedNode \<Rightarrow> bool" where
  "memo_ok p n \<longleftrightarrow> n_cached_digest n = 0 \<or> n_cached_digest n = calculateDigest p n"

lemma cached_update_fn [simp]: "n_cached_digest (update_fn f n) = n_cached_digest n"
  by (cases f) (simp_all add: Let_def increaseSeqNum_def increaseNumChildren_def
      decreaseNumChildren_def setData_def)

lemma node_upd_accessors:
  "ephemeralOwner (n\<lparr>n_cached_digest := d\<rparr>) = ephemeralOwner n"
  "numChildren (n\<lparr>n_cached_digest := d\<rparr>) = numChildren n"
  "ephemeralOwner (m\<lparr>n_acl_id := a\<rparr>) = ephemeralOwner m"
  "numChildren (m\<lparr>n_acl_id := a\<rparr>) = numChildren m"
  "ephemeralOwner (m\<lparr>n_children := cs\<rparr>) = ephemeralOwner m"
  "numChildren (m\<lparr>n_children := cs\<rparr>) = numChildren m"
  by (simp_all add: ephemeralOwner_def numChildren_def isEphemeral_def)

lemma calculateDigest_upd [simp]:
  "calculateDigest p (n\<lparr>n_cached_digest := d\<rparr>) = calculateDigest p n"
  "calculateDigest p (m\<lparr>n_acl_id := a\<rparr>) = calculateDigest p m"
  "calculateDigest p (m\<lparr>n_children := cs\<rparr>) = calculateDigest p m"
  by (simp_all add: calculateDigest_def node_upd_accessors cong: if_cong)

lemma memo_ok_getDigest:
  "memo_ok p n \<Longrightarrow> memo_ok p (fst (getDigest p n)) \<and> snd (getDigest p n) = calculateDigest p n"
  by (auto simp: memo_ok_def getDigest_def Let_def)

lemma memo_ok_step: "memo_ok p n \<Longrightarrow> memo_ok p (node_step p n op)"
proof (cases op)
  case (CommitUpdate f)
  have "memo_ok p (invalidateDigestCache m)" for m
    by (simp add: memo_ok_def invalidateDigestCache_def)
  then show ?thesis using CommitUpdate memo_ok_getDigest by simp
qed (simp_all add: memo_ok_getDigest,
     simp_all add: memo_ok_def invalidateDigestCache_def addChild_def removeChild_def)


end
