(* ===== verification/AclTable.thy ===== *)
theory AclTable
  imports KeeperTypes
begin

text \<open>
  \<open>ACLMap\<close> (\<open>src/Coordination/ACLMap.h\<close>, \<open>ACLMap.cpp\<close>): access control lists are
  interned as 64-bit numbers, with a usage counter that frees an entry when the last node
  that refers to it goes away. Number 0 stands for the empty list and is never stored.
\<close>

record ACLMap =
  acl_to_num :: "ACLs \<rightharpoonup> u64"
  num_to_acl :: "u64 \<rightharpoonup> ACLs"
  usage_counter :: "u64 \<rightharpoonup> u64"
  max_acl_id :: u64

definition ACLMap_init :: ACLMap where
  "ACLMap_init = \<lparr>acl_to_num = Map.empty, num_to_acl = Map.empty, usage_counter = Map.empty,
     max_acl_id = 1\<rparr>"

text \<open>The key equality of the map: field by field, after the sizes.\<close>

fun ACLsComparator :: "ACLs \<Rightarrow> ACLs \<Rightarrow> bool" where
  "ACLsComparator [] [] \<longleftrightarrow> True"
| "ACLsComparator (l # ls) (r # rs) \<longleftrightarrow>
     (if permissions l \<noteq> permissions r then False
      else if acl_scheme l \<noteq> acl_scheme r then False
      else if acl_ident l \<noteq> acl_ident r then False
      else ACLsComparator ls rs)"
| "ACLsComparator _ _ \<longleftrightarrow> False"

definition convertACLs :: "ACLMap \<Rightarrow> ACLs \<Rightarrow> ACLMap \<times> u64" where
  "convertACLs m acls =
     (if acls = [] then (m, 0)
      else case acl_to_num m acls of
        Some n \<Rightarrow> (m, n)
      | None \<Rightarrow>
          let index = max_acl_id m
          in (m\<lparr>acl_to_num := (acl_to_num m)(acls \<mapsto> index),
                num_to_acl := (num_to_acl m)(index \<mapsto> acls),
                max_acl_id := max_acl_id m + 1\<rparr>, index))"

definition convertNumber :: "ACLMap \<Rightarrow> u64 \<Rightarrow> ACLs result" where
  "convertNumber m n =
     (if n = 0 then Inr []
      else case num_to_acl m n of None \<Rightarrow> Inl Logical_error | Some acls \<Rightarrow> Inr acls)"

definition addMapping :: "ACLMap \<Rightarrow> u64 \<Rightarrow> ACLs \<Rightarrow> ACLMap" where
  "addMapping m n acls =
     m\<lparr>num_to_acl := (num_to_acl m)(n \<mapsto> acls),
       acl_to_num := (acl_to_num m)(acls \<mapsto> n),
       max_acl_id := max (n + 1) (max_acl_id m)\<rparr>"

definition addUsage :: "ACLMap \<Rightarrow> u64 \<Rightarrow> ACLMap" where
  "addUsage m n =
     m\<lparr>usage_counter := (usage_counter m)(n \<mapsto>
         (case usage_counter m n of None \<Rightarrow> 0 | Some c \<Rightarrow> c) + 1)\<rparr>"

definition removeUsage :: "ACLMap \<Rightarrow> u64 \<Rightarrow> ACLMap" where
  "removeUsage m n =
     (case usage_counter m n of
        None \<Rightarrow> m
      | Some c \<Rightarrow>
          if c - 1 = 0 then
            let acls = (case num_to_acl m n of None \<Rightarrow> [] | Some a \<Rightarrow> a)
            in m\<lparr>num_to_acl := (num_to_acl m)(n := None),
                 acl_to_num := (acl_to_num m)(acls := None),
                 usage_counter := (usage_counter m)(n := None)\<rparr>
          else m\<lparr>usage_counter := (usage_counter m)(n \<mapsto> c - 1)\<rparr>)"

subsection \<open>Invariant\<close>

text \<open>
  The two maps are inverse to each other, ids are between 1 and \<open>max_acl_id - 1\<close>, and the
  empty list has no entry.
\<close>

definition acl_inv :: "ACLMap \<Rightarrow> bool" where
  "acl_inv m \<longleftrightarrow>
     (\<forall>acls n. acl_to_num m acls = Some n \<longleftrightarrow> num_to_acl m n = Some acls) \<and>
     (\<forall>n acls. num_to_acl m n = Some acls \<longrightarrow> n \<noteq> 0 \<and> n < max_acl_id m \<and> acls \<noteq> []) \<and>
     0 < max_acl_id m"

text \<open>
  The counters count: \<open>f n\<close> users hold the id \<open>n\<close>, and exactly the ids in use are known.
\<close>

definition acl_counts :: "ACLMap \<Rightarrow> (u64 \<Rightarrow> nat) \<Rightarrow> bool" where
  "acl_counts m f \<longleftrightarrow>
     (\<forall>n. n \<noteq> 0 \<longrightarrow>
        (num_to_acl m n \<noteq> None \<longleftrightarrow> 0 < f n) \<and>
        (if f n = 0 then usage_counter m n = None
         else \<exists>c. usage_counter m n = Some c \<and> unat c = f n))"

lemma ACLsComparator_eq: "ACLsComparator ls rs \<longleftrightarrow> ls = rs"
  by (induction ls rs rule: ACLsComparator.induct) (auto simp: ACL.equality)

lemma acl_inv_init: "acl_inv ACLMap_init"
  by (simp add: acl_inv_def ACLMap_init_def)

lemma acl_inv_fresh: "acl_inv m \<Longrightarrow> num_to_acl m (max_acl_id m) = None"
  by (auto simp: acl_inv_def) (metis not_None_eq order.irrefl)

lemma convertACLs_cases:
  assumes "convertACLs m acls = (m', n)"
  obtains (empty) "acls = []" "m' = m" "n = 0"
  | (known) "acls \<noteq> []" "m' = m" "acl_to_num m acls = Some n"
  | (fresh) "acls \<noteq> []" "acl_to_num m acls = None" "n = max_acl_id m"
      "m' = m\<lparr>acl_to_num := (acl_to_num m)(acls \<mapsto> n), num_to_acl := (num_to_acl m)(n \<mapsto> acls),
              max_acl_id := max_acl_id m + 1\<rparr>"
  using assms by (auto simp: convertACLs_def Let_def split: if_splits option.splits)

lemma word_le_less_add_one: "x \<le> y \<Longrightarrow> y + 1 \<noteq> 0 \<Longrightarrow> x < y + (1 :: u64)"
  by (simp add: word_less_nat_alt word_le_nat_alt unatSuc add.commute)

lemma convertACLs_inv:
  assumes "acl_inv m" and "convertACLs m acls = (m', n)" and "max_acl_id m + 1 \<noteq> 0"
  shows "acl_inv m'"
  using assms(2)
proof (cases rule: convertACLs_cases)
  case fresh
  have "num_to_acl m (max_acl_id m) = None" using assms(1) by (rule acl_inv_fresh)
  moreover have "max_acl_id m < max_acl_id m + 1"
    using assms(3) by (simp add: word_le_less_add_one)
  moreover have "\<And>k. k < max_acl_id m \<Longrightarrow> k < max_acl_id m + 1"
    using assms(3) by (simp add: word_le_less_add_one)
  moreover have "\<And>k. num_to_acl m k \<noteq> Some acls"
    using assms(1) fresh(2) by (metis acl_inv_def option.distinct(1))
  ultimately show ?thesis using assms(1) fresh unfolding acl_inv_def
    by (auto simp: word_neq_0_conv)
qed (use assms(1) in auto)

lemma convertACLs_number:
  assumes "acl_inv m" and "convertACLs m acls = (m', n)"
  shows "convertNumber m' n = Inr acls"
  using assms(2)
proof (cases rule: convertACLs_cases)
  case known
  with assms(1) have "num_to_acl m n = Some acls" "n \<noteq> 0" by (auto simp: acl_inv_def)
  with known show ?thesis by (simp add: convertNumber_def)
next
  case fresh
  with assms(1) have "n \<noteq> 0" by (auto simp: acl_inv_def)
  with fresh show ?thesis by (simp add: convertNumber_def)
qed (simp add: convertNumber_def)

lemma convertACLs_frame:
  assumes "acl_inv m" and "convertACLs m acls = (m', n)" and "convertNumber m k = Inr a"
  shows "convertNumber m' k = Inr a"
  using assms(2)
proof (cases rule: convertACLs_cases)
  case fresh
  have "num_to_acl m (max_acl_id m) = None" using assms(1) by (rule acl_inv_fresh)
  with fresh assms(3) show ?thesis
    by (auto simp: convertNumber_def split: option.splits if_splits)
qed (use assms(3) in auto)

lemma usage_frame [simp]:
  "convertNumber (addUsage m n) k = convertNumber m k"
  "acl_inv (addUsage m n) = acl_inv m"
  "num_to_acl (addUsage m n) = num_to_acl m"
  by (simp_all add: convertNumber_def addUsage_def acl_inv_def)

lemma removeUsage_cases:
  obtains (kept) "num_to_acl (removeUsage m n) = num_to_acl m"
      "acl_to_num (removeUsage m n) = acl_to_num m"
  | (dropped) "num_to_acl (removeUsage m n) = (num_to_acl m)(n := None)"
      "acl_to_num (removeUsage m n) =
         (acl_to_num m)((case num_to_acl m n of None \<Rightarrow> [] | Some a \<Rightarrow> a) := None)"
proof (cases "usage_counter m n = Some 1")
  case True
  then show ?thesis by (intro dropped) (simp_all add: removeUsage_def Let_def)
next
  case False
  then show ?thesis by (intro kept) (simp_all add: removeUsage_def split: option.split)
qed

lemma removeUsage_max [simp]: "max_acl_id (removeUsage m n) = max_acl_id m"
  by (simp add: removeUsage_def Let_def split: option.split)

lemma removeUsage_inv:
  assumes m: "acl_inv m"
  shows "acl_inv (removeUsage m n)"
proof (cases rule: removeUsage_cases [of m n])
  case kept
  with m show ?thesis by (simp add: acl_inv_def)
next
  case dropped
  have inv: "acl_to_num m a = Some k \<longleftrightarrow> num_to_acl m k = Some a" for a k
    using m by (simp add: acl_inv_def)
  have "(acl_to_num (removeUsage m n) a = Some k) = (num_to_acl (removeUsage m n) k = Some a)" for a k
  proof (cases "num_to_acl m n")
    case None
    have "acl_to_num m [] = None" using m by (cases "acl_to_num m []") (auto simp: acl_inv_def)
    with None dropped inv show ?thesis by (metis fun_upd_triv option.simps(4))
  next
    case (Some b)
    with dropped inv [of b] inv [of a k] show ?thesis by auto
  qed
  with m dropped show ?thesis by (auto simp: acl_inv_def split: if_splits)
qed

lemma removeUsage_frame:
  "k \<noteq> n \<Longrightarrow> convertNumber (removeUsage m n) k = convertNumber m k"
  by (simp add: convertNumber_def removeUsage_def Let_def split: option.splits)

subsection \<open>Usage counting\<close>

lemma acl_counts_init: "acl_counts ACLMap_init (\<lambda>_. 0)"
  by (simp add: acl_counts_def ACLMap_init_def)

lemma unat_u64_Suc: "unat (c :: u64) + 1 < 2 ^ 64 \<Longrightarrow> unat (c + 1) = unat c + 1"
  by (simp add: unat_word_ariths)

lemma unat_u64_pred: "0 < unat (c :: u64) \<Longrightarrow> unat (c - 1) = unat c - 1"
  by (metis One_nat_def Suc_leI unat_1 unat_sub word_le_nat_alt)

lemma acl_counts_add:
  assumes "acl_inv m" and "acl_counts m f" and "convertACLs m acls = (m', n)"
    and "f n + 1 < 2 ^ 64"
  shows "acl_counts (addUsage m' n) (f(n := f n + 1))"
proof -
  have known: "n = 0 \<or> num_to_acl m' n \<noteq> None"
    using assms(3) by (cases rule: convertACLs_cases) (use assms(1) in \<open>auto simp: acl_inv_def\<close>)
  have others: "k \<noteq> n \<Longrightarrow> num_to_acl m' k = num_to_acl m k" for k
    using assms(3) by (cases rule: convertACLs_cases) auto
  have usage: "usage_counter m' = usage_counter m"
    using assms(3) by (cases rule: convertACLs_cases) auto
  show ?thesis
    unfolding acl_counts_def
  proof (intro allI impI)
    fix k :: u64
    assume k: "k \<noteq> 0"
    show "(num_to_acl (addUsage m' n) k \<noteq> None \<longleftrightarrow> 0 < (f(n := f n + 1)) k) \<and>
        (if (f(n := f n + 1)) k = 0 then usage_counter (addUsage m' n) k = None
         else \<exists>c. usage_counter (addUsage m' n) k = Some c \<and> unat c = (f(n := f n + 1)) k)"
    proof (cases "k = n")
      case True
      from assms(2) k have "if f k = 0 then usage_counter m k = None
         else \<exists>c. usage_counter m k = Some c \<and> unat c = f k" by (simp add: acl_counts_def)
      with True k known usage assms(4) show ?thesis
        by (auto simp: addUsage_def unat_u64_Suc split: if_splits)
    next
      case False
      with assms(2) k usage others show ?thesis by (simp add: acl_counts_def addUsage_def)
    qed
  qed
qed

lemma acl_counts_remove:
  assumes "acl_counts m f" and "n = 0 \<or> 0 < f n"
  shows "acl_counts (removeUsage m n) (f(n := f n - 1))"
  unfolding acl_counts_def
proof (intro allI impI)
  fix k :: u64
  assume k: "k \<noteq> 0"
  from assms(1) k have c: "(num_to_acl m k \<noteq> None \<longleftrightarrow> 0 < f k) \<and>
        (if f k = 0 then usage_counter m k = None
         else \<exists>c. usage_counter m k = Some c \<and> unat c = f k)"
    unfolding acl_counts_def by blast
  show "(num_to_acl (removeUsage m n) k \<noteq> None \<longleftrightarrow> 0 < (f(n := f n - 1)) k) \<and>
        (if (f(n := f n - 1)) k = 0 then usage_counter (removeUsage m n) k = None
         else \<exists>c. usage_counter (removeUsage m n) k = Some c \<and> unat c = (f(n := f n - 1)) k)"
  proof (cases "k = n")
    case True
    with assms(2) k c obtain d where d: "usage_counter m k = Some d" "unat d = f k" "0 < f k"
      by auto
    then have "d - 1 = 0 \<longleftrightarrow> f k = 1" and "unat (d - 1) = f k - 1"
      by (metis One_nat_def Suc_pred unat_0 unat_eq_zero unat_u64_pred diff_Suc_1, simp add: unat_u64_pred)
    with True d c show ?thesis by (auto simp: removeUsage_def Let_def)
  next
    case False
    then have "num_to_acl (removeUsage m n) k = num_to_acl m k"
      "usage_counter (removeUsage m n) k = usage_counter m k"
      by (simp_all add: removeUsage_def Let_def split: option.split)
    with False c show ?thesis by simp
  qed
qed

subsection \<open>The interning contract\<close>

text \<open>
  What the storage relies on: interning a value gives a handle that resolves to it, and
  neither later interning nor usage counting of other handles changes what a live handle
  resolves to.
\<close>

locale interner =
  fixes invar :: "'t \<Rightarrow> bool"
    and room :: "'t \<Rightarrow> nat \<Rightarrow> bool"
    and intern :: "'t \<Rightarrow> 'a \<Rightarrow> 't \<times> 'n"
    and resolve :: "'t \<Rightarrow> 'n \<Rightarrow> 'a result"
  assumes intern_invar: "invar t \<Longrightarrow> room t (Suc k) \<Longrightarrow> invar (fst (intern t a))"
    and intern_room: "invar t \<Longrightarrow> room t (Suc k) \<Longrightarrow> room (fst (intern t a)) k"
    and resolve_intern: "invar t \<Longrightarrow> resolve (fst (intern t a)) (snd (intern t a)) = Inr a"
    and intern_frame: "invar t \<Longrightarrow> resolve t n = Inr b \<Longrightarrow> resolve (fst (intern t a)) n = Inr b"
begin

fun intern_all :: "'t \<Rightarrow> 'a list \<Rightarrow> 't \<times> 'n list" where
  "intern_all t [] = (t, [])"
| "intern_all t (a # as) =
     (let (t', n) = intern t a; (t'', ns) = intern_all t' as in (t'', n # ns))"

lemma intern_all_frame:
  "invar t \<Longrightarrow> room t (length as) \<Longrightarrow> resolve t n = Inr b \<Longrightarrow>
     resolve (fst (intern_all t as)) n = Inr b"
proof (induction as arbitrary: t)
  case (Cons a as)
  then have "invar (fst (intern t a))" "room (fst (intern t a)) (length as)"
    "resolve (fst (intern t a)) n = Inr b"
    by (auto intro: intern_invar intern_room intern_frame)
  then show ?case using Cons.IH [of "fst (intern t a)"] by (auto simp: Let_def split: prod.splits)
qed simp

lemma resolve_intern_all:
  "invar t \<Longrightarrow> room t (length as) \<Longrightarrow>
     map (resolve (fst (intern_all t as))) (snd (intern_all t as)) = map Inr as"
proof (induction as arbitrary: t)
  case (Cons a as)
  obtain t' n where i: "intern t a = (t', n)" by (cases "intern t a")
  obtain t'' ns where j: "intern_all t' as = (t'', ns)" by (cases "intern_all t' as")
  have t': "invar t'" "room t' (length as)" "resolve t' n = Inr a"
    using Cons.prems i intern_invar [of t "length as" a] intern_room [of t "length as" a]
      resolve_intern [of t a] by auto
  have "resolve t'' n = Inr a" using intern_all_frame [OF t'] j by simp
  then show ?case using Cons.IH [OF t'(1,2)] i j by simp
qed simp

lemma intern_inj:
  assumes "invar t" "room t 2" "intern t a = (t', n)" "intern t' b = (t'', n)"
  shows "a = b"
proof -
  have "invar t'" "resolve t' n = Inr a"
    using assms(1-3) intern_invar [of t 1 a] resolve_intern [of t a] by (auto simp: numeral_2_eq_2)
  then have "resolve t'' n = Inr a" "resolve t'' n = Inr b"
    using assms(4) intern_frame [of t' n a b] resolve_intern [of t' b] by auto
  then show ?thesis by simp
qed

end

definition acl_room :: "ACLMap \<Rightarrow> nat \<Rightarrow> bool" where
  "acl_room m k \<longleftrightarrow> unat (max_acl_id m) + k < 2 ^ 64"

lemma acl_room_Suc: "acl_room m (Suc k) \<Longrightarrow> max_acl_id m + 1 \<noteq> 0"
  using unat_u64_Suc [of "max_acl_id m"] by (auto simp: acl_room_def)

interpretation acl_intern: interner acl_inv acl_room convertACLs convertNumber
proof unfold_locales
  fix t k a
  assume t: "acl_inv t" and r: "acl_room t (Suc k)"
  obtain t' n where c: "convertACLs t a = (t', n)" by (cases "convertACLs t a")
  show "acl_inv (fst (convertACLs t a))"
    using convertACLs_inv [OF t c acl_room_Suc [OF r]] c by simp
  show "acl_room (fst (convertACLs t a)) k"
    using c
  proof (cases rule: convertACLs_cases)
    case fresh
    with c r unat_u64_Suc [of "max_acl_id t"] show ?thesis by (simp add: acl_room_def)
  qed (use c r in \<open>simp_all add: acl_room_def\<close>)
next
  fix t a
  assume t: "acl_inv t"
  show "convertNumber (fst (convertACLs t a)) (snd (convertACLs t a)) = Inr a"
    using convertACLs_number [OF t, of a] by (cases "convertACLs t a") simp
next
  fix t n b a
  assume t: "acl_inv t" and b: "convertNumber t n = Inr b"
  show "convertNumber (fst (convertACLs t a)) n = Inr b"
    using convertACLs_frame [OF t _ b, of a] by (cases "convertACLs t a") simp
qed

text \<open>
  C23: Interning is injective and lossless: while ids do not run out, \<open>convertACLs\<close> followed
  by \<open>convertNumber\<close> gives the access control list back, every id handed out before keeps
  its meaning, and the two directions of the table stay inverse.
\<close>

theorem convertACLs_roundtrip:
  assumes "acl_inv m" and "acl_room m 1" and "convertACLs m acls = (m', n)"
  shows "convertNumber m' n = Inr acls \<and> acl_inv m' \<and>
    (\<forall>k a. convertNumber m k = Inr a \<longrightarrow> convertNumber m' k = Inr a)"
  using assms acl_intern.resolve_intern [of m acls] acl_intern.intern_frame [of m _ _ acls]
    acl_intern.intern_invar [of m 0 acls] by auto

definition acl_example :: ACLs where
  "acl_example = [\<lparr>permissions = 31, acl_scheme = ''digest'', acl_ident = ''u:p''\<rparr>]"

theorem convertACLs_roundtrip_witness:
  "acl_inv ACLMap_init \<and> acl_room ACLMap_init 1 \<and>
   convertNumber (fst (convertACLs ACLMap_init acl_example))
     (snd (convertACLs ACLMap_init acl_example)) = Inr acl_example"
proof -
  have r: "acl_room ACLMap_init 1" by (simp add: acl_room_def ACLMap_init_def)
  show ?thesis
    using acl_inv_init r convertACLs_roundtrip [OF acl_inv_init r prod.collapse [symmetric]] by blast
qed

text \<open>
  C24: An entry lives exactly as long as it is used: after the operations \<open>createNode\<close> performs
  (\<open>convertACLs\<close>, \<open>addUsage\<close>) the counter of the id is one higher and its list resolves;
  \<open>removeUsage\<close> takes one use away, keeps the entry while uses remain, forgets it with the
  last one, and never touches another id.
\<close>

theorem acl_usage_lifecycle:
  assumes "acl_inv m" and "acl_counts m f" and "acl_room m 1"
    and "convertACLs m acls = (m', n)" and "f n + 1 < 2 ^ 64" and "k = 0 \<or> 0 < f k"
  shows "acl_counts (addUsage m' n) (f(n := f n + 1)) \<and>
    convertNumber (addUsage m' n) n = Inr acls \<and>
    acl_counts (removeUsage m k) (f(k := f k - 1)) \<and> acl_inv (removeUsage m k) \<and>
    (\<forall>j. j \<noteq> k \<longrightarrow> convertNumber (removeUsage m k) j = convertNumber m j) \<and>
    (k \<noteq> 0 \<and> f k = 1 \<longrightarrow> convertNumber (removeUsage m k) k = Inl Logical_error)"
proof -
  have c: "acl_counts (removeUsage m k) (f(k := f k - 1))"
    using assms(2,6) by (rule acl_counts_remove)
  have gone: "convertNumber (removeUsage m k) k = Inl Logical_error" if "k \<noteq> 0 \<and> f k = 1"
  proof -
    from c that have "\<not> num_to_acl (removeUsage m k) k \<noteq> None"
      unfolding acl_counts_def by (metis diff_self_eq_0 fun_upd_same less_numeral_extra(3))
    with that show ?thesis by (simp add: convertNumber_def)
  qed
  show ?thesis
    using acl_counts_add [OF assms(1,2,4,5)] convertACLs_number [OF assms(1,4)] c
      removeUsage_inv [OF assms(1)] removeUsage_frame [of _ k m] gone
    by (intro conjI allI impI) simp_all
qed

theorem acl_usage_lifecycle_witness:
  "acl_counts (addUsage (fst (convertACLs ACLMap_init acl_example)) 1) ((\<lambda>_. 0)(1 := 1)) \<and>
   convertNumber (addUsage (fst (convertACLs ACLMap_init acl_example)) 1) 1 = Inr acl_example"
proof -
  have r: "acl_room ACLMap_init 1" by (simp add: acl_room_def ACLMap_init_def)
  have c: "convertACLs ACLMap_init acl_example = (fst (convertACLs ACLMap_init acl_example), 1)"
    by (simp add: convertACLs_def ACLMap_init_def acl_example_def Let_def)
  show ?thesis
    using acl_usage_lifecycle [OF acl_inv_init acl_counts_init r c, of 0] by simp
qed

end
