(* ===== verification/KeeperState.thy ===== *)
theory KeeperState
  imports KeeperNode AclTable SessionExpiry "HOL-Library.AList"
begin

text \<open>
  The state of \<open>KeeperStorage\<close> (\<open>src/Coordination/KeeperStorage.h\<close>), the deltas that requests
  produce, and \<open>KeeperStorage::UncommittedState\<close> (\<open>KeeperStorage.cpp\<close>, lines 452-761).

  The committed nodes are a map from paths, the contract that the theory \<open>SnapshotTable\<close> proves of
  \<open>SnapshotableHashTable\<close>. The uncommitted nodes, which \<open>rollback\<close> iterates, are an association
  list. Pointers to deltas are the deltas themselves. \<open>operator[]\<close> on a map of containers is read
  as \<open>bucket\<close>: the empty entry it creates is not kept. Assertions (\<open>chassert\<close>) are not executed,
  as in a release build.
\<close>

subsection \<open>Deltas\<close>

datatype Operation =
    CreateNodeDelta Stat ACLs string
  | RemoveNodeDelta int int
  | UpdateNodeDelta UpdateFn int
  | SetACLDelta ACLs int
  | AddAuthDelta session AuthID
  | ErrorDelta Error
  | SubDeltaEnd
  | FailedMultiDelta "Error list"

record Delta =
  d_path :: path
  d_zxid :: zxid
  d_operation :: Operation

text \<open>The constructors of \<open>Delta\<close>; those without a path use the empty one.\<close>

definition mkDelta :: "path \<Rightarrow> zxid \<Rightarrow> Operation \<Rightarrow> Delta" where
  "mkDelta p z op = \<lparr>d_path = p, d_zxid = z, d_operation = op\<rparr>"

definition mkError :: "zxid \<Rightarrow> Error \<Rightarrow> Delta" where
  "mkError z e = mkDelta [] z (ErrorDelta e)"

lemma mkDelta_simps [simp]:
  "d_path (mkDelta p z op) = p" "d_zxid (mkDelta p z op) = z" "d_operation (mkDelta p z op) = op"
  by (simp_all add: mkDelta_def)

lemma mkError_simps [simp]:
  "d_path (mkError z e) = []" "d_zxid (mkError z e) = z" "d_operation (mkError z e) = ErrorDelta e"
  by (simp_all add: mkError_def)

subsection \<open>Uncommitted state\<close>

record UncommittedNode =
  un_node :: "Node option"
  un_acls :: ACLs
  un_zxid :: zxid

definition UncommittedNode_default :: UncommittedNode where
  "UncommittedNode_default = \<lparr>un_node = None, un_acls = [], un_zxid = 0\<rparr>"

record UncommittedState =
  us_session_and_auth :: "session \<rightharpoonup> AuthID list"
  us_nodes :: "(path \<times> UncommittedNode) list"
  us_deltas_for_path :: "path \<rightharpoonup> Delta list"
  us_deltas :: "Delta list"

definition UncommittedState_init :: UncommittedState where
  "UncommittedState_init =
     \<lparr>us_session_and_auth = Map.empty, us_nodes = [], us_deltas_for_path = Map.empty,
      us_deltas = []\<rparr>"

type_synonym container = "path \<rightharpoonup> Node"

definition tryGetNodeFromStorage :: "container \<Rightarrow> path \<Rightarrow> Node option" where
  "tryGetNodeFromStorage c p = map_option shallowCopy (c p)"

text \<open>The visitor of \<open>applyDelta\<close>, on the entry of the delta's path.\<close>

definition apply_operation :: "Delta \<Rightarrow> UncommittedNode \<Rightarrow> UncommittedNode result" where
  "apply_operation d e =
     (case d_operation d of
        CreateNodeDelta stat acls new_data \<Rightarrow>
          Inr \<lparr>un_node = Some (setData new_data (copyStats stat Node_default)), un_acls = acls,
               un_zxid = d_zxid d\<rparr>
      | RemoveNodeDelta ver ow \<Rightarrow> Inr (e\<lparr>un_node := None, un_zxid := d_zxid d\<rparr>)
      | UpdateNodeDelta f ver \<Rightarrow>
          (case un_node e of
             None \<Rightarrow> Inl Undefined_behaviour
           | Some n \<Rightarrow> Inr (e\<lparr>un_node := Some (update_fn f n), un_zxid := d_zxid d\<rparr>))
      | SetACLDelta acls ver \<Rightarrow> Inr (e\<lparr>un_acls := acls, un_zxid := d_zxid d\<rparr>)
      | _ \<Rightarrow> Inr e)"

definition load_node :: "container \<Rightarrow> UncommittedState \<Rightarrow> path \<Rightarrow> UncommittedNode" where
  "load_node c us p =
     (case map_of (us_nodes us) p of
        Some e \<Rightarrow> e
      | None \<Rightarrow> \<lparr>un_node = tryGetNodeFromStorage c p, un_acls = [], un_zxid = 0\<rparr>)"

definition applyDelta :: "container \<Rightarrow> UncommittedState \<Rightarrow> Delta \<Rightarrow> UncommittedState result" where
  "applyDelta c us d =
     rbind (apply_operation d (load_node c us (d_path d))) (\<lambda>e.
       Inr (us\<lparr>us_nodes := AList.update (d_path d) e (us_nodes us)\<rparr>))"

definition addDelta :: "container \<Rightarrow> UncommittedState \<Rightarrow> Delta \<Rightarrow> UncommittedState result" where
  "addDelta c us d =
     (let us = us\<lparr>us_deltas := us_deltas us @ [d]\<rparr>
      in if d_path d \<noteq> [] then
           applyDelta c
             (us\<lparr>us_deltas_for_path :=
                  (us_deltas_for_path us)(d_path d \<mapsto> bucket (us_deltas_for_path us) (d_path d) @ [d])\<rparr>)
             d
         else
           (case d_operation d of
              AddAuthDelta sid auth \<Rightarrow>
                Inr (us\<lparr>us_session_and_auth :=
                       (us_session_and_auth us)(sid \<mapsto> bucket (us_session_and_auth us) sid @ [auth])\<rparr>)
            | _ \<Rightarrow> Inr us))"

definition addDeltas :: "container \<Rightarrow> UncommittedState \<Rightarrow> Delta list \<Rightarrow> UncommittedState result" where
  "addDeltas c us ds = rfold (addDelta c) us ds"

text \<open>A map entry that is erased when its container becomes empty.\<close>

definition put_nonempty :: "('k \<rightharpoonup> 'a list) \<Rightarrow> 'k \<Rightarrow> 'a list \<Rightarrow> ('k \<rightharpoonup> 'a list)" where
  "put_nonempty m k xs = m(k := (if xs = [] then None else Some xs))"

lemma bucket_put_nonempty [simp, hash_simps]:
  "bucket (put_nonempty m k xs) l = (if l = k then xs else bucket m l)"
  by (simp add: put_nonempty_def bucket_def)

text \<open>
  One iteration of the loop of \<open>commit\<close>, for the front delta: the new state and the paths that
  have no further modification in the transaction.
\<close>

definition commit_front :: "zxid \<Rightarrow> Delta \<Rightarrow> path list \<times> UncommittedState \<Rightarrow>
    (path list \<times> UncommittedState) result" where
  "commit_front commit_zxid d acc =
     (case acc of (modified, us) \<Rightarrow>
        if d_path d \<noteq> [] then
          (case us_deltas_for_path us (d_path d) of
             None \<Rightarrow> Inl Out_of_range
           | Some [] \<Rightarrow> Inl Undefined_behaviour
           | Some (_ # rest) \<Rightarrow>
               Inr (if rest = [] \<or> commit_zxid < d_zxid (hd rest) then hs_insert (d_path d) modified
                    else modified,
                    us\<lparr>us_deltas_for_path := put_nonempty (us_deltas_for_path us) (d_path d) rest\<rparr>))
        else
          (case d_operation d of
             AddAuthDelta sid auth \<Rightarrow>
               (case bucket (us_session_and_auth us) sid of
                  [] \<Rightarrow> Inl Undefined_behaviour
                | _ # rest \<Rightarrow>
                    Inr (modified,
                         us\<lparr>us_session_and_auth := put_nonempty (us_session_and_auth us) sid rest\<rparr>))
           | _ \<Rightarrow> Inr (modified, us)))"

fun commit_loop :: "zxid \<Rightarrow> Delta list \<Rightarrow> path list \<times> UncommittedState \<Rightarrow>
    (path list \<times> UncommittedState) result" where
  "commit_loop commit_zxid [] acc = Inr (apsnd (\<lambda>us. us\<lparr>us_deltas := []\<rparr>) acc)"
| "commit_loop commit_zxid (d # ds) acc =
     (if d_zxid d \<noteq> commit_zxid then Inr (apsnd (\<lambda>us. us\<lparr>us_deltas := d # ds\<rparr>) acc)
      else if d_operation d = SubDeltaEnd then Inr (apsnd (\<lambda>us. us\<lparr>us_deltas := ds\<rparr>) acc)
      else rbind (commit_front commit_zxid d acc) (commit_loop commit_zxid ds))"

text \<open>The last loop of \<open>commit\<close>; \<open>nodes[node]\<close> makes a default entry when there is none.\<close>

definition drop_unmodified :: "zxid \<Rightarrow> path \<Rightarrow> UncommittedState \<Rightarrow> UncommittedState" where
  "drop_unmodified commit_zxid p us =
     (let e = (case map_of (us_nodes us) p of Some e \<Rightarrow> e | None \<Rightarrow> UncommittedNode_default)
      in us\<lparr>us_nodes := (if un_zxid e = commit_zxid then AList.delete p (us_nodes us)
                         else AList.update p e (us_nodes us))\<rparr>)"

definition uncommitted_commit :: "zxid \<Rightarrow> UncommittedState \<Rightarrow> UncommittedState result" where
  "uncommitted_commit commit_zxid us =
     rbind (commit_loop commit_zxid (us_deltas us) ([], us)) (\<lambda>(modified, us').
       Inr (fold (drop_unmodified commit_zxid) modified us'))"

definition uncommitted_getNode :: "container \<Rightarrow> UncommittedState \<Rightarrow> path \<Rightarrow> Node option" where
  "uncommitted_getNode c us p =
     (case map_of (us_nodes us) p of
        Some e \<Rightarrow> un_node e
      | None \<Rightarrow> tryGetNodeFromStorage c p)"

definition uncommitted_getACLs :: "container \<Rightarrow> ACLMap \<Rightarrow> UncommittedState \<Rightarrow> path \<Rightarrow> ACLs result" where
  "uncommitted_getACLs c acl us p =
     (case map_of (us_nodes us) p of
        Some e \<Rightarrow> Inr (un_acls e)
      | None \<Rightarrow>
          (case c p of
             None \<Rightarrow> Inr []
           | Some n \<Rightarrow> convertNumber acl (n_acl_id n)))"

text \<open>\<open>hasACL\<close> and \<open>forEachAuthInSession\<close> take the committed \<open>session_and_auth\<close> first.\<close>

definition hasACL :: "(session \<rightharpoonup> AuthID list) \<Rightarrow> UncommittedState \<Rightarrow> session \<Rightarrow> bool \<Rightarrow>
    (AuthID \<Rightarrow> bool) \<Rightarrow> bool" where
  "hasACL committed us sid is_local pred =
     (if is_local then list_ex pred (bucket committed sid)
      else if list_ex pred (bucket committed sid) then True
      else (case us_session_and_auth us sid of
              None \<Rightarrow> False
            | Some auths \<Rightarrow> list_ex pred auths))"

definition authsInSession :: "(session \<rightharpoonup> AuthID list) \<Rightarrow> UncommittedState \<Rightarrow> session \<Rightarrow>
    AuthID list" where
  "authsInSession committed us sid =
     (case committed sid of None \<Rightarrow> [] | Some auths \<Rightarrow> auths) @
     (case us_session_and_auth us sid of None \<Rightarrow> [] | Some auths \<Rightarrow> auths)"

end
