(* ===== verification/KeeperStorage.thy ===== *)
theory KeeperStorage
  imports KeeperState
begin

unbundle bit_operations_syntax

text \<open>
  \<open>KeeperStorage\<close> (\<open>src/Coordination/KeeperStorage.h\<close>, \<open>KeeperStorage.cpp\<close>): the whole state, its
  construction, the commit and the rollback of deltas, digests, and access control. The functions
  take the storage and return it updated; what the constructor takes from \<open>KeeperContext\<close> and from
  the cryptographic library is the record \<open>KeeperContext\<close>.
\<close>

subsection \<open>State\<close>

datatype Phase = INIT | RUNNING | SHUTDOWN

text \<open>
  \<open>kc_base64_sha1\<close> stands for \<open>base64Encode(getSHA1(userdata))\<close> and \<open>kc_cluster_config\<close> for
  \<open>serializeClusterConfig\<close> of the configuration the RAFT library reports.
\<close>

record KeeperContext =
  digestEnabled :: bool
  serverState :: Phase
  ignoreSystemPathOnStartup :: bool
  systemNodesWithData :: "(path \<times> string) list"
  kc_cluster_config :: string
  kc_base64_sha1 :: "string \<Rightarrow> string"

definition example_context :: KeeperContext where
  "example_context = \<lparr>digestEnabled = False, serverState = RUNNING,
     ignoreSystemPathOnStartup = False, systemNodesWithData = [], kc_cluster_config = [],
     kc_base64_sha1 = id\<rparr>"

datatype DigestVersion = NO_DIGEST | V1 | V2 | V3 | V4

definition CURRENT_DIGEST_VERSION :: DigestVersion where "CURRENT_DIGEST_VERSION = V4"

record Digest =
  dg_version :: DigestVersion
  dg_value :: u64

record TransactionInfo =
  ti_zxid :: zxid
  ti_nodes_digest :: Digest
  ti_log_idx :: int

record KeeperStorage =
  session_id_counter :: int
  session_and_auth :: "session \<rightharpoonup> AuthID list"
  container :: container
  uncommitted_state :: UncommittedState
  ephemerals :: "session \<rightharpoonup> path list"
  sessions_and_watchers :: "session \<rightharpoonup> path list"
  session_expiry_queue :: SessionExpiryQueue
  session_and_timeout :: "session \<rightharpoonup> int"
  acl_map :: ACLMap
  storage_zxid :: zxid
  old_snapshot_zxid :: zxid
  uncommitted_transactions :: "TransactionInfo list"
  nodes_digest :: u64
  finalized :: bool
  watches :: "path \<rightharpoonup> session list"
  list_watches :: "path \<rightharpoonup> session list"
  keeper_context :: KeeperContext
  superdigest :: string
  initialized :: bool

abbreviation getNode :: "KeeperStorage \<Rightarrow> path \<Rightarrow> Node option" where
  "getNode st \<equiv> uncommitted_getNode (container st) (uncommitted_state st)"

subsection \<open>Digests\<close>

definition removeDigest :: "path \<Rightarrow> Node \<Rightarrow> KeeperStorage \<Rightarrow> KeeperStorage" where
  "removeDigest p n st =
     (if digestEnabled (keeper_context st)
      then st\<lparr>nodes_digest := nodes_digest st - calculateDigest p n\<rparr> else st)"

definition addDigest :: "path \<Rightarrow> Node \<Rightarrow> KeeperStorage \<Rightarrow> KeeperStorage" where
  "addDigest p n st =
     (if digestEnabled (keeper_context st)
      then st\<lparr>nodes_digest := nodes_digest st + calculateDigest p n\<rparr> else st)"

definition getNodesDigest :: "KeeperStorage \<Rightarrow> bool \<Rightarrow> Digest" where
  "getNodesDigest st committed =
     (if \<not> digestEnabled (keeper_context st) then \<lparr>dg_version = NO_DIGEST, dg_value = 0\<rparr>
      else if committed \<or> uncommitted_transactions st = [] then
        \<lparr>dg_version = CURRENT_DIGEST_VERSION, dg_value = nodes_digest st\<rparr>
      else ti_nodes_digest (last (uncommitted_transactions st)))"

definition checkDigest :: "Digest \<Rightarrow> Digest \<Rightarrow> bool" where
  "checkDigest a b =
     (if dg_version a \<noteq> dg_version b then True
      else if dg_version a = NO_DIGEST then True
      else dg_value a = dg_value b)"

definition generateDigest :: "KeeperContext \<Rightarrow> string \<Rightarrow> string" where
  "generateDigest kc userdata =
     takeWhile (\<lambda>ch. ch \<noteq> CHR '':'') userdata @ '':'' @ kc_base64_sha1 kc userdata"

text \<open>
  \<open>calculateNodesDigest\<close>: the local map \<open>updated_nodes\<close> is an association list; \<open>emplace\<close> keeps an
  entry that is already there.
\<close>

type_synonym updated_nodes = "(path \<times> Node option) list"

definition emplace :: "'k \<Rightarrow> 'v \<Rightarrow> ('k \<times> 'v) list \<Rightarrow> ('k \<times> 'v) list" where
  "emplace k v m = (case map_of m k of None \<Rightarrow> AList.update k v m | Some _ \<Rightarrow> m)"

definition digest_delta :: "KeeperStorage \<Rightarrow> u64 \<times> updated_nodes \<Rightarrow> Delta \<Rightarrow>
    (u64 \<times> updated_nodes) result" where
  "digest_delta st acc d =
     (case acc of (current, updated) \<Rightarrow>
        (case d_operation d of
           CreateNodeDelta stat acls new_data \<Rightarrow>
             Inr (current,
               emplace (d_path d) (Some (setData new_data (copyStats stat Node_default))) updated)
         | RemoveNodeDelta ver ow \<Rightarrow>
             rbind
               (case map_of updated (d_path d) of
                  Some _ \<Rightarrow> Inr current
                | None \<Rightarrow>
                    (case getNode st (d_path d) of
                       None \<Rightarrow> Inl Undefined_behaviour
                     | Some n \<Rightarrow> Inr (current - calculateDigest (d_path d) n)))
               (\<lambda>current'. Inr (current', AList.update (d_path d) None updated))
         | UpdateNodeDelta f ver \<Rightarrow>
             (case map_of updated (d_path d) of
                Some None \<Rightarrow> Inl Undefined_behaviour
              | Some (Some n) \<Rightarrow> Inr (current, AList.update (d_path d) (Some (update_fn f n)) updated)
              | None \<Rightarrow>
                  (case getNode st (d_path d) of
                     None \<Rightarrow> Inl Undefined_behaviour
                   | Some n \<Rightarrow>
                       Inr (current - calculateDigest (d_path d) (shallowCopy n),
                            AList.update (d_path d) (Some (update_fn f (shallowCopy n))) updated)))
         | _ \<Rightarrow> Inr acc))"

fun digest_updated :: "u64 \<Rightarrow> updated_nodes \<Rightarrow> u64" where
  "digest_updated current [] = current"
| "digest_updated current ((p, None) # m) = digest_updated current m"
| "digest_updated current ((p, Some n) # m) = digest_updated (current + calculateDigest p n) m"

definition calculateNodesDigest :: "KeeperStorage \<Rightarrow> u64 \<Rightarrow> Delta list \<Rightarrow> u64 result" where
  "calculateNodesDigest st current new_deltas =
     (if \<not> digestEnabled (keeper_context st) then Inr current
      else rbind (rfold (digest_delta st) (current, []) new_deltas) (\<lambda>(current', updated).
             Inr (digest_updated current' updated)))"

subsection \<open>Ephemeral nodes\<close>

definition registerEphemeralPath :: "session \<Rightarrow> path \<Rightarrow> KeeperStorage \<Rightarrow> KeeperStorage" where
  "registerEphemeralPath sid p st =
     st\<lparr>ephemerals := (ephemerals st)(sid \<mapsto> hs_insert p (bucket (ephemerals st) sid))\<rparr>"

definition unregisterEphemeralPath :: "session \<Rightarrow> path \<Rightarrow> KeeperStorage \<Rightarrow> KeeperStorage result" where
  "unregisterEphemeralPath sid p st =
     (case ephemerals st sid of
        None \<Rightarrow> Inl Logical_error
      | Some ps \<Rightarrow> Inr (st\<lparr>ephemerals := put_nonempty (ephemerals st) sid (hs_erase p ps)\<rparr>))"

subsection \<open>Committing deltas\<close>

text \<open>\<open>container.updateValue\<close>: the key must be present.\<close>

definition updateValue :: "path \<Rightarrow> (Node \<Rightarrow> Node) \<Rightarrow> KeeperStorage \<Rightarrow> KeeperStorage result" where
  "updateValue p f st =
     (case container st p of
        None \<Rightarrow> Inl Undefined_behaviour
      | Some n \<Rightarrow> Inr (st\<lparr>container := (container st)(p \<mapsto> f n)\<rparr>))"

definition createNode :: "path \<Rightarrow> string \<Rightarrow> Stat \<Rightarrow> ACLs \<Rightarrow> KeeperStorage \<Rightarrow>
    (bool \<times> KeeperStorage) result" where
  "createNode p new_data stat node_acls st =
     rbind (of_option Undefined_behaviour (parentNodePath p)) (\<lambda>parent_path.
       case container st parent_path of
         None \<Rightarrow> Inr (False, st)
       | Some parent \<Rightarrow>
           if isEphemeral parent then Inr (False, st)
           else if container st p \<noteq> None then Inr (False, st)
           else
             (case convertACLs (acl_map st) node_acls of (acl, acl_id) \<Rightarrow>
                let created_node =
                      setData new_data (copyStats stat (Node_default\<lparr>n_acl_id := acl_id\<rparr>));
                    st = st\<lparr>acl_map := addUsage acl acl_id,
                            container := (container st)(p \<mapsto> created_node)\<rparr>
                in rbind (updateValue parent_path (addChild (getBaseNodeName p)) st) (\<lambda>st.
                     Inr (True, addDigest p created_node st))))"

definition removeNode :: "path \<Rightarrow> int \<Rightarrow> KeeperStorage \<Rightarrow> (bool \<times> KeeperStorage) result" where
  "removeNode p ver st =
     (case container st p of
        None \<Rightarrow> Inr (False, st)
      | Some n \<Rightarrow>
          if ver \<noteq> - 1 \<and> ver \<noteq> n_version n then Inr (False, st)
          else if numChildren n \<noteq> 0 then Inr (False, st)
          else
            rbind (of_option Undefined_behaviour (parentNodePath p)) (\<lambda>parent_path.
              rbind (updateValue parent_path (removeChild (getBaseNodeName p))
                       (st\<lparr>acl_map := removeUsage (acl_map st) (n_acl_id n)\<rparr>)) (\<lambda>st.
                Inr (True, removeDigest p (shallowCopy n)
                             (st\<lparr>container := (container st)(p := None)\<rparr>)))))"

text \<open>The visitor of \<open>KeeperStorage::commit\<close>: the error, whether the sub-request ends, the state.\<close>

definition commit_delta :: "Delta \<Rightarrow> KeeperStorage \<Rightarrow> (Error \<times> bool \<times> KeeperStorage) result" where
  "commit_delta d st =
     (case d_operation d of
        CreateNodeDelta stat acls new_data \<Rightarrow>
          rbind (createNode (d_path d) new_data stat acls st) (\<lambda>(ok, st').
            if ok then Inr (ZOK, False, st') else Inl Storage_inconsistency)
      | UpdateNodeDelta f ver \<Rightarrow>
          (case container st (d_path d) of
             None \<Rightarrow> Inl Storage_inconsistency
           | Some n \<Rightarrow>
               if ver \<noteq> - 1 \<and> ver \<noteq> n_version n then Inl Storage_inconsistency
               else
                 rbind (updateValue (d_path d) (update_fn f) (removeDigest (d_path d) n st)) (\<lambda>st'.
                   Inr (ZOK, False, addDigest (d_path d) (update_fn f n) st')))
      | RemoveNodeDelta ver ow \<Rightarrow>
          rbind (removeNode (d_path d) ver st) (\<lambda>(ok, st').
            if ok then Inr (ZOK, False, st') else Inl Storage_inconsistency)
      | SetACLDelta acls ver \<Rightarrow>
          (case container st (d_path d) of
             None \<Rightarrow> Inl Storage_inconsistency
           | Some n \<Rightarrow>
               if ver \<noteq> - 1 \<and> ver \<noteq> n_aversion n then Inl Storage_inconsistency
               else
                 (case convertACLs (removeUsage (acl_map st) (n_acl_id n)) acls of (acl, acl_id) \<Rightarrow>
                    rbind (updateValue (d_path d) (n_acl_id_update (\<lambda>_. acl_id))
                             (st\<lparr>acl_map := addUsage acl acl_id\<rparr>)) (\<lambda>st'.
                      Inr (ZOK, False, st'))))
      | ErrorDelta e \<Rightarrow> Inr (e, False, st)
      | SubDeltaEnd \<Rightarrow> Inr (ZOK, True, st)
      | AddAuthDelta sid auth \<Rightarrow>
          Inr (ZOK, False,
               st\<lparr>session_and_auth :=
                    (session_and_auth st)(sid \<mapsto> bucket (session_and_auth st) sid @ [auth])\<rparr>)
      | FailedMultiDelta errs \<Rightarrow> Inl Storage_inconsistency)"

fun storage_commit_loop :: "zxid \<Rightarrow> Delta list \<Rightarrow> KeeperStorage \<Rightarrow> (Error \<times> KeeperStorage) result" where
  "storage_commit_loop commit_zxid [] st = Inr (ZOK, st)"
| "storage_commit_loop commit_zxid (d # ds) st =
     (if d_zxid d > commit_zxid then Inr (ZOK, st)
      else rbind (commit_delta d st) (\<lambda>(e, finish_subdelta, st').
        if e \<noteq> ZOK then Inr (e, st')
        else if finish_subdelta then Inr (ZOK, st')
        else storage_commit_loop commit_zxid ds st'))"

definition storage_commit :: "zxid \<Rightarrow> KeeperStorage \<Rightarrow> (Error \<times> KeeperStorage) result" where
  "storage_commit commit_zxid st =
     storage_commit_loop commit_zxid (us_deltas (uncommitted_state st)) st"

text \<open>\<open>uncommitted_state.commit\<close> and \<open>addDeltas\<close> as steps of the storage.\<close>

definition commit_uncommitted :: "zxid \<Rightarrow> KeeperStorage \<Rightarrow> KeeperStorage result" where
  "commit_uncommitted commit_zxid st =
     rbind (uncommitted_commit commit_zxid (uncommitted_state st)) (\<lambda>us.
       Inr (st\<lparr>uncommitted_state := us\<rparr>))"

definition add_deltas :: "Delta list \<Rightarrow> KeeperStorage \<Rightarrow> KeeperStorage result" where
  "add_deltas ds st =
     rbind (addDeltas (container st) (uncommitted_state st) ds) (\<lambda>us.
       Inr (st\<lparr>uncommitted_state := us\<rparr>))"

subsection \<open>Rollback\<close>

definition undo_ephemeral :: "Delta \<Rightarrow> KeeperStorage \<Rightarrow> KeeperStorage result" where
  "undo_ephemeral d st =
     (case d_operation d of
        CreateNodeDelta stat acls new_data \<Rightarrow>
          if st_ephemeralOwner stat \<noteq> 0
          then unregisterEphemeralPath (st_ephemeralOwner stat) (d_path d) st else Inr st
      | RemoveNodeDelta ver ow \<Rightarrow>
          Inr (if ow \<noteq> 0 then registerEphemeralPath ow (d_path d) st else st)
      | _ \<Rightarrow> Inr st)"

definition pop_delta :: "Delta \<Rightarrow> UncommittedState \<Rightarrow> UncommittedState result" where
  "pop_delta d us =
     (if d_path d \<noteq> [] then
        (case us_deltas_for_path us (d_path d) of
           None \<Rightarrow> Inl Out_of_range
         | Some [] \<Rightarrow> Inl Undefined_behaviour
         | Some (x # xs) \<Rightarrow>
             Inr (if last (x # xs) = d
                  then us\<lparr>us_deltas_for_path :=
                            put_nonempty (us_deltas_for_path us) (d_path d) (butlast (x # xs))\<rparr>
                  else us))
      else
        (case d_operation d of
           AddAuthDelta sid auth \<Rightarrow>
             (case bucket (us_session_and_auth us) sid of
                [] \<Rightarrow> Inl Undefined_behaviour
              | x # xs \<Rightarrow>
                  Inr (if last (x # xs) = auth
                       then us\<lparr>us_session_and_auth :=
                                 put_nonempty (us_session_and_auth us) sid (butlast (x # xs))\<rparr>
                       else us))
         | _ \<Rightarrow> Inr us))"

text \<open>The loop over the deltas from the last one backwards; its list argument is reversed.\<close>

fun rollback_loop :: "zxid \<Rightarrow> Delta list \<Rightarrow> KeeperStorage \<Rightarrow> KeeperStorage result" where
  "rollback_loop rollback_zxid [] st =
     Inr (st\<lparr>uncommitted_state := (uncommitted_state st)\<lparr>us_deltas := []\<rparr>\<rparr>)"
| "rollback_loop rollback_zxid (d # ds) st =
     (if d_zxid d < rollback_zxid
      then Inr (st\<lparr>uncommitted_state := (uncommitted_state st)\<lparr>us_deltas := rev (d # ds)\<rparr>\<rparr>)
      else
        rbind (if d_path d \<noteq> [] then undo_ephemeral d st else Inr st) (\<lambda>st'.
          rbind (pop_delta d (uncommitted_state st')) (\<lambda>us.
            rollback_loop rollback_zxid ds (st'\<lparr>uncommitted_state := us\<rparr>))))"

text \<open>Drop the cached nodes last touched by the transaction and replay the remaining deltas.\<close>

definition replay_path :: "container \<Rightarrow> UncommittedState \<Rightarrow> path \<Rightarrow> UncommittedState result" where
  "replay_path c us p =
     (case us_deltas_for_path us p of
        None \<Rightarrow> Inr us
      | Some ds \<Rightarrow> rfold (applyDelta c) us ds)"

definition rollback_nodes :: "container \<Rightarrow> zxid \<Rightarrow> UncommittedState \<Rightarrow> UncommittedState result" where
  "rollback_nodes c rollback_zxid us =
     (let deleted_nodes =
            filter (\<lambda>p. un_zxid (the (map_of (us_nodes us) p)) = rollback_zxid)
              (remdups (map fst (us_nodes us)))
      in rfold (replay_path c)
           (us\<lparr>us_nodes := filter (\<lambda>pe. fst pe \<notin> set deleted_nodes) (us_nodes us)\<rparr>)
           deleted_nodes)"

definition rollback :: "zxid \<Rightarrow> KeeperStorage \<Rightarrow> KeeperStorage result" where
  "rollback rollback_zxid st =
     (let ds = us_deltas (uncommitted_state st)
      in if ds \<noteq> [] \<and> d_zxid (last ds) > rollback_zxid then Inl Logical_error
         else
           rbind (rollback_loop rollback_zxid (rev ds) st) (\<lambda>st'.
             rbind (rollback_nodes (container st') rollback_zxid (uncommitted_state st')) (\<lambda>us.
               Inr (st'\<lparr>uncommitted_state := us\<rparr>))))"

subsection \<open>Access control\<close>

definition getNodeACLs :: "KeeperStorage \<Rightarrow> path \<Rightarrow> bool \<Rightarrow> ACLs result" where
  "getNodeACLs st p is_local =
     (if is_local then
        (case container st p of
           None \<Rightarrow> Inr []
         | Some n \<Rightarrow> convertNumber (acl_map st) (n_acl_id n))
      else uncommitted_getACLs (container st) (acl_map st) (uncommitted_state st) p)"

definition checkACL :: "KeeperStorage \<Rightarrow> path \<Rightarrow> int \<Rightarrow> session \<Rightarrow> bool \<Rightarrow> bool result" where
  "checkACL st p permission sid is_local =
     rbind (getNodeACLs st p is_local) (\<lambda>node_acls.
       let has = hasACL (session_and_auth st) (uncommitted_state st) sid is_local
       in Inr (node_acls = [] \<or>
               has (\<lambda>auth. auth_scheme auth = ''super'') \<or>
               list_ex (\<lambda>acl.
                 permissions acl AND permission \<noteq> 0 \<and>
                 (acl_scheme acl = ''world'' \<and> acl_ident acl = ''anyone'' \<or>
                  has (\<lambda>auth. auth_scheme auth = acl_scheme acl \<and> auth_ident auth = acl_ident acl)))
                 node_acls))"

text \<open>
  \<open>fixupACL\<close>: the ACLs to store, or \<open>None\<close> when the request's ACLs are invalid. The loop carries
  \<open>valid_found\<close> and the result vector.
\<close>

fun fixupACL_loop :: "AuthID list \<Rightarrow> ACLs \<Rightarrow> bool \<Rightarrow> ACLs \<Rightarrow> ACLs option" where
  "fixupACL_loop auths [] valid_found result_acls =
     (if valid_found then Some result_acls else None)"
| "fixupACL_loop auths (acl # acls) valid_found result_acls =
     (if acl_scheme acl = ''auth'' then
        fixupACL_loop auths acls (valid_found \<or> auths \<noteq> [])
          (result_acls @
           map (\<lambda>auth. acl\<lparr>acl_scheme := auth_scheme auth, acl_ident := auth_ident auth\<rparr>) auths)
      else if acl_scheme acl = ''world'' \<and> acl_ident acl = ''anyone'' then
        fixupACL_loop auths acls True result_acls
      else if acl_scheme acl = ''digest'' then
        (if count_list (acl_ident acl) CHR '':'' \<noteq> 1 then None
         else fixupACL_loop auths acls True (result_acls @ [acl]))
      else fixupACL_loop auths acls valid_found result_acls)"

definition fixupACL :: "ACLs \<Rightarrow> session \<Rightarrow> KeeperStorage \<Rightarrow> ACLs option" where
  "fixupACL request_acls sid st =
     (if request_acls = [] then Some []
      else fixupACL_loop (authsInSession (session_and_auth st) (uncommitted_state st) sid)
             request_acls False [])"

definition handleSystemNodeModification :: "KeeperContext \<Rightarrow> unit result" where
  "handleSystemNodeModification kc =
     (if serverState kc = INIT \<and> \<not> ignoreSystemPathOnStartup kc then Inl Logical_error else Inr ())"

subsection \<open>Construction, sessions, transactions\<close>

text \<open>\<open>container.insert\<close> does not replace an element that is already there.\<close>

definition container_insert :: "path \<Rightarrow> Node \<Rightarrow> KeeperStorage \<Rightarrow> KeeperStorage" where
  "container_insert p n st =
     (case container st p of
        None \<Rightarrow> st\<lparr>container := (container st)(p \<mapsto> n)\<rparr>
      | Some _ \<Rightarrow> st)"

definition insert_system_root :: "KeeperStorage \<Rightarrow> KeeperStorage result" where
  "insert_system_root st =
     (if container st keeper_system_path \<noteq> None then Inr st
      else
        let st = addDigest keeper_system_path Node_default
                   (container_insert keeper_system_path Node_default st)
        in case container st ''/'' of
             None \<Rightarrow> Inl Undefined_behaviour
           | Some root \<Rightarrow>
               let root' = addChild (getBaseNodeName keeper_system_path) (increaseNumChildren root)
               in rbind (updateValue ''/'' (\<lambda>_. root') (removeDigest ''/'' root st)) (\<lambda>st.
                    Inr (addDigest ''/'' root' st)))"

definition insert_system_node :: "KeeperStorage \<Rightarrow> path \<times> string \<Rightarrow> KeeperStorage result" where
  "insert_system_node st pd =
     (case pd of (p, new_data) \<Rightarrow>
        rbind (of_option Undefined_behaviour (parentNodePath p)) (\<lambda>parent.
          updateValue parent (addChild (getBaseNodeName p))
            (container_insert p (setData new_data Node_default) st)))"

definition initializeSystemNodes :: "KeeperStorage \<Rightarrow> KeeperStorage result" where
  "initializeSystemNodes st =
     (if initialized st then Inl Logical_error
      else
        rbind (insert_system_root st) (\<lambda>st.
          rbind (rfold insert_system_node st (systemNodesWithData (keeper_context st))) (\<lambda>st.
            Inr (st\<lparr>initialized := True\<rparr>))))"

definition KeeperStorage_fields :: "int \<Rightarrow> string \<Rightarrow> KeeperContext \<Rightarrow> KeeperStorage" where
  "KeeperStorage_fields tick_time_ms sdigest kc =
     \<lparr>session_id_counter = 1, session_and_auth = Map.empty, container = Map.empty,
      uncommitted_state = UncommittedState_init, ephemerals = Map.empty,
      sessions_and_watchers = Map.empty,
      session_expiry_queue = SessionExpiryQueue_init tick_time_ms,
      session_and_timeout = Map.empty, acl_map = ACLMap_init, storage_zxid = 0,
      old_snapshot_zxid = 0, uncommitted_transactions = [], nodes_digest = 0, finalized = False,
      watches = Map.empty, list_watches = Map.empty, keeper_context = kc, superdigest = sdigest,
      initialized = False\<rparr>"

definition KeeperStorage_init :: "int \<Rightarrow> string \<Rightarrow> KeeperContext \<Rightarrow> bool \<Rightarrow> KeeperStorage result" where
  "KeeperStorage_init tick_time_ms sdigest kc initialize_system_nodes =
     (let st = addDigest ''/'' Node_default
                 (container_insert ''/'' Node_default (KeeperStorage_fields tick_time_ms sdigest kc))
      in if initialize_system_nodes then initializeSystemNodes st else Inr st)"

definition getNextZXID :: "KeeperStorage \<Rightarrow> zxid" where
  "getNextZXID st =
     (if uncommitted_transactions st = [] then storage_zxid st + 1
      else ti_zxid (last (uncommitted_transactions st)) + 1)"

text \<open>\<open>session_and_timeout.emplace\<close> keeps the timeout of a session that is already there.\<close>

definition addSessionID :: "int \<Rightarrow> session \<Rightarrow> int \<Rightarrow> KeeperStorage \<Rightarrow> KeeperStorage result" where
  "addSessionID now sid session_timeout_ms st =
     rbind (addNewSessionOrUpdate (session_expiry_queue st) now sid session_timeout_ms) (\<lambda>q.
       Inr (st\<lparr>session_and_timeout :=
                (case session_and_timeout st sid of
                   None \<Rightarrow> (session_and_timeout st)(sid \<mapsto> session_timeout_ms)
                 | Some _ \<Rightarrow> session_and_timeout st),
               session_expiry_queue := q\<rparr>))"

definition getSessionID :: "int \<Rightarrow> int \<Rightarrow> KeeperStorage \<Rightarrow> (session \<times> KeeperStorage) result" where
  "getSessionID now session_timeout_ms st =
     (let sid = session_id_counter st
      in rbind (addSessionID now sid session_timeout_ms (st\<lparr>session_id_counter := sid + 1\<rparr>)) (\<lambda>st'.
           Inr (sid, st')))"

definition getDeadSessions :: "int \<Rightarrow> KeeperStorage \<Rightarrow> session list" where
  "getDeadSessions now st = getExpiredSessions (session_expiry_queue st) now"

definition storage_finalize :: "KeeperStorage \<Rightarrow> KeeperStorage result" where
  "storage_finalize st =
     (if finalized st then Inl Logical_error
      else Inr (st\<lparr>finalized := True, ephemerals := Map.empty, watches := Map.empty,
                  list_watches := Map.empty, sessions_and_watchers := Map.empty,
                  session_expiry_queue := clear (session_expiry_queue st)\<rparr>))"

text \<open>
  \<open>applyUncommittedState\<close>: move the transactions above \<open>last_log_idx\<close>, with their deltas, to a
  storage that was restored from a snapshot.
\<close>

definition applyUncommittedState :: "KeeperStorage \<Rightarrow> KeeperStorage \<Rightarrow> int \<Rightarrow> KeeperStorage result" where
  "applyUncommittedState st other last_log_idx =
     (if \<exists>t\<in>set (uncommitted_transactions st). ti_log_idx t = 0 then Inl Logical_error
      else
        let ts = filter (\<lambda>t. last_log_idx < ti_log_idx t) (uncommitted_transactions st);
            zxids_to_apply = map ti_zxid ts
        in add_deltas
             (filter (\<lambda>d. d_zxid d \<in> set zxids_to_apply) (us_deltas (uncommitted_state st)))
             (other\<lparr>uncommitted_transactions := uncommitted_transactions other @ ts\<rparr>))"

end
