(* ===== verification/KeeperWatches.thy ===== *)
theory KeeperWatches
  imports KeeperStorage
begin

text \<open>
  Watches (\<open>src/Coordination/KeeperStorage.cpp\<close>): \<open>processWatchesImpl\<close>, the registration of a watch
  in \<open>processRequest\<close>, and \<open>clearDeadWatches\<close>. A data watch is kept under \<open>watches\<close>, a child watch
  under \<open>list_watches\<close>, and \<open>sessions_and_watchers\<close> lists the paths a session watches.
\<close>

type_synonym Watches = "path \<rightharpoonup> session list"

definition watch_response :: "path \<Rightarrow> Event \<Rightarrow> ZooKeeperResponse" where
  "watch_response p event =
     ZooKeeperResponse ZOK (- 1) WATCH_XID (WatchResponse event State_CONNECTED p)"

definition notify :: "session list \<Rightarrow> ZooKeeperResponse \<Rightarrow> ResponseForSession list" where
  "notify sids r = map (\<lambda>sid. \<lparr>rs_session_id = sid, rs_response = r\<rparr>) sids"

text \<open>Send a response to the sessions that watch a path and forget the watch.\<close>

definition fire :: "path \<Rightarrow> Event \<Rightarrow> Watches \<Rightarrow> ResponseForSession list \<times> Watches" where
  "fire p event ws =
     (case ws p of
        None \<Rightarrow> ([], ws)
      | Some sids \<Rightarrow> (notify sids (watch_response p event), ws(p := None)))"

fun fire_list_watches :: "path \<Rightarrow> path list \<Rightarrow> Watches \<Rightarrow> ResponseForSession list \<times> Watches" where
  "fire_list_watches parent_path [] lws = ([], lws)"
| "fire_list_watches parent_path (p # ps) lws =
     (case fire p (if p = parent_path then CHILD else DELETED) lws of
        (rs, lws') \<Rightarrow> apfst ((@) rs) (fire_list_watches parent_path ps lws'))"

definition paths_to_check :: "path \<Rightarrow> path \<Rightarrow> Event \<Rightarrow> path list" where
  "paths_to_check p parent_path event =
     (if event = CREATED then [parent_path]
      else if event = DELETED then [p, parent_path]
      else [])"

definition processWatchesImpl :: "path \<Rightarrow> Watches \<Rightarrow> Watches \<Rightarrow> Event \<Rightarrow>
    (ResponseForSession list \<times> Watches \<times> Watches) result" where
  "processWatchesImpl p ws lws event =
     (case fire p event ws of (rs, ws') \<Rightarrow>
        rbind (of_option Undefined_behaviour (parentNodePath p)) (\<lambda>parent_path.
          case fire_list_watches parent_path (paths_to_check p parent_path event) lws of
            (lrs, lws') \<Rightarrow> Inr (rs @ lrs, ws', lws')))"

text \<open>\<open>watches_type[path].emplace(session)\<close>, with the entry in \<open>sessions_and_watchers\<close>.\<close>

definition add_watch :: "path \<Rightarrow> session \<Rightarrow> Watches \<times> (session \<rightharpoonup> path list) \<Rightarrow>
    Watches \<times> (session \<rightharpoonup> path list)" where
  "add_watch p sid acc =
     (case acc of (ws, sw) \<Rightarrow>
        (ws(p \<mapsto> hs_insert sid (bucket ws p)),
         if sid \<in> set (bucket ws p) then sw else sw(sid \<mapsto> hs_insert p (bucket sw sid))))"

definition remove_watcher :: "session \<Rightarrow> path \<Rightarrow> Watches \<Rightarrow> Watches" where
  "remove_watcher sid p ws =
     (case ws p of
        None \<Rightarrow> ws
      | Some sids \<Rightarrow> put_nonempty ws p (hs_erase sid sids))"

definition clearDeadWatches :: "session \<Rightarrow> KeeperStorage \<Rightarrow> KeeperStorage" where
  "clearDeadWatches sid st =
     (case sessions_and_watchers st sid of
        None \<Rightarrow> st
      | Some ps \<Rightarrow>
          st\<lparr>watches := fold (remove_watcher sid) ps (watches st),
             list_watches := fold (remove_watcher sid) ps (list_watches st),
             sessions_and_watchers := (sessions_and_watchers st)(sid := None)\<rparr>)"

subsection \<open>Behaviour\<close>

text \<open>
  Every watch is indexed: whoever waits at a path has the path among the paths it watches, so that
  closing the session finds it.
\<close>

definition watch_inv :: "Watches \<Rightarrow> Watches \<Rightarrow> (session \<rightharpoonup> path list) \<Rightarrow> bool" where
  "watch_inv ws lws sw \<longleftrightarrow>
     (\<forall>p sid. sid \<in> set (bucket ws p) \<or> sid \<in> set (bucket lws p) \<longrightarrow> p \<in> set (bucket sw sid))"

lemma fire_spec:
  "fire p event ws = (notify (bucket ws p) (watch_response p event), ws(p := None))"
  by (cases "ws p") (simp_all add: fire_def bucket_def notify_def fun_upd_idem)

lemma bucket_fire [simp]: "bucket (snd (fire p event ws)) q = (if q = p then [] else bucket ws q)"
  by (simp add: fire_spec bucket_def)

lemma set_bucket_remove_watcher [simp]:
  "set (bucket (remove_watcher sid p ws) q) =
     set (bucket ws q) - (if q = p then {sid} else {})"
  by (cases "ws p") (auto simp: remove_watcher_def bucket_Some bucket_None)

lemma set_bucket_fold_remove_watcher:
  "set (bucket (fold (remove_watcher sid) ps ws) q) =
     set (bucket ws q) - (if q \<in> set ps then {sid} else {})"
  by (induction ps arbitrary: ws) auto



lemma watch_inv_add:
  "watch_inv ws lws sw \<Longrightarrow> add_watch p sid (ws, sw) = (ws', sw') \<Longrightarrow> watch_inv ws' lws sw'"
  "watch_inv ws lws sw \<Longrightarrow> add_watch p sid (lws, sw) = (lws', sw') \<Longrightarrow> watch_inv ws lws' sw'"
  by (auto simp: watch_inv_def add_watch_def bucket_upd split: if_splits)

lemma watch_inv_subset:
  "watch_inv ws lws sw \<Longrightarrow> \<forall>p. set (bucket ws' p) \<subseteq> set (bucket ws p) \<Longrightarrow>
   \<forall>p. set (bucket lws' p) \<subseteq> set (bucket lws p) \<Longrightarrow> watch_inv ws' lws' sw"
  unfolding watch_inv_def by blast

lemma fire_list_watches_subset:
  "fire_list_watches parent_path ps lws = (rs, lws') \<Longrightarrow> set (bucket lws' p) \<subseteq> set (bucket lws p)"
proof (induction ps arbitrary: lws rs)
  case (Cons a ps)
  then obtain rs' where "fire_list_watches parent_path ps (lws(a := None)) = (rs', lws')"
    by (cases "fire_list_watches parent_path ps (lws(a := None))") (auto simp: fire_spec)
  from Cons.IH [OF this] have "set (bucket lws' p) \<subseteq> set (bucket (lws(a := None)) p)" .
  also have "\<dots> \<subseteq> set (bucket lws p)" by (auto simp: bucket_def)
  finally show ?case .
qed simp

lemma processWatchesImpl_subset:
  assumes "processWatchesImpl p ws lws event = Inr (rs, ws', lws')"
  shows "set (bucket ws' q) \<subseteq> set (bucket ws q) \<and> set (bucket lws' q) \<subseteq> set (bucket lws q)"
proof -
  obtain parent where parent: "parentNodePath p = Some parent"
    using assms by (auto simp: processWatchesImpl_def fire_spec)
  obtain lrs lws1 where l:
    "fire_list_watches parent (paths_to_check p parent event) lws = (lrs, lws1)" by fastforce
  then have "ws' = ws(p := None)" "lws' = lws1"
    using assms parent by (simp_all add: processWatchesImpl_def fire_spec)
  then show ?thesis using fire_list_watches_subset [OF l] by (simp add: bucket_upd)
qed

lemma clearDeadWatches_clears:
  assumes "watch_inv (watches st) (list_watches st) (sessions_and_watchers st)"
  shows "let st' = clearDeadWatches sid st in
    sessions_and_watchers st' sid = None \<and>
    (\<forall>p. set (bucket (watches st') p) = set (bucket (watches st) p) - {sid} \<and>
         set (bucket (list_watches st') p) = set (bucket (list_watches st) p) - {sid}) \<and>
    watch_inv (watches st') (list_watches st') (sessions_and_watchers st')"
proof (cases "sessions_and_watchers st sid")
  case None
  then have "sid \<notin> set (bucket (watches st) p) \<and> sid \<notin> set (bucket (list_watches st) p)" for p
    using assms unfolding watch_inv_def by (metis None bucket_None empty_iff list.set(1))
  with None assms show ?thesis by (simp add: clearDeadWatches_def Let_def)
next
  case (Some ps)
  have "p \<in> set ps" if "sid \<in> set (bucket (watches st) p) \<or> sid \<in> set (bucket (list_watches st) p)"
    for p using assms that unfolding watch_inv_def by (metis Some bucket_Some)
  then have *: "set (bucket (fold (remove_watcher sid) ps (watches st)) p) =
        set (bucket (watches st) p) - {sid}"
      "set (bucket (fold (remove_watcher sid) ps (list_watches st)) p) =
        set (bucket (list_watches st) p) - {sid}" for p
    by (auto simp: set_bucket_fold_remove_watcher)
  have "watch_inv (fold (remove_watcher sid) ps (watches st))
      (fold (remove_watcher sid) ps (list_watches st)) ((sessions_and_watchers st)(sid := None))"
    using assms * by (auto simp: watch_inv_def bucket_upd)
  with Some * show ?thesis by (simp add: clearDeadWatches_def Let_def)
qed

text \<open>
  C31: Closing a session removes its watches: when every watch is indexed, afterwards the session
  waits at no path, the index has no entry for it, and the watches of the others are kept.
\<close>

theorem close_clears_watches:
  assumes "watch_inv (watches st) (list_watches st) (sessions_and_watchers st)"
  shows "let st' = clearDeadWatches sid st in
    sessions_and_watchers st' sid = None \<and>
    (\<forall>p. set (bucket (watches st') p) = set (bucket (watches st) p) - {sid} \<and>
         set (bucket (list_watches st') p) = set (bucket (list_watches st) p) - {sid}) \<and>
    watch_inv (watches st') (list_watches st') (sessions_and_watchers st')"
  by (rule clearDeadWatches_clears [OF assms])

theorem close_clears_watches_witness:
  "let st = (KeeperStorage_fields 500 [] example_context)\<lparr>watches := [''/a'' \<mapsto> [3, 5]],
        sessions_and_watchers := [3 \<mapsto> [''/a''], 5 \<mapsto> [''/a'']]\<rparr>;
       st' = clearDeadWatches 3 st in
    sessions_and_watchers st' 3 = None \<and>
    (\<forall>p. set (bucket (watches st') p) = set (bucket (watches st) p) - {3} \<and>
         set (bucket (list_watches st') p) = set (bucket (list_watches st) p) - {3}) \<and>
    watch_inv (watches st') (list_watches st') (sessions_and_watchers st')"
proof -
  let ?st = "(KeeperStorage_fields 500 [] example_context)\<lparr>watches := [''/a'' \<mapsto> [3, 5]],
        sessions_and_watchers := [3 \<mapsto> [''/a''], 5 \<mapsto> [''/a'']]\<rparr>"
  have "watch_inv (watches ?st) (list_watches ?st) (sessions_and_watchers ?st)"
    by (simp add: watch_inv_def KeeperStorage_fields_def bucket_def)
  from close_clears_watches [OF this, of 3] show ?thesis unfolding Let_def .
qed

end
