(* ===== verification/KeeperFlags.thy ===== *)
theory KeeperFlags
  imports KeeperStorage "HOL-Library.AList"
begin

unbundle bit_operations_syntax

text \<open>
  Feature flags (\<open>src/Coordination/KeeperFeatureFlags.cpp\<close>) and the part of \<open>KeeperContext\<close>
  (\<open>src/Coordination/KeeperContext.cpp\<close>: the constructor, \<open>initialize\<close>, \<open>initializeFeatureFlags\<close>)
  that decides which system nodes the storage starts with. What the configuration library and the
  placement service return are parameters.
\<close>

subsection \<open>Feature flags\<close>

datatype KeeperFeatureFlag = FILTERED_LIST | MULTI_READ | CHECK_NOT_EXISTS | CREATE_IF_NOT_EXISTS

fun enum_integer :: "KeeperFeatureFlag \<Rightarrow> nat" where
  "enum_integer FILTERED_LIST = 0"
| "enum_integer MULTI_READ = 1"
| "enum_integer CHECK_NOT_EXISTS = 2"
| "enum_integer CREATE_IF_NOT_EXISTS = 3"

definition enum_entries :: "(string \<times> KeeperFeatureFlag) list" where
  "enum_entries =
     [(''FILTERED_LIST'', FILTERED_LIST), (''MULTI_READ'', MULTI_READ),
      (''CHECK_NOT_EXISTS'', CHECK_NOT_EXISTS), (''CREATE_IF_NOT_EXISTS'', CREATE_IF_NOT_EXISTS)]"

datatype KeeperApiVersion =
  ZOOKEEPER_COMPATIBLE | WITH_FILTERED_LIST | WITH_MULTI_READ | WITH_CHECK_NOT_EXISTS

fun api_number :: "KeeperApiVersion \<Rightarrow> nat" where
  "api_number ZOOKEEPER_COMPATIBLE = 0"
| "api_number WITH_FILTERED_LIST = 1"
| "api_number WITH_MULTI_READ = 2"
| "api_number WITH_CHECK_NOT_EXISTS = 3"

definition getByteAndBitIndex :: "nat \<Rightarrow> nat \<times> nat" where
  "getByteAndBitIndex num = (num div 8, 7 - num mod 8)"

definition KeeperFeatureFlags_init :: string where
  "KeeperFeatureFlags_init =
     replicate (fst (getByteAndBitIndex (length enum_entries - 1)) + 1) (CHR 0x00)"

text \<open>
  \<open>feature_flags[byte_idx]\<close> on a constant string: at the position \<open>size()\<close> it reads the terminating
  null character, beyond it the read is undefined.
\<close>

definition char_at :: "string \<Rightarrow> nat \<Rightarrow> char result" where
  "char_at s i =
     (if i < length s then Inr (s ! i) else if i = length s then Inr (CHR 0x00)
      else Inl Undefined_behaviour)"

definition isEnabled :: "string \<Rightarrow> KeeperFeatureFlag \<Rightarrow> bool result" where
  "isEnabled feature_flags feature_flag =
     (case getByteAndBitIndex (enum_integer feature_flag) of (byte_idx, bit_idx) \<Rightarrow>
        if byte_idx > length feature_flags then Inr False
        else rbind (char_at feature_flags byte_idx) (\<lambda>c.
               Inr (of_char c AND push_bit bit_idx (1 :: nat) \<noteq> 0)))"

definition update_flag :: "(nat \<Rightarrow> nat \<Rightarrow> nat) \<Rightarrow> KeeperFeatureFlag \<Rightarrow> string \<Rightarrow> string result" where
  "update_flag f feature_flag feature_flags =
     (case getByteAndBitIndex (enum_integer feature_flag) of (byte_idx, bit_idx) \<Rightarrow>
        if byte_idx < length feature_flags
        then Inr (feature_flags[byte_idx :=
               char_of (f (push_bit bit_idx 1) (of_char (feature_flags ! byte_idx)))])
        else Inl Undefined_behaviour)"

definition enableFeatureFlag :: "KeeperFeatureFlag \<Rightarrow> string \<Rightarrow> string result" where
  "enableFeatureFlag = update_flag (\<lambda>mask c. c OR mask)"

text \<open>\<open>&= ~(1 << bit_idx)\<close>, on the eight bits that are kept.\<close>

definition disableFeatureFlag :: "KeeperFeatureFlag \<Rightarrow> string \<Rightarrow> string result" where
  "disableFeatureFlag = update_flag (\<lambda>mask c. c AND (255 - mask))"

definition enable_from :: "KeeperApiVersion \<Rightarrow> KeeperApiVersion \<Rightarrow> KeeperFeatureFlag \<Rightarrow> string \<Rightarrow> string result" where
  "enable_from v since feature_flag s =
     (if api_number v \<ge> api_number since then enableFeatureFlag feature_flag s else Inr s)"

definition fromApiVersion :: "KeeperApiVersion \<Rightarrow> string \<Rightarrow> string result" where
  "fromApiVersion v s =
     (if v = ZOOKEEPER_COMPATIBLE then Inr s
      else
        rbind (enable_from v WITH_FILTERED_LIST FILTERED_LIST s) (\<lambda>s.
        rbind (enable_from v WITH_MULTI_READ MULTI_READ s) (\<lambda>s.
          enable_from v WITH_CHECK_NOT_EXISTS CHECK_NOT_EXISTS s)))"

subsection \<open>Flags behave like a set\<close>

definition flags_ok :: "string \<Rightarrow> bool" where
  "flags_ok s \<longleftrightarrow> length s = 1"

definition enabled :: "string \<Rightarrow> KeeperFeatureFlag \<Rightarrow> bool" where
  "enabled s f \<longleftrightarrow> isEnabled s f = Inr True"

lemma enum_integer_less: "enum_integer f < 4"
  by (cases f) simp_all

lemma enum_integer_inj: "enum_integer f = enum_integer g \<longleftrightarrow> f = g"
  by (cases f; cases g) simp_all

lemma byte_and_bit: "getByteAndBitIndex (enum_integer f) = (0, 7 - enum_integer f)"
  using enum_integer_less [of f] by (simp add: getByteAndBitIndex_def)

lemma flags_okE:
  assumes "flags_ok s"
  obtains c where "s = [c]"
  using assms by (auto simp: flags_ok_def length_Suc_conv)

lemma isEnabled_single: "isEnabled [c] f = Inr (bit (of_char c :: nat) (7 - enum_integer f))"
  unfolding bit_iff_and_push_bit_not_eq_0 by (simp add: isEnabled_def byte_and_bit char_at_def)

lemma enabled_single: "enabled [c] f \<longleftrightarrow> bit (of_char c :: nat) (7 - enum_integer f)"
  by (simp add: enabled_def isEnabled_single)

lemma isEnabled_returns: "flags_ok s \<Longrightarrow> isEnabled s f = Inr (enabled s f)"
  by (erule flags_okE) (simp add: isEnabled_single enabled_single)

lemma bit_char_of: "bit (of_char (char_of n) :: nat) k \<longleftrightarrow> k < 8 \<and> bit (n :: nat) k"
  by (simp add: bit_take_bit_iff flip: take_bit_eq_mod [of 8 n, simplified])

lemma update_flag_single:
  "update_flag f g [c] = Inr [char_of (f (push_bit (7 - enum_integer g) 1) (of_char c))]"
  by (simp add: update_flag_def byte_and_bit)

lemma enable_flag:
  assumes "flags_ok s"
  shows "\<exists>s'. enableFeatureFlag f s = Inr s' \<and> flags_ok s' \<and> enabled s' = (enabled s)(f := True)"
  using assms
proof (rule flags_okE)
  fix c
  assume s: "s = [c]"
  let ?s' = "[char_of ((of_char c :: nat) OR push_bit (7 - enum_integer f) 1)]"
  have "enabled ?s' g \<longleftrightarrow> enabled s g \<or> g = f" for g
    using enum_integer_less [of f] enum_integer_less [of g] enum_integer_inj [of f g]
    unfolding s enabled_single bit_char_of by (auto simp: bit_or_iff bit_exp_iff)
  then have "enabled ?s' = (enabled s)(f := True)" by (simp add: fun_eq_iff)
  moreover have "enableFeatureFlag f s = Inr ?s'" by (simp add: enableFeatureFlag_def s update_flag_single)
  ultimately show ?thesis by (intro exI [of _ ?s']) (simp add: flags_ok_def)
qed

lemma disable_flag:
  assumes "flags_ok s"
  shows "\<exists>s'. disableFeatureFlag f s = Inr s' \<and> flags_ok s' \<and> enabled s' = (enabled s)(f := False)"
  using assms
proof (rule flags_okE)
  fix c
  assume s: "s = [c]"
  let ?s' = "[char_of ((of_char c :: nat) AND (255 - push_bit (7 - enum_integer f) 1))]"
  have mask: "bit (255 - push_bit (7 - enum_integer f) 1 :: nat) (7 - enum_integer g) \<longleftrightarrow> g \<noteq> f" for g
    by (cases f; cases g) (simp_all add: push_bit_eq_mult bit_0)
  have "enabled ?s' g \<longleftrightarrow> enabled s g \<and> g \<noteq> f" for g
    unfolding s enabled_single bit_char_of bit_and_iff mask by (cases g) simp_all
  then have "enabled ?s' = (enabled s)(f := False)" by (simp add: fun_eq_iff)
  moreover have "disableFeatureFlag f s = Inr ?s'" by (simp add: disableFeatureFlag_def s update_flag_single)
  ultimately show ?thesis by (intro exI [of _ ?s']) (simp add: flags_ok_def)
qed

lemma flags_init: "flags_ok KeeperFeatureFlags_init" "enabled KeeperFeatureFlags_init = (\<lambda>_. False)"
proof -
  have init: "KeeperFeatureFlags_init = [CHR 0x00]"
    by (simp add: KeeperFeatureFlags_init_def enum_entries_def getByteAndBitIndex_def)
  show "flags_ok KeeperFeatureFlags_init" unfolding init by (simp add: flags_ok_def)
  show "enabled KeeperFeatureFlags_init = (\<lambda>_. False)"
    unfolding init by (simp add: enabled_single fun_eq_iff)
qed

subsection \<open>The context\<close>

text \<open>
  \<open>system_nodes_with_data\<close> and the flags. \<open>configured\<close> are the keys below
  \<open>keeper_server.feature_flags\<close>, in upper case and with their values; \<open>None\<close> when there is no such
  section.
\<close>

record ContextData =
  feature_flags :: string
  system_nodes_with_data :: "(path \<times> string) list"

definition KeeperContext_constructor :: "ContextData result" where
  "KeeperContext_constructor =
     rbind (enableFeatureFlag FILTERED_LIST KeeperFeatureFlags_init) (\<lambda>s.
     rbind (enableFeatureFlag MULTI_READ s) (\<lambda>s.
       Inr \<lparr>feature_flags = s,
            system_nodes_with_data =
              AList.update keeper_api_version_path (CHR ''2'' # [])
                (AList.update keeper_api_feature_flags_path s [])\<rparr>))"

definition configure_flag :: "string \<Rightarrow> string \<times> bool \<Rightarrow> string result" where
  "configure_flag s kv =
     (case map_of enum_entries (fst kv) of
        None \<Rightarrow> Inl Bad_arguments
      | Some feature_flag \<Rightarrow>
          if snd kv then enableFeatureFlag feature_flag s else disableFeatureFlag feature_flag s)"

definition initializeFeatureFlags :: "(string \<times> bool) list option \<Rightarrow> ContextData \<Rightarrow> ContextData result" where
  "initializeFeatureFlags configured cd =
     (case configured of
        None \<Rightarrow> Inr cd
      | Some kvs \<Rightarrow>
          rbind (rfold configure_flag (feature_flags cd) kvs) (\<lambda>s.
            Inr (cd\<lparr>feature_flags := s,
                    system_nodes_with_data :=
                      AList.update keeper_api_feature_flags_path s (system_nodes_with_data cd)\<rparr>)))"

definition KeeperContext_initialize :: "string \<Rightarrow> (string \<times> bool) list option \<Rightarrow> ContextData \<Rightarrow>
    ContextData result" where
  "KeeperContext_initialize keeper_az configured cd =
     initializeFeatureFlags configured
       (if keeper_az \<noteq> []
        then cd\<lparr>system_nodes_with_data :=
               AList.update keeper_availability_zone_path keeper_az (system_nodes_with_data cd)\<rparr>
        else cd)"

definition context_data :: "string \<Rightarrow> (string \<times> bool) list option \<Rightarrow> ContextData result" where
  "context_data keeper_az configured =
     rbind KeeperContext_constructor (KeeperContext_initialize keeper_az configured)"

text \<open>The flags that a configuration asks for: the last entry of a flag decides.\<close>

fun configured_flags :: "(string \<times> bool) list \<Rightarrow> (KeeperFeatureFlag \<Rightarrow> bool) \<Rightarrow> (KeeperFeatureFlag \<Rightarrow> bool)" where
  "configured_flags [] e = e"
| "configured_flags ((k, v) # kvs) e =
     configured_flags kvs (case map_of enum_entries k of None \<Rightarrow> e | Some f \<Rightarrow> e(f := v))"

lemma configure_flags_ok:
  "flags_ok s \<Longrightarrow> rfold configure_flag s kvs = Inr s' \<Longrightarrow>
   flags_ok s' \<and> enabled s' = configured_flags kvs (enabled s)"
proof (induction kvs arbitrary: s)
  case (Cons kv kvs)
  obtain k v where kv: "kv = (k, v)" by fastforce
  obtain f where f: "map_of enum_entries k = Some f"
    using Cons.prems(2) kv by (cases "map_of enum_entries k") (auto simp: configure_flag_def)
  obtain s1 where "configure_flag s kv = Inr s1" "flags_ok s1" "enabled s1 = (enabled s)(f := v)"
    using enable_flag [OF Cons.prems(1), of f] disable_flag [OF Cons.prems(1), of f] f kv
    by (cases v) (auto simp: configure_flag_def)
  with Cons.IH [of s1] Cons.prems(2) show ?case by (simp add: kv f del: fun_upd_apply)
qed simp

lemma configure_flags_fails:
  "flags_ok s \<Longrightarrow> rfold configure_flag s kvs = Inl f \<Longrightarrow> f = Bad_arguments"
proof (induction kvs arbitrary: s)
  case (Cons kv kvs)
  show ?case
  proof (cases "map_of enum_entries (fst kv)")
    case None
    with Cons.prems(2) show ?thesis by (simp add: configure_flag_def)
  next
    case (Some g)
    then obtain s1 where "configure_flag s kv = Inr s1" "flags_ok s1"
      using enable_flag [OF Cons.prems(1), of g] disable_flag [OF Cons.prems(1), of g]
      by (cases "snd kv") (auto simp: configure_flag_def)
    with Cons show ?thesis by simp
  qed
qed simp

lemma configure_flags_returns:
  "flags_ok s \<Longrightarrow> \<forall>kv\<in>set kvs. map_of enum_entries (fst kv) \<noteq> None \<Longrightarrow>
   \<exists>s'. rfold configure_flag s kvs = Inr s'"
proof (induction kvs arbitrary: s)
  case (Cons kv kvs)
  obtain f where f: "map_of enum_entries (fst kv) = Some f" using Cons.prems(2) by auto
  obtain s1 where "configure_flag s kv = Inr s1" "flags_ok s1"
    using enable_flag [OF Cons.prems(1), of f] disable_flag [OF Cons.prems(1), of f] f
    by (cases "snd kv") (auto simp: configure_flag_def)
  with Cons show ?case by simp
qed simp

text \<open>All system nodes are children of \<open>/keeper\<close>.\<close>

definition sys_nodes_ok :: "(path \<times> string) list \<Rightarrow> bool" where
  "sys_nodes_ok ps \<longleftrightarrow>
     (\<forall>p\<in>fst ` set ps. canonical p \<and> p \<noteq> keeper_system_path \<and> parentNodePath p = Some keeper_system_path)"

lemma system_paths:
  "sys_nodes_ok [(keeper_api_version_path, a), (keeper_api_feature_flags_path, b), (keeper_availability_zone_path, c)]"
  by code_simp

lemma sys_nodes_update:
  "sys_nodes_ok ps \<Longrightarrow> sys_nodes_ok [(p, d)] \<Longrightarrow> sys_nodes_ok (AList.update p d ps)"
  by (auto simp: sys_nodes_ok_def dom_update)

lemma default_flags:
  "\<exists>s. KeeperContext_constructor =
       Inr \<lparr>feature_flags = s,
            system_nodes_with_data =
              AList.update keeper_api_version_path ''2'' (AList.update keeper_api_feature_flags_path s [])\<rparr> \<and>
     flags_ok s \<and> enabled s = (\<lambda>f. f = FILTERED_LIST \<or> f = MULTI_READ)"
proof -
  obtain s1 where s1: "enableFeatureFlag FILTERED_LIST KeeperFeatureFlags_init = Inr s1" "flags_ok s1"
      "enabled s1 = (enabled KeeperFeatureFlags_init)(FILTERED_LIST := True)"
    using enable_flag [OF flags_init(1), of FILTERED_LIST] by blast
  obtain s2 where "enableFeatureFlag MULTI_READ s1 = Inr s2" "flags_ok s2"
      "enabled s2 = (enabled s1)(MULTI_READ := True)"
    using enable_flag [OF s1(2), of MULTI_READ] by blast
  with s1 flags_init(2) show ?thesis by (auto simp: KeeperContext_constructor_def fun_eq_iff)
qed

lemma system_path_distinct:
  "keeper_availability_zone_path \<noteq> keeper_api_feature_flags_path"
  "keeper_availability_zone_path \<noteq> keeper_api_version_path"
  "keeper_api_feature_flags_path \<noteq> keeper_api_version_path"
  by code_simp+

lemma context_data_start:
  "\<exists>s nodes. context_data az configured =
       initializeFeatureFlags configured \<lparr>feature_flags = s, system_nodes_with_data = nodes\<rparr> \<and>
     flags_ok s \<and> enabled s = (\<lambda>f. f = FILTERED_LIST \<or> f = MULTI_READ) \<and> sys_nodes_ok nodes \<and>
     map_of nodes keeper_api_feature_flags_path = Some s \<and>
     map_of nodes keeper_availability_zone_path = (if az = [] then None else Some az)"
proof -
  let ?nodes = "\<lambda>s. AList.update keeper_api_version_path ''2'' (AList.update keeper_api_feature_flags_path s [])"
  let ?all = "\<lambda>s. if az = [] then ?nodes s else AList.update keeper_availability_zone_path az (?nodes s)"
  obtain s where s: "KeeperContext_constructor = Inr \<lparr>feature_flags = s, system_nodes_with_data = ?nodes s\<rparr>"
      "flags_ok s" "enabled s = (\<lambda>f. f = FILTERED_LIST \<or> f = MULTI_READ)"
    using default_flags by blast
  have node: "sys_nodes_ok [(keeper_api_version_path, d)]" "sys_nodes_ok [(keeper_api_feature_flags_path, d)]"
      "sys_nodes_ok [(keeper_availability_zone_path, d)]" "sys_nodes_ok []" for d
    using system_paths [of d d d] by (simp_all add: sys_nodes_ok_def)
  have "sys_nodes_ok (?nodes s)" by (intro sys_nodes_update node)
  then have "sys_nodes_ok (?all s)" using sys_nodes_update node(3) by simp
  moreover have "map_of (?all s) keeper_api_feature_flags_path = Some s"
      "map_of (?all s) keeper_availability_zone_path = (if az = [] then None else Some az)"
    using system_path_distinct by (simp_all add: update_conv')
  moreover have "context_data az configured =
      initializeFeatureFlags configured \<lparr>feature_flags = s, system_nodes_with_data = ?all s\<rparr>"
    by (simp add: context_data_def s(1) KeeperContext_initialize_def)
  ultimately show ?thesis using s(2,3) by blast
qed

lemma context_data_ok:
  assumes "context_data az configured = Inr cd"
  shows "sys_nodes_ok (system_nodes_with_data cd) \<and> flags_ok (feature_flags cd) \<and>
    enabled (feature_flags cd) =
      configured_flags (case configured of None \<Rightarrow> [] | Some kvs \<Rightarrow> kvs)
        (\<lambda>f. f = FILTERED_LIST \<or> f = MULTI_READ) \<and>
    map_of (system_nodes_with_data cd) keeper_api_feature_flags_path = Some (feature_flags cd) \<and>
    map_of (system_nodes_with_data cd) keeper_availability_zone_path = (if az = [] then None else Some az)"
proof -
  obtain s nodes where s: "context_data az configured =
        initializeFeatureFlags configured \<lparr>feature_flags = s, system_nodes_with_data = nodes\<rparr>"
      "flags_ok s" "enabled s = (\<lambda>f. f = FILTERED_LIST \<or> f = MULTI_READ)" "sys_nodes_ok nodes"
      "map_of nodes keeper_api_feature_flags_path = Some s"
      "map_of nodes keeper_availability_zone_path = (if az = [] then None else Some az)"
    using context_data_start by blast
  have node: "sys_nodes_ok [(keeper_api_feature_flags_path, d)]" for d
    using system_paths [of d d d] by (simp add: sys_nodes_ok_def)
  show ?thesis
  proof (cases configured)
    case None
    with assms s show ?thesis by (auto simp: initializeFeatureFlags_def)
  next
    case (Some kvs)
    then have "initializeFeatureFlags (Some kvs) \<lparr>feature_flags = s, system_nodes_with_data = nodes\<rparr> = Inr cd"
      using assms s(1) by simp
    then obtain s' where s': "rfold configure_flag s kvs = Inr s'"
        "cd = \<lparr>feature_flags = s', system_nodes_with_data = AList.update keeper_api_feature_flags_path s' nodes\<rparr>"
      by (auto simp: initializeFeatureFlags_def)
    with configure_flags_ok [OF s(2) s'(1)] s(3-6) Some sys_nodes_update [OF s(4) node] system_path_distinct(1)
    show ?thesis by (simp add: update_conv')
  qed
qed


end
