(* ===== verification/KeeperTree.thy ===== *)
theory KeeperTree
  imports KeeperStorage
begin

text \<open>
  The abstract specification of the storage: a tree is a map from paths to the part of a node that
  does not depend on the representation (\<open>core\<close>), and a delta is a partial step on trees, undefined
  where \<open>KeeperStorage::commit\<close> would call \<open>onStorageInconsistency\<close>. The committed container and the
  uncommitted state are two implementations of it; this theory relates both to the specification.
\<close>

type_synonym tree = "path \<rightharpoonup> Node"

subsection \<open>Deltas as steps on trees\<close>

definition new_node :: "Stat \<Rightarrow> string \<Rightarrow> Node" where
  "new_node stat new_data = setData new_data (copyStats stat Node_default)"

definition version_ok :: "int \<Rightarrow> int \<Rightarrow> bool" where
  "version_ok ver actual \<longleftrightarrow> ver = - 1 \<or> ver = actual"

fun is_node_op :: "Operation \<Rightarrow> bool" where
  "is_node_op (CreateNodeDelta _ _ _) = True"
| "is_node_op (RemoveNodeDelta _ _) = True"
| "is_node_op (UpdateNodeDelta _ _) = True"
| "is_node_op (SetACLDelta _ _) = True"
| "is_node_op _ = False"

definition op_step :: "path \<Rightarrow> Operation \<Rightarrow> tree \<Rightarrow> tree option" where
  "op_step p op t =
     (case op of
        CreateNodeDelta stat acls new_data \<Rightarrow>
          (case Option.bind (parentNodePath p) t of
             None \<Rightarrow> None
           | Some parent \<Rightarrow>
               if isEphemeral parent \<or> t p \<noteq> None then None
               else Some (t(p \<mapsto> new_node stat new_data)))
      | RemoveNodeDelta ver ow \<Rightarrow>
          (case t p of
             None \<Rightarrow> None
           | Some n \<Rightarrow>
               if version_ok ver (n_version n) \<and> numChildren n = 0 \<and> ow = ephemeralOwner n \<and>
                  Option.bind (parentNodePath p) t \<noteq> None \<and>
                  (\<forall>c. parentNodePath c = Some p \<longrightarrow> t c = None)
               then Some (t(p := None)) else None)
      | UpdateNodeDelta f ver \<Rightarrow>
          (case t p of
             None \<Rightarrow> None
           | Some n \<Rightarrow>
               if version_ok ver (n_version n) then Some (t(p \<mapsto> update_fn f n)) else None)
      | SetACLDelta acls ver \<Rightarrow>
          (case t p of
             None \<Rightarrow> None
           | Some n \<Rightarrow> if version_ok ver (n_aversion n) then Some t else None)
      | _ \<Rightarrow> Some t)"

text \<open>
  The last condition of a removal is not checked by the code, which relies on the child counter;
  it is part of the specification that the processors are shown to meet. Node operations name a
  path, the others do not.
\<close>

definition tree_step :: "Delta \<Rightarrow> tree \<Rightarrow> tree option" where
  "tree_step d t =
     (if is_node_op (d_operation d) = (d_path d \<noteq> []) then op_step (d_path d) (d_operation d) t
      else None)"

fun tree_run :: "Delta list \<Rightarrow> tree \<Rightarrow> tree option" where
  "tree_run [] t = Some t"
| "tree_run (d # ds) t = Option.bind (tree_step d t) (tree_run ds)"

lemma tree_run_append [simp]:
  "tree_run (ds @ es) t = Option.bind (tree_run ds t) (tree_run es)"
proof (induction ds arbitrary: t)
  case (Cons d ds)
  then show ?case by (cases "tree_step d t") simp_all
qed simp

text \<open>The effect of a delta on the node of its own path, whatever the rest of the tree.\<close>

fun node_effect :: "Operation \<Rightarrow> Node option \<Rightarrow> Node option" where
  "node_effect (CreateNodeDelta stat acls new_data) n = Some (new_node stat new_data)"
| "node_effect (RemoveNodeDelta ver ow) n = None"
| "node_effect (UpdateNodeDelta f ver) n = map_option (update_fn f) n"
| "node_effect op n = n"

definition path_effect :: "path \<Rightarrow> Delta list \<Rightarrow> Node option \<Rightarrow> Node option" where
  "path_effect p ds n = fold (\<lambda>d. node_effect (d_operation d)) (filter (\<lambda>d. d_path d = p) ds) n"

lemma op_step_effect:
  "op_step p op t = Some t' \<Longrightarrow> t' = t(p := node_effect op (t p))"
  by (cases op) (auto simp: op_step_def fun_eq_iff split: option.splits if_splits)

lemma tree_step_effect:
  assumes "tree_step d t = Some t'"
  shows "t' = (if d_path d = [] then t else t(d_path d := node_effect (d_operation d) (t (d_path d))))"
proof (cases "d_path d = []")
  case True
  then have "\<not> is_node_op (d_operation d)" using assms by (auto simp: tree_step_def split: if_splits)
  then show ?thesis
    using assms True by (cases "d_operation d") (auto simp: tree_step_def op_step_def)
next
  case False
  then show ?thesis using assms op_step_effect by (auto simp: tree_step_def split: if_splits)
qed

lemma tree_run_effect:
  "tree_run ds t = Some t' \<Longrightarrow> p \<noteq> [] \<Longrightarrow> t' p = path_effect p ds (t p)"
proof (induction ds arbitrary: t)
  case (Cons d ds)
  then obtain t1 where t1: "tree_step d t = Some t1" "tree_run ds t1 = Some t'"
    by (auto simp: bind_eq_Some_conv)
  have "t1 p = (if d_path d = p then node_effect (d_operation d) (t p) else t p)"
    using tree_step_effect [OF t1(1)] Cons.prems(2) by auto
  with Cons.IH [OF t1(2) Cons.prems(2)] show ?case by (simp add: path_effect_def)
qed (simp add: path_effect_def)

text \<open>The trees of the development hold cores.\<close>

definition cored :: "tree \<Rightarrow> bool" where
  "cored t \<longleftrightarrow> (\<forall>p n. t p = Some n \<longrightarrow> core n = n)"

lemma core_new_node [simp]: "core (new_node stat new_data) = new_node stat new_data"
  by (simp add: core_def new_node_def setData_def copyStats_def Node_default_def Let_def
      setNumChildren_def setEphemeralOwner_def)

definition core_tree :: "container \<Rightarrow> tree" where
  "core_tree c = (\<lambda>p. map_option core (c p))"

lemma core_tree_apply: "core_tree c p = map_option core (c p)"
  by (simp add: core_tree_def)

lemma core_tree_upd: "core_tree (c(p := v)) = (core_tree c)(p := map_option core v)"
  by (simp add: core_tree_def fun_eq_iff)

lemma core_tree_None [simp]: "core_tree c p = None \<longleftrightarrow> c p = None"
  by (simp add: core_tree_def)

definition committed_tree :: "KeeperStorage \<Rightarrow> tree" where
  "committed_tree st = core_tree (container st)"

definition view :: "KeeperStorage \<Rightarrow> tree" where
  "view st = (\<lambda>p. map_option core (getNode st p))"

subsection \<open>Committing refines the specification\<close>

lemma created_core:
  "core (setData new_data (copyStats stat (Node_default\<lparr>n_acl_id := a\<rparr>))) = new_node stat new_data"
  by (simp add: core_def new_node_def setData_def copyStats_def Node_default_def Let_def
      setNumChildren_def setEphemeralOwner_def)

text \<open>The fields that committing a delta does not touch.\<close>

definition same_frame :: "KeeperStorage \<Rightarrow> KeeperStorage \<Rightarrow> bool" where
  "same_frame st st' \<longleftrightarrow>
     uncommitted_state st' = uncommitted_state st \<and> ephemerals st' = ephemerals st \<and>
     uncommitted_transactions st' = uncommitted_transactions st \<and>
     keeper_context st' = keeper_context st \<and> storage_zxid st' = storage_zxid st \<and>
     initialized st' = initialized st \<and> old_snapshot_zxid st' = old_snapshot_zxid st \<and>
     watches st' = watches st \<and> list_watches st' = list_watches st \<and>
     sessions_and_watchers st' = sessions_and_watchers st \<and>
     session_expiry_queue st' = session_expiry_queue st \<and>
     session_and_timeout st' = session_and_timeout st \<and>
     session_id_counter st' = session_id_counter st \<and> superdigest st' = superdigest st \<and>
     finalized st' = finalized st"

lemma same_frame_refl: "same_frame st st"
  by (simp add: same_frame_def)

lemma same_frame_trans: "same_frame a b \<Longrightarrow> same_frame b c \<Longrightarrow> same_frame a c"
  by (simp add: same_frame_def)

lemma digest_frame [simp]:
  "container (removeDigest p n st) = container st" "container (addDigest p n st) = container st"
  "acl_map (removeDigest p n st) = acl_map st" "acl_map (addDigest p n st) = acl_map st"
  "keeper_context (removeDigest p n st) = keeper_context st"
  "keeper_context (addDigest p n st) = keeper_context st"
  "session_and_auth (removeDigest p n st) = session_and_auth st"
  "session_and_auth (addDigest p n st) = session_and_auth st"
  by (simp_all add: removeDigest_def addDigest_def)

lemma same_frame_digest [simp]:
  "same_frame st (removeDigest p n st') = same_frame st st'"
  "same_frame st (addDigest p n st') = same_frame st st'"
  by (simp_all add: same_frame_def removeDigest_def addDigest_def)

definition digest_add :: "KeeperStorage \<Rightarrow> u64 \<Rightarrow> u64" where
  "digest_add st w = (if digestEnabled (keeper_context st) then w else 0)"

lemma nodes_digest_simps [simp]:
  "nodes_digest (removeDigest p n st) = nodes_digest st - digest_add st (calculateDigest p n)"
  "nodes_digest (addDigest p n st) = nodes_digest st + digest_add st (calculateDigest p n)"
  by (simp_all add: removeDigest_def addDigest_def digest_add_def)

lemma updateValue_Some:
  "container st p = Some n \<Longrightarrow>
   updateValue p f st = Inr (st\<lparr>container := (container st)(p \<mapsto> f n)\<rparr>)"
  by (simp add: updateValue_def)

lemma createNode_refines:
  assumes "op_step p (CreateNodeDelta stat acls new_data) (committed_tree st) = Some t"
  shows "\<exists>st'. createNode p new_data stat acls st = Inr (True, st') \<and> committed_tree st' = t \<and>
    same_frame st st' \<and> session_and_auth st' = session_and_auth st \<and>
    nodes_digest st' = nodes_digest st + digest_add st (calculateDigest p (new_node stat new_data))"
proof -
  obtain q parent where q: "parentNodePath p = Some q" "container st q = Some parent"
      "\<not> isEphemeral parent" "container st p = None"
      "t = (committed_tree st)(p \<mapsto> new_node stat new_data)"
    using assms by (auto simp: op_step_def committed_tree_def core_tree_apply
        split: option.splits if_splits dest!: bind_eq_Some_conv [THEN iffD1])
  have "q \<noteq> p" using q by auto
  obtain acl acl_id where acl: "convertACLs (acl_map st) acls = (acl, acl_id)" by fastforce
  define n where "n = setData new_data (copyStats stat (Node_default\<lparr>n_acl_id := acl_id\<rparr>))"
  have core_n: "core n = new_node stat new_data" by (simp add: n_def created_core)
  define st1 where "st1 = st\<lparr>acl_map := addUsage acl acl_id, container := (container st)(p \<mapsto> n)\<rparr>"
  have "container st1 q = Some parent" using q(2) \<open>q \<noteq> p\<close> by (simp add: st1_def)
  from updateValue_Some [OF this, of "addChild (getBaseNodeName p)"]
  have "createNode p new_data stat acls st = Inr (True, addDigest p n
      (st1\<lparr>container := (container st1)(q \<mapsto> addChild (getBaseNodeName p) parent)\<rparr>))"
    using q acl by (simp add: createNode_def n_def st1_def Let_def)
  moreover have "core_tree ((container st1)(q \<mapsto> addChild (getBaseNodeName p) parent)) = t"
    using q(2,5) \<open>q \<noteq> p\<close> core_n
    by (auto simp: st1_def core_tree_upd committed_tree_def fun_eq_iff core_tree_apply)
  moreover have "calculateDigest p n = calculateDigest p (new_node stat new_data)"
    using core_n by (simp add: calculateDigest_core_eq)
  ultimately show ?thesis
    by (simp add: committed_tree_def same_frame_def st1_def digest_add_def addDigest_def)
qed

lemma removeNode_refines:
  assumes "op_step p (RemoveNodeDelta ver ow) (committed_tree st) = Some t"
  shows "\<exists>st' n. removeNode p ver st = Inr (True, st') \<and> committed_tree st p = Some n \<and>
    committed_tree st' = t \<and> same_frame st st' \<and> session_and_auth st' = session_and_auth st \<and>
    nodes_digest st' = nodes_digest st - digest_add st (calculateDigest p n)"
proof -
  obtain n q parent where n: "container st p = Some n" "version_ok ver (n_version n)"
      "numChildren n = 0" "parentNodePath p = Some q" "container st q = Some parent"
      "t = (committed_tree st)(p := None)"
    using assms by (auto simp: op_step_def committed_tree_def core_tree_apply
        split: option.splits if_splits dest!: bind_eq_Some_conv [THEN iffD1])
  define st1 where "st1 = st\<lparr>acl_map := removeUsage (acl_map st) (n_acl_id n)\<rparr>"
  have "container st1 q = Some parent" using n(5) by (simp add: st1_def)
  from updateValue_Some [OF this, of "removeChild (getBaseNodeName p)"]
  have "removeNode p ver st = Inr (True, removeDigest p (shallowCopy n)
      (st1\<lparr>container := ((container st1)(q \<mapsto> removeChild (getBaseNodeName p) parent))(p := None)\<rparr>))"
    using n by (auto simp: removeNode_def st1_def version_ok_def Let_def)
  moreover have "core_tree (((container st1)(q \<mapsto> removeChild (getBaseNodeName p) parent))(p := None)) = t"
    using n(5,6) by (auto simp: st1_def core_tree_upd committed_tree_def fun_eq_iff core_tree_apply)
  moreover have "calculateDigest p (shallowCopy n) = calculateDigest p (core n)"
    by (rule calculateDigest_core_eq) simp
  ultimately show ?thesis
    using n(1) by (simp add: committed_tree_def core_tree_apply same_frame_def st1_def
        digest_add_def removeDigest_def)
qed

text \<open>What a delta contributes to the sum of the digests of the tree it applies to.\<close>

definition digest_at :: "path \<Rightarrow> Node option \<Rightarrow> u64" where
  "digest_at p n = (case n of None \<Rightarrow> 0 | Some m \<Rightarrow> calculateDigest p m)"

definition delta_error_code :: "Operation \<Rightarrow> Error" where
  "delta_error_code op = (case op of ErrorDelta e \<Rightarrow> e | _ \<Rightarrow> ZOK)"

definition is_failed_multi :: "Operation \<Rightarrow> bool" where
  "is_failed_multi op \<longleftrightarrow> (case op of FailedMultiDelta _ \<Rightarrow> True | _ \<Rightarrow> False)"

lemma update_refines:
  assumes "op_step (d_path d) (UpdateNodeDelta f ver) (committed_tree st) = Some t"
    and "d_operation d = UpdateNodeDelta f ver"
  shows "\<exists>st' n. commit_delta d st = Inr (ZOK, False, st') \<and> committed_tree st (d_path d) = Some n \<and>
    committed_tree st' = t \<and> same_frame st st' \<and> session_and_auth st' = session_and_auth st \<and>
    nodes_digest st' = nodes_digest st - digest_add st (calculateDigest (d_path d) n) +
      digest_add st (calculateDigest (d_path d) (update_fn f n))"
proof -
  let ?p = "d_path d"
  obtain n where n: "container st ?p = Some n" "version_ok ver (n_version n)"
      "t = (committed_tree st)(?p \<mapsto> update_fn f (core n))"
    using assms(1) by (auto simp: op_step_def committed_tree_def core_tree_apply
        split: option.splits if_splits)
  have "container (removeDigest ?p n st) ?p = Some n" using n(1) by simp
  from updateValue_Some [OF this, of "update_fn f"]
  have "commit_delta d st = Inr (ZOK, False, addDigest ?p (update_fn f n)
      ((removeDigest ?p n st)\<lparr>container := (container st)(?p \<mapsto> update_fn f n)\<rparr>))"
    using n assms(2) by (auto simp: commit_delta_def version_ok_def)
  moreover have "core_tree ((container st)(?p \<mapsto> update_fn f n)) = t"
    by (simp add: n(3) core_tree_upd committed_tree_def core_update_fn)
  moreover have "calculateDigest ?p (update_fn f n) = calculateDigest ?p (update_fn f (core n))"
    by (rule calculateDigest_core_eq) (simp add: core_update_fn)
  ultimately show ?thesis
    using n(1) calculateDigest_core [of ?p n]
    by (simp add: committed_tree_def core_tree_apply same_frame_def digest_add_def
        addDigest_def removeDigest_def)
qed

lemma setacl_refines:
  assumes "op_step (d_path d) (SetACLDelta acls ver) (committed_tree st) = Some t"
    and "d_operation d = SetACLDelta acls ver"
  shows "\<exists>st'. commit_delta d st = Inr (ZOK, False, st') \<and> committed_tree st' = t \<and>
    same_frame st st' \<and> session_and_auth st' = session_and_auth st \<and>
    nodes_digest st' = nodes_digest st"
proof -
  let ?p = "d_path d"
  obtain n where n: "container st ?p = Some n" "version_ok ver (n_aversion n)"
      "t = committed_tree st"
    using assms(1) by (auto simp: op_step_def committed_tree_def core_tree_apply
        split: option.splits if_splits)
  obtain acl acl_id where acl:
    "convertACLs (removeUsage (acl_map st) (n_acl_id n)) acls = (acl, acl_id)" by fastforce
  define st1 where "st1 = st\<lparr>acl_map := addUsage acl acl_id\<rparr>"
  have "container st1 ?p = Some n" using n(1) by (simp add: st1_def)
  from updateValue_Some [OF this, of "n_acl_id_update (\<lambda>_. acl_id)"]
  have "commit_delta d st =
      Inr (ZOK, False, st1\<lparr>container := (container st)(?p \<mapsto> n\<lparr>n_acl_id := acl_id\<rparr>)\<rparr>)"
    using n assms(2) acl by (auto simp: commit_delta_def version_ok_def st1_def)
  moreover have "core_tree ((container st)(?p \<mapsto> n\<lparr>n_acl_id := acl_id\<rparr>)) = t"
    using n(1) by (auto simp: n(3) core_tree_upd committed_tree_def core_tree_apply fun_eq_iff)
  ultimately show ?thesis by (simp add: committed_tree_def same_frame_def st1_def)
qed

text \<open>
  Committing a delta that the specification allows does not terminate the server, changes the
  tree as specified, and moves the running digest by the difference at the delta's path.
\<close>

lemma commit_delta_refines:
  assumes "tree_step d (committed_tree st) = Some t" and "\<not> is_failed_multi (d_operation d)"
  shows "\<exists>st'. commit_delta d st =
      Inr (delta_error_code (d_operation d), d_operation d = SubDeltaEnd, st') \<and>
    committed_tree st' = t \<and> same_frame st st' \<and>
    nodes_digest st' = nodes_digest st +
      digest_add st (digest_at (d_path d) (t (d_path d)) -
        digest_at (d_path d) (committed_tree st (d_path d))) \<and>
    session_and_auth st' =
      (case d_operation d of
         AddAuthDelta sid auth \<Rightarrow>
           (session_and_auth st)(sid \<mapsto> bucket (session_and_auth st) sid @ [auth])
       | _ \<Rightarrow> session_and_auth st)"
proof -
  have step: "op_step (d_path d) (d_operation d) (committed_tree st) = Some t"
    using assms(1) by (auto simp: tree_step_def split: if_splits)
  note eff = op_step_effect [OF step]
  show ?thesis
  proof (cases "d_operation d")
    case (CreateNodeDelta stat acls new_data)
    then have "committed_tree st (d_path d) = None"
      using step by (auto simp: op_step_def split: option.splits if_splits)
    with createNode_refines [of "d_path d" stat acls new_data st t] step eff CreateNodeDelta
    show ?thesis
      by (auto simp: commit_delta_def delta_error_code_def digest_at_def)
  next
    case (RemoveNodeDelta ver ow)
    with removeNode_refines [of "d_path d" ver ow st t] step eff show ?thesis
      by (auto simp: commit_delta_def delta_error_code_def digest_at_def digest_add_def)
  next
    case (UpdateNodeDelta f ver)
    with update_refines [of d f ver st t] step eff show ?thesis
      by (auto simp: delta_error_code_def digest_at_def digest_add_def)
  next
    case (SetACLDelta acls ver)
    with setacl_refines [of d acls ver st t] step eff show ?thesis
      by (auto simp: delta_error_code_def digest_at_def digest_add_def)
  qed (use eff assms(2) in \<open>auto simp: commit_delta_def delta_error_code_def committed_tree_def
        same_frame_def digest_add_def is_failed_multi_def fun_upd_idem_iff\<close>)
qed

subsection \<open>Committing a sequence of deltas\<close>

definition tree_digest :: "tree \<Rightarrow> u64" where
  "tree_digest t = (\<Sum>p\<in>dom t. digest_at p (t p))"

lemma tree_digest_upd:
  assumes "finite (dom t)"
  shows "tree_digest (t(p := v)) = tree_digest t + (digest_at p v - digest_at p (t p))"
proof -
  let ?D = "insert p (dom t)"
  have sum_D: "tree_digest u = (\<Sum>q\<in>?D. digest_at q (u q))" if "dom u \<subseteq> ?D" for u
    unfolding tree_digest_def using assms that
    by (intro sum.mono_neutral_left) (auto simp: digest_at_def split: option.splits)
  have "(\<Sum>q\<in>?D. digest_at q ((t(p := v)) q)) =
      digest_at p v + (\<Sum>q\<in>?D - {p}. digest_at q (t q))"
    using assms by (subst sum.remove [of _ p]) auto
  moreover have "(\<Sum>q\<in>?D. digest_at q (t q)) =
      digest_at p (t p) + (\<Sum>q\<in>?D - {p}. digest_at q (t q))"
    using assms by (subst sum.remove [of _ p]) auto
  moreover have "dom (t(p := v)) \<subseteq> ?D" "dom t \<subseteq> ?D" by auto
  ultimately show ?thesis by (simp add: sum_D)
qed

lemma tree_step_finite: "tree_step d t = Some t' \<Longrightarrow> finite (dom t) \<Longrightarrow> finite (dom t')"
  using tree_step_effect [of d t t'] by (auto split: if_splits)

lemma tree_run_finite: "tree_run ds t = Some t' \<Longrightarrow> finite (dom t) \<Longrightarrow> finite (dom t')"
  by (induction ds arbitrary: t) (auto simp: bind_eq_Some_conv dest: tree_step_finite)

lemma tree_step_digest:
  assumes "tree_step d t = Some t'" and "finite (dom t)"
  shows "tree_digest t' =
    tree_digest t + (digest_at (d_path d) (t' (d_path d)) - digest_at (d_path d) (t (d_path d)))"
  using tree_step_effect [OF assms(1)] assms(2) by (auto simp: tree_digest_upd)

text \<open>The deltas of one request, other than an error: they are committed one by one.\<close>

definition plain_op :: "Operation \<Rightarrow> bool" where
  "plain_op op \<longleftrightarrow> is_node_op op \<or> (case op of AddAuthDelta _ _ \<Rightarrow> True | _ \<Rightarrow> False)"

fun auths_of :: "session \<Rightarrow> Delta list \<Rightarrow> AuthID list" where
  "auths_of sid [] = []"
| "auths_of sid (d # ds) =
     (case d_operation d of
        AddAuthDelta s auth \<Rightarrow>
          (if s = sid \<and> d_path d = [] then auth # auths_of sid ds else auths_of sid ds)
      | _ \<Rightarrow> auths_of sid ds)"

lemma auths_of_append [simp]: "auths_of sid (ds @ es) = auths_of sid ds @ auths_of sid es"
  by (induction ds) (auto split: Operation.split)

lemma plain_op_simps:
  "plain_op op \<Longrightarrow> delta_error_code op = ZOK" "plain_op op \<Longrightarrow> op \<noteq> SubDeltaEnd"
  "plain_op op \<Longrightarrow> \<not> is_failed_multi op"
  by (cases op; simp add: plain_op_def delta_error_code_def is_failed_multi_def)+

lemma storage_commit_plain:
  assumes "\<forall>d\<in>set ds. plain_op (d_operation d) \<and> d_zxid d \<le> z"
    and "tree_run ds (committed_tree st) = Some t" and "finite (dom (committed_tree st))"
  shows "\<exists>st'. (\<forall>rest. storage_commit_loop z (ds @ rest) st = storage_commit_loop z rest st') \<and>
    committed_tree st' = t \<and> same_frame st st' \<and>
    nodes_digest st' =
      nodes_digest st + digest_add st (tree_digest t - tree_digest (committed_tree st)) \<and>
    (\<forall>sid. bucket (session_and_auth st') sid = bucket (session_and_auth st) sid @ auths_of sid ds)"
  using assms
proof (induction ds arbitrary: st)
  case Nil
  then show ?case by (auto simp: same_frame_def digest_add_def)
next
  case (Cons d ds)
  obtain t1 where t1: "tree_step d (committed_tree st) = Some t1" "tree_run ds t1 = Some t"
    using Cons.prems(2) by (auto simp: bind_eq_Some_conv)
  have plain: "plain_op (d_operation d)" and z: "\<not> z < d_zxid d" using Cons.prems(1) by auto
  obtain st1 where st1: "commit_delta d st = Inr (ZOK, False, st1)" "committed_tree st1 = t1"
      "same_frame st st1"
      "nodes_digest st1 = nodes_digest st + digest_add st (tree_digest t1 - tree_digest (committed_tree st))"
      "session_and_auth st1 = (case d_operation d of
         AddAuthDelta sid auth \<Rightarrow>
           (session_and_auth st)(sid \<mapsto> bucket (session_and_auth st) sid @ [auth])
       | _ \<Rightarrow> session_and_auth st)"
    using commit_delta_refines [OF t1(1)] plain_op_simps [OF plain]
      tree_step_digest [OF t1(1) Cons.prems(3)] by auto
  have "finite (dom (committed_tree st1))"
    using tree_step_finite [OF t1(1) Cons.prems(3)] st1(2) by simp
  then obtain st2 where st2:
      "\<And>rest. storage_commit_loop z (ds @ rest) st1 = storage_commit_loop z rest st2"
      "committed_tree st2 = t" "same_frame st1 st2"
      "nodes_digest st2 = nodes_digest st1 + digest_add st1 (tree_digest t - tree_digest t1)"
      "\<And>sid. bucket (session_and_auth st2) sid = bucket (session_and_auth st1) sid @ auths_of sid ds"
    using Cons.IH [of st1] Cons.prems(1) t1(2) st1(2) by auto
  have "bucket (session_and_auth st1) sid = bucket (session_and_auth st) sid @ auths_of sid [d]" for sid
    using st1(5) t1(1) by (auto simp: tree_step_def bucket_upd split: Operation.splits if_splits)
  then have "bucket (session_and_auth st2) sid = bucket (session_and_auth st) sid @ auths_of sid (d # ds)"
    for sid using st2(5) auths_of_append [of sid "[d]" ds] by simp
  moreover have "digest_add st1 w = digest_add st w" for w
    using st1(3) by (simp add: digest_add_def same_frame_def)
  ultimately show ?case
    using st1 st2 z same_frame_trans [OF st1(3) st2(3)]
    by (intro exI [of _ st2]) (auto simp: digest_add_def)
qed

end
