(* ===== verification/KeeperPending.thy ===== *)
theory KeeperPending
  imports KeeperTree
begin

text \<open>
  The uncommitted state refines the specification: at any time the indexed deltas, the cached nodes
  and the pending authentications are what the list of deltas determines, and the cached view is
  the committed tree with the pending deltas applied. The lemmas show that adding a delta,
  committing the front of the list and rolling back its end keep this.
\<close>

subsection \<open>The invariant\<close>

definition at_path :: "path \<Rightarrow> Delta list \<Rightarrow> Delta list" where
  "at_path p ds = (if p = [] then [] else filter (\<lambda>d. d_path d = p) ds)"

lemma at_path_append [simp]: "at_path p (ds @ es) = at_path p ds @ at_path p es"
  by (simp add: at_path_def)

lemma at_path_Nil [simp]: "at_path p [] = []" "at_path [] ds = []"
  by (simp_all add: at_path_def)

lemma at_path_Cons:
  "at_path p (d # ds) = (if d_path d = p \<and> p \<noteq> [] then d # at_path p ds else at_path p ds)"
  by (simp add: at_path_def)

lemma set_at_path: "set (at_path p ds) \<subseteq> set ds"
  by (auto simp: at_path_def)

lemma path_effect_at_path: "p \<noteq> [] \<Longrightarrow> path_effect p ds n = fold (\<lambda>d. node_effect (d_operation d)) (at_path p ds) n"
  by (simp add: path_effect_def at_path_def)

definition nonempty :: "'a list \<Rightarrow> 'a list option" where
  "nonempty xs = (if xs = [] then None else Some xs)"

definition index_inv :: "UncommittedState \<Rightarrow> bool" where
  "index_inv us \<longleftrightarrow>
     (\<forall>p. us_deltas_for_path us p = nonempty (at_path p (us_deltas us))) \<and>
     (\<forall>sid. us_session_and_auth us sid = nonempty (auths_of sid (us_deltas us)))"

definition entry_ok :: "container \<Rightarrow> Delta list \<Rightarrow> path \<Rightarrow> UncommittedNode option \<Rightarrow> bool" where
  "entry_ok c ds p e =
     (case e of
        None \<Rightarrow> at_path p ds = []
      | Some e \<Rightarrow>
          at_path p ds \<noteq> [] \<and> map_option core (un_node e) = path_effect p ds (core_tree c p) \<and>
          un_zxid e = d_zxid (last (at_path p ds)))"

definition cache_inv :: "container \<Rightarrow> UncommittedState \<Rightarrow> bool" where
  "cache_inv c us \<longleftrightarrow> (\<forall>p. entry_ok c (us_deltas us) p (map_of (us_nodes us) p))"

definition pending_inv :: "KeeperStorage \<Rightarrow> bool" where
  "pending_inv st \<longleftrightarrow>
     index_inv (uncommitted_state st) \<and> cache_inv (container st) (uncommitted_state st) \<and>
     sorted (map d_zxid (us_deltas (uncommitted_state st))) \<and>
     tree_run (us_deltas (uncommitted_state st)) (committed_tree st) \<noteq> None"

abbreviation pending :: "KeeperStorage \<Rightarrow> Delta list" where
  "pending st \<equiv> us_deltas (uncommitted_state st)"

lemma nonempty_Some [simp]: "nonempty xs = Some ys \<longleftrightarrow> xs = ys \<and> ys \<noteq> []"
  by (auto simp: nonempty_def)

lemma nonempty_None [simp]: "nonempty xs = None \<longleftrightarrow> xs = []"
  by (simp add: nonempty_def)

lemma nonempty_snoc: "nonempty (xs @ [x]) = Some (xs @ [x])"
  by simp

lemma bucket_nonempty [simp]: "m k = nonempty xs \<Longrightarrow> bucket m k = xs"
  by (simp add: bucket_def nonempty_def)

lemma tree_run_root: "tree_run ds t = Some t' \<Longrightarrow> t' [] = t []"
proof (induction ds arbitrary: t)
  case (Cons d ds)
  then obtain t1 where t1: "tree_step d t = Some t1" "tree_run ds t1 = Some t'"
    by (auto simp: bind_eq_Some_conv)
  then show ?case using Cons.IH [OF t1(2)] tree_step_effect [OF t1(1)] by (auto split: if_splits)
qed simp

lemma path_effect_none: "at_path p ds = [] \<Longrightarrow> p \<noteq> [] \<Longrightarrow> path_effect p ds n = n"
  by (simp add: path_effect_at_path)

lemma core_getNode:
  assumes "cache_inv c us"
  shows "map_option core (uncommitted_getNode c us p) =
    (if p = [] then core_tree c [] else path_effect p (us_deltas us) (core_tree c p))"
proof -
  have entry: "entry_ok c (us_deltas us) p (map_of (us_nodes us) p)"
    using assms by (simp add: cache_inv_def)
  show ?thesis
  proof (cases "map_of (us_nodes us) p")
    case None
    then have "at_path p (us_deltas us) = []" using entry by (simp add: entry_ok_def)
    then show ?thesis
      using None path_effect_none [of p "us_deltas us"]
      by (simp add: uncommitted_getNode_def tryGetNodeFromStorage_def core_tree_apply
          option.map_comp comp_def)
  next
    case (Some e)
    then show ?thesis using entry by (auto simp: uncommitted_getNode_def entry_ok_def)
  qed
qed

lemma view_run:
  assumes "pending_inv st"
  shows "tree_run (pending st) (committed_tree st) = Some (view st)"
proof -
  obtain t where t: "tree_run (pending st) (committed_tree st) = Some t"
    using assms by (auto simp: pending_inv_def)
  have "cache_inv (container st) (uncommitted_state st)"
    using assms by (simp add: pending_inv_def)
  from core_getNode [OF this] have "view st p = t p" for p
    using tree_run_root [OF t] tree_run_effect [OF t, of p]
    by (cases "p = []") (simp_all add: view_def committed_tree_def)
  then have "view st = t" by auto
  with t show ?thesis by simp
qed

subsection \<open>Adding deltas\<close>

lemma load_node_core:
  assumes "cache_inv c us"
  shows "map_option core (un_node (load_node c us p)) = map_option core (uncommitted_getNode c us p)"
  by (simp add: load_node_def uncommitted_getNode_def split: option.split)

lemma apply_operation_ok:
  assumes "is_node_op (d_operation d)"
    and "op_step p (d_operation d) t = Some t'" and "map_option core (un_node e) = t p"
  shows "\<exists>e'. apply_operation d e = Inr e' \<and> un_zxid e' = d_zxid d \<and>
    map_option core (un_node e') = node_effect (d_operation d) (t p)"
proof (cases "d_operation d")
  case (UpdateNodeDelta f ver)
  then obtain n where "t p = Some n"
    using assms(2) by (auto simp: op_step_def split: option.splits)
  then obtain m where "un_node e = Some m" "core m = n" using assms(3) by auto
  then show ?thesis
    using UpdateNodeDelta \<open>t p = Some n\<close> by (auto simp: apply_operation_def core_update_fn)
next
  case (CreateNodeDelta stat acls new_data)
  then show ?thesis by (simp add: apply_operation_def flip: new_node_def)
qed (use assms in \<open>simp_all add: apply_operation_def\<close>)

lemma entry_ok_other:
  "p \<noteq> d_path d \<Longrightarrow> entry_ok c (ds @ [d]) p e = entry_ok c ds p e"
  by (cases "p = []") (simp_all add: entry_ok_def at_path_Cons path_effect_def split: option.split)

lemma entry_ok_nopath:
  assumes "d_path d = []"
  shows "entry_ok c (ds @ [d]) p e = entry_ok c ds p e"
proof (cases "p = []")
  case True
  then show ?thesis by (simp add: entry_ok_def split: option.split)
next
  case False
  then show ?thesis using assms entry_ok_other [of p d] by simp
qed

lemma addDelta_inv:
  assumes "pending_inv st" and "tree_step d (view st) = Some t"
    and "\<forall>e\<in>set (pending st). d_zxid e \<le> d_zxid d"
  shows "\<exists>us. addDelta (container st) (uncommitted_state st) d = Inr us \<and>
    us_deltas us = pending st @ [d] \<and>
    pending_inv (st\<lparr>uncommitted_state := us\<rparr>) \<and> view (st\<lparr>uncommitted_state := us\<rparr>) = t"
proof -
  let ?us = "uncommitted_state st" and ?c = "container st"
  have inv: "index_inv ?us" "cache_inv ?c ?us" "sorted (map d_zxid (pending st))"
    using assms(1) by (simp_all add: pending_inv_def)
  have run: "tree_run (pending st @ [d]) (committed_tree st) = Some t"
    using view_run [OF assms(1)] assms(2) by simp
  have srt: "sorted (map d_zxid (pending st @ [d]))"
    using inv(3) assms(3) by (auto simp: sorted_append)
  have "done": ?thesis
    if "addDelta ?c ?us d = Inr us" "us_deltas us = pending st @ [d]" "index_inv us" "cache_inv ?c us"
    for us
  proof -
    have inv': "pending_inv (st\<lparr>uncommitted_state := us\<rparr>)"
      using that srt run by (simp add: pending_inv_def committed_tree_def)
    from view_run [OF this] run that(2) have "view (st\<lparr>uncommitted_state := us\<rparr>) = t"
      by (simp add: committed_tree_def)
    with inv' that show ?thesis by blast
  qed
  show ?thesis
  proof (cases "d_path d = []")
    case True
    then have "\<not> is_node_op (d_operation d)"
      using assms(2) by (auto simp: tree_step_def split: if_splits)
    have cache: "cache_inv ?c us" if "us_nodes us = us_nodes ?us" "us_deltas us = pending st @ [d]"
      for us using inv(2) that True by (simp add: cache_inv_def entry_ok_nopath)
    have index: "index_inv us"
      if "us_deltas us = pending st @ [d]" "us_deltas_for_path us = us_deltas_for_path ?us"
        "\<And>sid. us_session_and_auth us sid = nonempty (auths_of sid (pending st @ [d]))" for us
      using inv(1) that True by (simp add: index_inv_def at_path_Cons)
    show ?thesis
    proof (cases "\<exists>sid auth. d_operation d = AddAuthDelta sid auth")
      case True
      then obtain sid auth where op: "d_operation d = AddAuthDelta sid auth" by blast
      have "us_session_and_auth ?us s = nonempty (auths_of s (pending st))" for s
        using inv(1) by (simp add: index_inv_def)
      then show ?thesis
        by (intro "done" [of "?us\<lparr>us_deltas := pending st @ [d], us_session_and_auth :=
              (us_session_and_auth ?us)(sid \<mapsto> auths_of sid (pending st) @ [auth])\<rparr>"] cache index)
          (simp_all add: addDelta_def op \<open>d_path d = []\<close> nonempty_def)
    next
      case False
      then have "auths_of sid [d] = []" for sid by (auto split: Operation.split)
      then have "auths_of sid (pending st @ [d]) = auths_of sid (pending st)" for sid by simp
      then show ?thesis
        using False inv(1) \<open>\<not> is_node_op (d_operation d)\<close>
        by (intro "done" [of "?us\<lparr>us_deltas := pending st @ [d]\<rparr>"] cache index)
          (auto simp: addDelta_def \<open>d_path d = []\<close> index_inv_def Let_def split: Operation.split)
    qed
  next
    case False
    let ?p = "d_path d"
    have op: "is_node_op (d_operation d)" "op_step ?p (d_operation d) (view st) = Some t"
      using assms(2) False by (auto simp: tree_step_def split: if_splits)
    have "map_option core (un_node (load_node ?c ?us ?p)) = view st ?p"
      by (simp add: load_node_core [OF inv(2)] view_def)
    from apply_operation_ok [OF op this] obtain e where e:
      "apply_operation d (load_node ?c ?us ?p) = Inr e" "un_zxid e = d_zxid d"
      "map_option core (un_node e) = node_effect (d_operation d) (view st ?p)" by blast
    have bucket: "bucket (us_deltas_for_path ?us) ?p = at_path ?p (pending st)"
      using inv(1) by (simp add: index_inv_def)
    let ?u = "?us\<lparr>us_deltas := pending st @ [d],
      us_deltas_for_path := (us_deltas_for_path ?us)(?p \<mapsto> at_path ?p (pending st) @ [d]),
      us_nodes := AList.update ?p e (us_nodes ?us)\<rparr>"
    have "auths_of sid [d] = []" for sid using op(1) by (cases "d_operation d") simp_all
    then have "index_inv ?u"
      using inv(1) False by (simp add: index_inv_def at_path_Cons nonempty_snoc)
    moreover have "cache_inv ?c ?u"
      unfolding cache_inv_def
    proof
      fix p
      have "view st ?p = path_effect ?p (pending st) (core_tree ?c ?p)"
        using core_getNode [OF inv(2), of ?p] False by (simp add: view_def)
      then have "entry_ok ?c (pending st @ [d]) ?p (Some e)"
        using e False by (simp add: entry_ok_def at_path_Cons path_effect_def)
      moreover have "entry_ok ?c (pending st) p (map_of (us_nodes ?us) p)"
        using inv(2) by (simp add: cache_inv_def)
      ultimately show "entry_ok ?c (us_deltas ?u) p (map_of (us_nodes ?u) p)"
        using entry_ok_other [of p d] by (cases "p = ?p") (simp_all add: update_conv')
    qed
    moreover have "addDelta ?c ?us d = Inr ?u"
      using False e(1) bucket by (simp add: addDelta_def applyDelta_def load_node_def)
    ultimately show ?thesis by (intro "done" [of ?u]) simp_all
  qed
qed

lemma add_deltas_inv:
  "pending_inv st \<Longrightarrow> tree_run ds (view st) = Some t \<Longrightarrow>
   \<forall>e\<in>set (pending st). \<forall>d\<in>set ds. d_zxid e \<le> d_zxid d \<Longrightarrow> sorted (map d_zxid ds) \<Longrightarrow>
   \<exists>us. add_deltas ds st = Inr (st\<lparr>uncommitted_state := us\<rparr>) \<and> us_deltas us = pending st @ ds \<and>
     pending_inv (st\<lparr>uncommitted_state := us\<rparr>) \<and> view (st\<lparr>uncommitted_state := us\<rparr>) = t"
proof (induction ds arbitrary: st)
  case Nil
  then show ?case by (auto simp: add_deltas_def addDeltas_def intro!: exI [of _ "uncommitted_state st"])
next
  case (Cons d ds)
  obtain t1 where t1: "tree_step d (view st) = Some t1" "tree_run ds t1 = Some t"
    using Cons.prems(2) by (auto simp: bind_eq_Some_conv)
  obtain us1 where us1: "addDelta (container st) (uncommitted_state st) d = Inr us1"
      "us_deltas us1 = pending st @ [d]" "pending_inv (st\<lparr>uncommitted_state := us1\<rparr>)"
      "view (st\<lparr>uncommitted_state := us1\<rparr>) = t1"
    using addDelta_inv [OF Cons.prems(1) t1(1)] Cons.prems(3) by auto
  have "\<exists>us. add_deltas ds (st\<lparr>uncommitted_state := us1\<rparr>) =
        Inr (st\<lparr>uncommitted_state := us1, uncommitted_state := us\<rparr>) \<and>
      us_deltas us = pending (st\<lparr>uncommitted_state := us1\<rparr>) @ ds \<and>
      pending_inv (st\<lparr>uncommitted_state := us1, uncommitted_state := us\<rparr>) \<and>
      view (st\<lparr>uncommitted_state := us1, uncommitted_state := us\<rparr>) = t"
    using us1 Cons.prems(3,4) t1(2) by (intro Cons.IH) auto
  with us1(1,2) show ?case by (auto simp: add_deltas_def addDeltas_def)
qed

subsection \<open>Committing the front of the list\<close>

text \<open>The indexes, relative to the deltas that the loop of \<open>commit\<close> has not yet removed.\<close>

definition index_ok :: "UncommittedState \<Rightarrow> Delta list \<Rightarrow> bool" where
  "index_ok us ds \<longleftrightarrow>
     (\<forall>p. us_deltas_for_path us p = nonempty (at_path p ds)) \<and>
     (\<forall>sid. us_session_and_auth us sid = nonempty (auths_of sid ds))"

lemma index_inv_ok: "index_inv us \<longleftrightarrow> index_ok us (us_deltas us)"
  by (simp add: index_inv_def index_ok_def)

definition settled :: "zxid \<Rightarrow> Delta list \<Rightarrow> path \<Rightarrow> bool" where
  "settled z ds p \<longleftrightarrow> at_path p ds = [] \<or> z < d_zxid (hd (at_path p ds))"

lemma put_nonempty_apply: "put_nonempty m k xs l = (if l = k then nonempty xs else m l)"
  by (simp add: put_nonempty_def nonempty_def)

lemma commit_front_ok:
  assumes "index_ok us (d # ds)" and "d_path d \<noteq> [] \<longrightarrow> is_node_op (d_operation d)"
  shows "\<exists>us'. commit_front z d (m, us) =
      Inr (if d_path d \<noteq> [] \<and> settled z ds (d_path d) then hs_insert (d_path d) m else m, us') \<and>
    index_ok us' ds \<and> us_nodes us' = us_nodes us \<and> us_deltas us' = us_deltas us"
proof -
  have dfp: "us_deltas_for_path us p = nonempty (at_path p (d # ds))"
    and auth: "us_session_and_auth us sid = nonempty (auths_of sid (d # ds))" for p sid
    using assms(1) by (simp_all add: index_ok_def)
  show ?thesis
  proof (cases "d_path d = []")
    case False
    then have "is_node_op (d_operation d)" using assms(2) by simp
    then have "auths_of sid (d # ds) = auths_of sid ds" for sid
      by (cases "d_operation d") simp_all
    then show ?thesis
      using False dfp auth
      by (auto simp: commit_front_def at_path_Cons settled_def index_ok_def put_nonempty_apply
          nonempty_def)
  next
    case True
    show ?thesis
    proof (cases "\<exists>sid auth. d_operation d = AddAuthDelta sid auth")
      case True
      then obtain sid auth where "d_operation d = AddAuthDelta sid auth" by blast
      then show ?thesis
        using \<open>d_path d = []\<close> dfp auth
        by (auto simp: commit_front_def at_path_Cons index_ok_def put_nonempty_apply bucket_def
            nonempty_def)
    next
      case False
      then have "auths_of s (d # ds) = auths_of s ds" for s by (auto split: Operation.split)
      then show ?thesis
        using False \<open>d_path d = []\<close> dfp auth
        by (auto simp: commit_front_def at_path_Cons index_ok_def split: Operation.split)
    qed
  qed
qed

text \<open>The loop removes a block of deltas of the transaction and collects the settled paths.\<close>

lemma commit_loop_block:
  "index_ok us (b @ rest) \<Longrightarrow>
   \<forall>d\<in>set b. d_zxid d = z \<and> d_operation d \<noteq> SubDeltaEnd \<and>
     (d_path d \<noteq> [] \<longrightarrow> is_node_op (d_operation d)) \<Longrightarrow>
   \<exists>m' us'. commit_loop z (b @ tail) (m, us) = commit_loop z tail (m', us') \<and> index_ok us' rest \<and>
     us_nodes us' = us_nodes us \<and> distinct m' = distinct m \<and>
     set m' = set m \<union> {p. at_path p b \<noteq> [] \<and> settled z rest p}"
proof (induction b arbitrary: m us)
  case Nil
  then show ?case by auto
next
  case (Cons d b)
  have d: "d_zxid d = z" "d_operation d \<noteq> SubDeltaEnd" "d_path d \<noteq> [] \<longrightarrow> is_node_op (d_operation d)"
    using Cons.prems(2) by simp_all
  let ?m = "if d_path d \<noteq> [] \<and> settled z (b @ rest) (d_path d) then hs_insert (d_path d) m else m"
  obtain us1 where us1: "commit_front z d (m, us) = Inr (?m, us1)" "index_ok us1 (b @ rest)"
      "us_nodes us1 = us_nodes us"
    using commit_front_ok [of us d "b @ rest" z m] Cons.prems(1) d(3) by auto
  obtain m' us' where m': "commit_loop z (b @ tail) (?m, us1) = commit_loop z tail (m', us')"
      "index_ok us' rest" "us_nodes us' = us_nodes us1" "distinct m' = distinct ?m"
      "set m' = set ?m \<union> {p. at_path p b \<noteq> [] \<and> settled z rest p}"
    using Cons.IH [OF us1(2), of ?m] Cons.prems(2) by auto
  have "settled z (b @ rest) p \<longleftrightarrow> at_path p b = [] \<and> settled z rest p" for p
  proof (cases "at_path p b")
    case more: (Cons x xs)
    then have "x \<in> set b" using set_at_path [of p b] by auto
    then show ?thesis using more Cons.prems(2) by (simp add: settled_def)
  qed (simp add: settled_def)
  then have "set m' = set m \<union> {p. at_path p (d # b) \<noteq> [] \<and> settled z rest p}"
    using m'(5) by (auto simp: at_path_Cons)
  moreover have "distinct m' = distinct m" using m'(4) by simp
  ultimately show ?case using us1 m'(1,2,3) d by auto
qed

lemma drop_unmodified_entry:
  assumes "map_of (us_nodes us) p = Some e"
  shows "map_of (us_nodes (drop_unmodified z p us)) q =
      (if q = p \<and> un_zxid e = z then None else map_of (us_nodes us) q) \<and>
    us_deltas (drop_unmodified z p us) = us_deltas us \<and>
    us_deltas_for_path (drop_unmodified z p us) = us_deltas_for_path us \<and>
    us_session_and_auth (drop_unmodified z p us) = us_session_and_auth us"
  using assms by (simp add: drop_unmodified_def Let_def update_conv' delete_conv')

lemma drop_unmodified_fold:
  "distinct m \<Longrightarrow> \<forall>p\<in>set m. map_of (us_nodes us) p \<noteq> None \<Longrightarrow>
   (let us' = fold (drop_unmodified z) m us in
    map_of (us_nodes us') q =
      (if q \<in> set m \<and> un_zxid (the (map_of (us_nodes us) q)) = z then None
       else map_of (us_nodes us) q) \<and>
    us_deltas us' = us_deltas us \<and> us_deltas_for_path us' = us_deltas_for_path us \<and>
    us_session_and_auth us' = us_session_and_auth us)"
proof (induction m arbitrary: us)
  case (Cons p m)
  then obtain e where e: "map_of (us_nodes us) p = Some e" by auto
  let ?us = "drop_unmodified z p us"
  note drop = drop_unmodified_entry [OF e, of z]
  have "\<forall>r\<in>set m. map_of (us_nodes ?us) r \<noteq> None"
    using Cons.prems drop by auto
  with Cons.IH [of ?us] Cons.prems(1) drop [of q] e show ?case by (auto simp: Let_def)
qed simp

lemma last_at_path_zxid:
  assumes "sorted (map d_zxid ds)" and "at_path p ds \<noteq> []"
  shows "d_zxid (hd (at_path p ds)) \<le> d_zxid (last (at_path p ds))"
proof -
  have "sorted (map d_zxid (at_path p ds))"
    using assms(1) by (simp add: at_path_def sorted_filter)
  with assms(2) show ?thesis
    by (cases "at_path p ds") (auto simp: last_ConsR)
qed

lemma entry_ok_cong: "at_path p ds = at_path p es \<Longrightarrow> entry_ok c ds p e = entry_ok c es p e"
  by (cases "p = []") (simp_all add: entry_ok_def path_effect_at_path split: option.split)

text \<open>An entry survives the commit of the deltas \<open>b\<close> unless nothing is pending at its path.\<close>

lemma entry_ok_commit:
  assumes "entry_ok c (b @ rest) p x" and "p \<noteq> [] \<Longrightarrow> core_tree c' p = path_effect p b (core_tree c p)"
    and "sorted (map d_zxid rest)" and "\<forall>d\<in>set b. d_zxid d = z"
  shows "entry_ok c' rest p
    (if (at_path p b \<noteq> [] \<and> settled z rest p) \<and> un_zxid (the x) = z then None else x)"
proof (cases x)
  case None
  then show ?thesis using assms(1) by (simp add: entry_ok_def)
next
  case (Some e)
  then have ne: "at_path p (b @ rest) \<noteq> []" "p \<noteq> []"
    and e: "map_option core (un_node e) = path_effect p (b @ rest) (core_tree c p)"
      "un_zxid e = d_zxid (last (at_path p (b @ rest)))"
    using assms(1) by (auto simp: entry_ok_def)
  have eff: "path_effect p (b @ rest) (core_tree c p) = path_effect p rest (core_tree c' p)"
    using assms(2) ne(2) by (simp add: path_effect_def)
  show ?thesis
  proof (cases "at_path p rest = []")
    case True
    then have "last (at_path p (b @ rest)) \<in> set b"
      using ne(1) set_at_path [of p b] last_in_set by fastforce
    then show ?thesis using True ne e assms(4) Some by (simp add: entry_ok_def settled_def)
  next
    case False
    then have "settled z rest p \<Longrightarrow> un_zxid e \<noteq> z"
      using e(2) last_at_path_zxid [OF assms(3) False] by (simp add: settled_def)
    then show ?thesis using False Some e eff by (auto simp: entry_ok_def)
  qed
qed

lemma uncommitted_commit_block:
  assumes "index_inv us" and "cache_inv c us" and ds: "us_deltas us = b @ tail"
    and srt: "sorted (map d_zxid (us_deltas us))"
    and b: "\<forall>d\<in>set b. d_zxid d = z \<and> d_operation d \<noteq> SubDeltaEnd \<and>
      (d_path d \<noteq> [] \<longrightarrow> is_node_op (d_operation d))"
    and tail: "tail = rest \<and> (rest = [] \<or> d_zxid (hd rest) \<noteq> z) \<or>
      (\<exists>s. tail = s # rest \<and> d_zxid s = z \<and> d_operation s = SubDeltaEnd \<and> d_path s = [])"
    and c': "\<And>p. p \<noteq> [] \<Longrightarrow> core_tree c' p = path_effect p b (core_tree c p)"
  shows "\<exists>us'. uncommitted_commit z us = Inr us' \<and> us_deltas us' = rest \<and> index_inv us' \<and>
    cache_inv c' us'"
proof -
  have at_back: "at_path p tail = at_path p rest" and auth_back: "auths_of sid tail = auths_of sid rest"
    for p sid using tail by (auto simp: at_path_Cons)
  have "index_ok us (b @ rest)"
    using assms(1) at_back auth_back by (simp add: index_inv_ok index_ok_def ds)
  from commit_loop_block [OF this b, of tail "[]"] obtain m us1 where
    m: "commit_loop z (b @ tail) ([], us) = commit_loop z tail (m, us1)" "index_ok us1 rest"
      "us_nodes us1 = us_nodes us" "distinct m" "set m = {p. at_path p b \<noteq> [] \<and> settled z rest p}"
    by auto
  have "commit_loop z tail (m, us1) = Inr (m, us1\<lparr>us_deltas := rest\<rparr>)"
    using tail by (cases rest) auto
  with m(1) have run: "uncommitted_commit z us =
      Inr (fold (drop_unmodified z) m (us1\<lparr>us_deltas := rest\<rparr>))"
    by (simp add: uncommitted_commit_def ds)
  let ?us = "fold (drop_unmodified z) m (us1\<lparr>us_deltas := rest\<rparr>)"
  have entry: "entry_ok c (b @ rest) p (map_of (us_nodes us) p)" for p
    using assms(2) entry_ok_cong [of p "b @ rest" "us_deltas us"] at_back
    by (simp add: cache_inv_def ds)
  have "map_of (us_nodes us) p \<noteq> None" if "p \<in> set m" for p
    using entry [of p] that m(5) by (cases "map_of (us_nodes us) p") (auto simp: entry_ok_def)
  then have "\<forall>p\<in>set m. map_of (us_nodes (us1\<lparr>us_deltas := rest\<rparr>)) p \<noteq> None"
    using m(3) by simp
  note drop = drop_unmodified_fold [OF m(4) this, of z, unfolded Let_def]
  have rest: "sorted (map d_zxid rest)" using srt ds tail by (auto simp: sorted_append)
  have bz: "\<forall>d\<in>set b. d_zxid d = z" using b by blast
  have nodes: "map_of (us_nodes ?us) p =
      (if (at_path p b \<noteq> [] \<and> settled z rest p) \<and> un_zxid (the (map_of (us_nodes us) p)) = z
       then None else map_of (us_nodes us) p)" for p
    using drop [of p] by (simp add: m(3,5))
  have "entry_ok c' rest p (map_of (us_nodes ?us) p)" for p
    unfolding nodes by (rule entry_ok_commit [OF entry c' rest bz])
  with run drop m(2) show ?thesis
    by (intro exI [of _ ?us]) (simp add: index_inv_ok index_ok_def cache_inv_def)
qed

text \<open>
  The end of a block in the list of deltas: either the block is closed by a \<open>SubDeltaEnd\<close> of the
  transaction, or the transaction ends with it.
\<close>

definition block_end :: "zxid \<Rightarrow> Delta list \<Rightarrow> Delta list \<Rightarrow> bool" where
  "block_end z tail rest \<longleftrightarrow>
     tail = rest \<and> (\<forall>d\<in>set rest. z < d_zxid d) \<or>
     (\<exists>s. tail = s # rest \<and> d_zxid s = z \<and> d_operation s = SubDeltaEnd \<and> d_path s = [])"

lemma commit_uncommitted_block:
  assumes "index_inv (uncommitted_state st)" and "cache_inv c (uncommitted_state st)"
    and "sorted (map d_zxid (pending st))" and "pending st = b @ tail" and "block_end z tail rest"
    and "\<forall>d\<in>set b. d_zxid d = z \<and> d_operation d \<noteq> SubDeltaEnd \<and>
      (d_path d \<noteq> [] \<longrightarrow> is_node_op (d_operation d))"
    and "tree_run b (core_tree c) = Some (committed_tree st)"
    and "tree_run rest (committed_tree st) \<noteq> None"
  shows "\<exists>us. commit_uncommitted z st = Inr (st\<lparr>uncommitted_state := us\<rparr>) \<and> us_deltas us = rest \<and>
    pending_inv (st\<lparr>uncommitted_state := us\<rparr>)"
proof -
  have "tail = rest \<and> (rest = [] \<or> d_zxid (hd rest) \<noteq> z) \<or>
      (\<exists>s. tail = s # rest \<and> d_zxid s = z \<and> d_operation s = SubDeltaEnd \<and> d_path s = [])"
    using assms(5) by (cases rest) (auto simp: block_end_def)
  moreover have "core_tree (container st) p = path_effect p b (core_tree c p)" if "p \<noteq> []" for p
    using tree_run_effect [OF assms(7) that] by (simp add: committed_tree_def)
  ultimately obtain us where us: "uncommitted_commit z (uncommitted_state st) = Inr us"
      "us_deltas us = rest" "index_inv us" "cache_inv (container st) us"
    using uncommitted_commit_block [OF assms(1,2,4) _ assms(6)] assms(3) by metis
  have "sorted (map d_zxid rest)"
    using assms(3,4,5) by (auto simp: block_end_def sorted_append)
  with us assms(8) show ?thesis
    by (auto simp: commit_uncommitted_def pending_inv_def committed_tree_def)
qed

lemma tree_run_no_path:
  assumes "d_path s = []" and "\<not> is_node_op (d_operation s)"
  shows "tree_run (s # ds) t = tree_run ds t"
  using assms by (cases "d_operation s") (simp_all add: tree_step_def op_step_def)

lemma tree_run_block_end:
  "block_end z tail rest \<Longrightarrow> tree_run tail t = tree_run rest t"
  by (auto simp: block_end_def tree_step_def op_step_def)

text \<open>
  Committing a block of plain deltas: the storage applies them, the uncommitted state forgets them,
  and what a client sees through the uncommitted state does not change.
\<close>

lemma commit_block:
  assumes "pending_inv st" and "finite (dom (committed_tree st))"
    and "pending st = b @ tail" and "block_end z tail rest"
    and "\<forall>d\<in>set b. d_zxid d = z \<and> plain_op (d_operation d)"
  obtains st1 us where "storage_commit z st = Inr (ZOK, st1)"
    and "commit_uncommitted z st1 = Inr (st1\<lparr>uncommitted_state := us\<rparr>)" and "us_deltas us = rest"
    and "pending_inv (st1\<lparr>uncommitted_state := us\<rparr>)"
    and "view (st1\<lparr>uncommitted_state := us\<rparr>) = view st"
    and "tree_run b (committed_tree st) = Some (committed_tree st1)" and "same_frame st st1"
    and "nodes_digest st1 = nodes_digest st +
      digest_add st (tree_digest (committed_tree st1) - tree_digest (committed_tree st))"
    and "\<And>sid. bucket (session_and_auth st1) sid = bucket (session_and_auth st) sid @ auths_of sid b"
proof -
  have run: "tree_run (b @ tail) (committed_tree st) = Some (view st)"
    using view_run [OF assms(1)] assms(3) by simp
  then obtain t where t: "tree_run b (committed_tree st) = Some t" "tree_run tail t = Some (view st)"
    by (auto simp: bind_eq_Some_conv)
  have "\<forall>d\<in>set b. plain_op (d_operation d) \<and> d_zxid d \<le> z" using assms(5) by simp
  from storage_commit_plain [OF this t(1) assms(2)] obtain st1 where st1:
    "\<And>es. storage_commit_loop z (b @ es) st = storage_commit_loop z es st1"
    "committed_tree st1 = t" "same_frame st st1"
    "nodes_digest st1 = nodes_digest st + digest_add st (tree_digest t - tree_digest (committed_tree st))"
    "\<And>sid. bucket (session_and_auth st1) sid = bucket (session_and_auth st) sid @ auths_of sid b"
    by blast
  have "storage_commit_loop z tail st1 = Inr (ZOK, st1)"
    using assms(4) by (cases rest) (auto simp: block_end_def commit_delta_def)
  then have commit: "storage_commit z st = Inr (ZOK, st1)"
    using st1(1) assms(3) by (simp add: storage_commit_def)
  have us: "uncommitted_state st1 = uncommitted_state st" using st1(3) by (simp add: same_frame_def)
  have b: "d_path d \<noteq> [] \<longrightarrow> is_node_op (d_operation d)" if mem: "d \<in> set b" for d
  proof -
    obtain b1 b2 where "b = b1 @ d # b2" using split_list [OF mem] by blast
    then obtain u v where "tree_step d u = Some v"
      using t(1) by (auto simp: bind_eq_Some_conv)
    then show ?thesis by (auto simp: tree_step_def split: if_splits)
  qed
  have "tree_run rest (committed_tree st1) = Some (view st)"
    using t(2) tree_run_block_end [OF assms(4)] st1(2) by simp
  moreover have "tree_run b (core_tree (container st)) = Some (committed_tree st1)"
    using t(1) st1(2) by (simp add: committed_tree_def)
  moreover have "\<forall>d\<in>set b. d_zxid d = z \<and> d_operation d \<noteq> SubDeltaEnd \<and>
      (d_path d \<noteq> [] \<longrightarrow> is_node_op (d_operation d))"
    using assms(5) b plain_op_simps(2) by blast
  ultimately obtain us1 where us1: "commit_uncommitted z st1 = Inr (st1\<lparr>uncommitted_state := us1\<rparr>)"
      "us_deltas us1 = rest" "pending_inv (st1\<lparr>uncommitted_state := us1\<rparr>)"
    using commit_uncommitted_block [of st1 "container st" b tail z rest] assms(1,3,4) us
    by (auto simp: pending_inv_def)
  have "view (st1\<lparr>uncommitted_state := us1\<rparr>) = view st"
    using view_run [OF us1(3)] us1(2) \<open>tree_run rest (committed_tree st1) = Some (view st)\<close>
    by (simp add: committed_tree_def)
  with us1 show ?thesis
    using that [OF commit us1(1)] t(1) st1(2-5) by simp
qed

lemma commit_error_block:
  assumes "pending_inv st" and "pending st = d # tail" and "block_end z tail rest"
    and "d_operation d = ErrorDelta e" and "e \<noteq> ZOK" and "d_path d = []" and "d_zxid d = z"
  obtains us where "storage_commit z st = Inr (e, st)"
    and "commit_uncommitted z st = Inr (st\<lparr>uncommitted_state := us\<rparr>)" and "us_deltas us = rest"
    and "pending_inv (st\<lparr>uncommitted_state := us\<rparr>)"
    and "view (st\<lparr>uncommitted_state := us\<rparr>) = view st"
proof -
  have commit: "storage_commit z st = Inr (e, st)"
    using assms by (simp add: storage_commit_def commit_delta_def)
  have run: "tree_run rest (committed_tree st) = Some (view st)"
    using view_run [OF assms(1)] assms(2,4,6) tree_run_block_end [OF assms(3)]
    by (simp add: tree_step_def op_step_def)
  obtain us where us: "commit_uncommitted z st = Inr (st\<lparr>uncommitted_state := us\<rparr>)"
      "us_deltas us = rest" "pending_inv (st\<lparr>uncommitted_state := us\<rparr>)"
    using commit_uncommitted_block [of st "container st" "[d]" tail z rest] assms run
    by (auto simp: pending_inv_def tree_step_def op_step_def committed_tree_def)
  have "view (st\<lparr>uncommitted_state := us\<rparr>) = view st"
    using view_run [OF us(3)] us(2) run by (simp add: committed_tree_def)
  with that [OF commit us] show ?thesis .
qed

subsection \<open>Ephemeral nodes\<close>

text \<open>The nodes a session owns, and the map of ephemeral nodes that the storage keeps.\<close>

definition eph_set :: "tree \<Rightarrow> session \<Rightarrow> path set" where
  "eph_set t sid = {p. \<exists>n. t p = Some n \<and> ephemeralOwner n = sid}"

definition eph_entry :: "path list option \<Rightarrow> path set \<Rightarrow> bool" where
  "eph_entry x P =
     (case x of None \<Rightarrow> P = {} | Some ps \<Rightarrow> ps \<noteq> [] \<and> distinct ps \<and> set ps = P)"

definition eph_ok :: "(session \<rightharpoonup> path list) \<Rightarrow> tree \<Rightarrow> bool" where
  "eph_ok e t \<longleftrightarrow> (\<forall>sid. sid \<noteq> 0 \<longrightarrow> eph_entry (e sid) (eph_set t sid))"

lemma eph_entry_insert:
  "eph_entry (e sid) P \<Longrightarrow> eph_entry (Some (hs_insert p (bucket e sid))) (insert p P)"
  by (cases "e sid") (simp_all add: eph_entry_def bucket_def)

lemma eph_entry_erase:
  "eph_entry (Some ps) P \<Longrightarrow> eph_entry (nonempty (hs_erase p ps)) (P - {p})"
  using set_hs_erase [of p ps] by (cases "hs_erase p ps = []") (auto simp: eph_entry_def nonempty_def)

lemma eph_entry_member: "eph_entry x P \<Longrightarrow> p \<in> P \<Longrightarrow> \<exists>ps. x = Some ps \<and> p \<in> set ps"
  by (cases x) (auto simp: eph_entry_def)

lemma eph_entry_bucket: "eph_entry (e sid) P \<Longrightarrow> set (bucket e sid) = P \<and> distinct (bucket e sid)"
  by (cases "e sid") (auto simp: eph_entry_def bucket_def)

lemma ephemeralOwner_new_node [simp]: "ephemeralOwner (new_node stat new_data) = st_ephemeralOwner stat"
  by (simp add: new_node_def ephemeralOwner_def isEphemeral_def setData_def copyStats_def
      Node_default_def Let_def setNumChildren_def setEphemeralOwner_def)

lemma isEphemeral_new_node [simp]: "isEphemeral (new_node stat new_data) \<longleftrightarrow> st_ephemeralOwner stat \<noteq> 0"
  by (simp add: new_node_def isEphemeral_def setData_def copyStats_def
      Node_default_def Let_def setNumChildren_def setEphemeralOwner_def)

lemma eph_set_upd:
  "eph_set (t(p := v)) sid =
     (if (\<exists>n. v = Some n \<and> ephemeralOwner n = sid) then insert p (eph_set t sid) else eph_set t sid - {p})"
  by (auto simp: eph_set_def)

lemma eph_ok_register:
  assumes "eph_ok e t" and "\<And>s. s \<noteq> 0 \<Longrightarrow> eph_set t' s = (if s = sid then insert p (eph_set t s) else eph_set t s)"
  shows "eph_ok (e(sid \<mapsto> hs_insert p (bucket e sid))) t'"
  using assms eph_entry_insert [of e sid "eph_set t sid" p] by (simp add: eph_ok_def)

lemma eph_ok_unregister:
  assumes "eph_ok e t" and "sid \<noteq> 0" and "p \<in> eph_set t sid"
    and "\<And>s. s \<noteq> 0 \<Longrightarrow> eph_set t' s = (if s = sid then eph_set t s - {p} else eph_set t s)"
  obtains ps where "e sid = Some ps" and "eph_ok (put_nonempty e sid (hs_erase p ps)) t'"
proof -
  obtain ps where ps: "e sid = Some ps"
    using assms(1-3) eph_entry_member by (meson eph_ok_def)
  have "eph_entry (Some ps) (eph_set t sid)" using assms(1,2) ps by (metis eph_ok_def)
  from eph_entry_erase [OF this, of p] have "eph_ok (put_nonempty e sid (hs_erase p ps)) t'"
    using assms(1,4) by (simp add: eph_ok_def put_nonempty_apply)
  with ps that show ?thesis by blast
qed

lemma eph_ok_cong: "eph_ok e t \<Longrightarrow> (\<And>s. s \<noteq> 0 \<Longrightarrow> eph_set t' s = eph_set t s) \<Longrightarrow> eph_ok e t'"
  by (simp add: eph_ok_def)

text \<open>Rolling a delta back restores the map of ephemeral nodes of the tree before the delta.\<close>

lemma undo_ephemeral_ok:
  assumes "tree_step d t = Some t'" and "eph_ok (ephemerals st) t'"
  shows "\<exists>e. (if d_path d \<noteq> [] then undo_ephemeral d st else Inr st) = Inr (st\<lparr>ephemerals := e\<rparr>) \<and>
    eph_ok e t"
proof (cases "d_path d = []")
  case True
  then have "t' = t" using tree_step_effect [OF assms(1)] by simp
  with True assms(2) show ?thesis by (intro exI [of _ "ephemerals st"]) simp
next
  case False
  let ?p = "d_path d"
  have step: "op_step ?p (d_operation d) t = Some t'"
    using assms(1) False by (auto simp: tree_step_def split: if_splits)
  note eff = op_step_effect [OF step]
  have same: ?thesis if "undo_ephemeral d st = Inr st" "\<And>s. s \<noteq> 0 \<Longrightarrow> eph_set t s = eph_set t' s"
    using that eph_ok_cong [OF assms(2)] False by (intro exI [of _ "ephemerals st"]) simp
  show ?thesis
  proof (cases "d_operation d")
    case (CreateNodeDelta stat acls new_data)
    then have "t ?p = None" using step by (auto simp: op_step_def split: option.splits if_splits)
    show ?thesis
    proof (cases "st_ephemeralOwner stat = 0")
      case True
      then show ?thesis
        using CreateNodeDelta eff \<open>t ?p = None\<close>
        by (intro same) (auto simp: undo_ephemeral_def eph_set_upd eph_set_def)
    next
      case ne: False
      have "\<And>s. s \<noteq> 0 \<Longrightarrow> eph_set t s =
          (if s = st_ephemeralOwner stat then eph_set t' s - {?p} else eph_set t' s)"
        using CreateNodeDelta eff \<open>t ?p = None\<close> by (auto simp: eph_set_upd eph_set_def)
      moreover have "?p \<in> eph_set t' (st_ephemeralOwner stat)"
        using CreateNodeDelta eff by (simp add: eph_set_upd)
      ultimately obtain ps where "ephemerals st (st_ephemeralOwner stat) = Some ps"
          "eph_ok (put_nonempty (ephemerals st) (st_ephemeralOwner stat) (hs_erase ?p ps)) t"
        using eph_ok_unregister [OF assms(2) ne] by blast
      with CreateNodeDelta ne False show ?thesis
        by (auto simp: undo_ephemeral_def unregisterEphemeralPath_def)
    qed
  next
    case (RemoveNodeDelta ver ow)
    then obtain n where n: "t ?p = Some n" "ow = ephemeralOwner n" "t' = t(?p := None)"
      using step by (auto simp: op_step_def split: option.splits if_splits)
    show ?thesis
    proof (cases "ow = 0")
      case True
      with RemoveNodeDelta n show ?thesis
        by (intro same) (auto simp: undo_ephemeral_def eph_set_upd eph_set_def)
    next
      case ne: False
      have "eph_ok ((ephemerals st)(ow \<mapsto> hs_insert ?p (bucket (ephemerals st) ow))) t"
        using n by (intro eph_ok_register [OF assms(2)]) (auto simp: eph_set_upd eph_set_def)
      with RemoveNodeDelta ne False show ?thesis
        by (auto simp: undo_ephemeral_def registerEphemeralPath_def)
    qed
  next
    case (UpdateNodeDelta f ver)
    then obtain n where n: "t ?p = Some n" "t' = t(?p \<mapsto> update_fn f n)"
      using step by (auto simp: op_step_def split: option.splits if_splits)
    then show ?thesis
      using UpdateNodeDelta by (intro same) (auto simp: undo_ephemeral_def eph_set_upd eph_set_def)
  next
    case (SetACLDelta acls ver)
    then show ?thesis using eff by (intro same) (auto simp: undo_ephemeral_def)
  qed (use assms(1) False in \<open>auto simp: tree_step_def\<close>)
qed

subsection \<open>Rolling back the end of the list\<close>

lemma pop_delta_ok:
  assumes "index_ok us (ds @ [d])" and "d_path d \<noteq> [] \<longrightarrow> is_node_op (d_operation d)"
  shows "\<exists>us'. pop_delta d us = Inr us' \<and> index_ok us' ds \<and> us_nodes us' = us_nodes us"
proof -
  have dfp: "us_deltas_for_path us p = nonempty (at_path p ds @ at_path p [d])"
    and auth: "us_session_and_auth us sid = nonempty (auths_of sid ds @ auths_of sid [d])" for p sid
    using assms(1) by (simp_all add: index_ok_def)
  show ?thesis
  proof (cases "d_path d = []")
    case False
    let ?p = "d_path d"
    have "us_deltas_for_path us ?p = Some (at_path ?p ds @ [d])"
      using dfp [of ?p] False by (simp add: at_path_Cons nonempty_def)
    then have "pop_delta d us =
        Inr (us\<lparr>us_deltas_for_path := put_nonempty (us_deltas_for_path us) ?p (at_path ?p ds)\<rparr>)"
      using False by (cases "at_path ?p ds") (simp_all add: pop_delta_def butlast_append)
    moreover have "auths_of sid [d] = []" for sid
      using assms(2) False by (cases "d_operation d") simp_all
    ultimately show ?thesis
      using dfp auth by (auto simp: index_ok_def put_nonempty_apply at_path_Cons)
  next
    case True
    show ?thesis
    proof (cases "\<exists>sid auth. d_operation d = AddAuthDelta sid auth")
      case True
      then obtain sid a where op: "d_operation d = AddAuthDelta sid a" by blast
      have "bucket (us_session_and_auth us) sid = auths_of sid ds @ [a]"
        using auth [of sid] op \<open>d_path d = []\<close> by (simp add: bucket_def nonempty_def)
      then have "pop_delta d us =
          Inr (us\<lparr>us_session_and_auth := put_nonempty (us_session_and_auth us) sid (auths_of sid ds)\<rparr>)"
        using op \<open>d_path d = []\<close>
        by (cases "auths_of sid ds") (simp_all add: pop_delta_def butlast_append)
      then show ?thesis
        using dfp auth op \<open>d_path d = []\<close>
        by (auto simp: index_ok_def put_nonempty_apply at_path_Cons)
    next
      case False
      then have "auths_of s [d] = []" for s by (auto split: Operation.split)
      moreover have "pop_delta d us = Inr us"
        using False \<open>d_path d = []\<close> by (auto simp: pop_delta_def split: Operation.split)
      ultimately show ?thesis
        using dfp auth \<open>d_path d = []\<close> by (simp add: index_ok_def at_path_Cons)
    qed
  qed
qed

lemma rollback_loop_ok:
  "index_ok (uncommitted_state st) (keep @ drp) \<Longrightarrow> tree_run drp t = Some t' \<Longrightarrow>
   eph_ok (ephemerals st) t' \<Longrightarrow> \<forall>d\<in>set drp. \<not> d_zxid d < z \<Longrightarrow> \<forall>d\<in>set keep. d_zxid d < z \<Longrightarrow>
   \<exists>us e. rollback_loop z (rev (keep @ drp)) st =
       Inr (st\<lparr>uncommitted_state := us, ephemerals := e\<rparr>) \<and>
     us_deltas us = keep \<and> index_ok us keep \<and> us_nodes us = us_nodes (uncommitted_state st) \<and>
     eph_ok e t"
proof (induction drp arbitrary: st t' rule: rev_induct)
  case Nil
  let ?us = "(uncommitted_state st)\<lparr>us_deltas := keep\<rparr>"
  have "rollback_loop z (rev keep) st = Inr (st\<lparr>uncommitted_state := ?us\<rparr>)"
    using Nil.prems(5) by (cases keep rule: rev_cases) simp_all
  moreover have "index_ok ?us keep" using Nil.prems(1) by (simp add: index_ok_def)
  ultimately show ?case
    using Nil.prems by (intro exI [of _ ?us] exI [of _ "ephemerals st"]) simp
next
  case (snoc d drp)
  obtain t1 where t1: "tree_run drp t = Some t1" "tree_step d t1 = Some t'"
    using snoc.prems(2) by (auto simp: bind_eq_Some_conv)
  obtain e1 where e1: "(if d_path d \<noteq> [] then undo_ephemeral d st else Inr st) =
      Inr (st\<lparr>ephemerals := e1\<rparr>)" "eph_ok e1 t1"
    using undo_ephemeral_ok [OF t1(2) snoc.prems(3)] by blast
  have "d_path d \<noteq> [] \<longrightarrow> is_node_op (d_operation d)"
    using t1(2) by (auto simp: tree_step_def split: if_splits)
  then obtain us1 where us1: "pop_delta d (uncommitted_state st) = Inr us1"
      "index_ok us1 (keep @ drp)" "us_nodes us1 = us_nodes (uncommitted_state st)"
    using pop_delta_ok [of "uncommitted_state st" "keep @ drp" d] snoc.prems(1) by auto
  let ?st = "st\<lparr>ephemerals := e1, uncommitted_state := us1\<rparr>"
  have "rollback_loop z (rev (keep @ drp @ [d])) st = rollback_loop z (rev (keep @ drp)) ?st"
    using snoc.prems(4) e1(1) us1(1) by simp
  moreover obtain us e where "rollback_loop z (rev (keep @ drp)) ?st =
        Inr (?st\<lparr>uncommitted_state := us, ephemerals := e\<rparr>)"
      "us_deltas us = keep" "index_ok us keep" "us_nodes us = us_nodes us1" "eph_ok e t"
    using snoc.IH [of ?st t1] us1(2) t1(1) e1(2) snoc.prems(4,5) by auto
  ultimately show ?case
    using us1(3) by (intro exI [of _ us] exI [of _ e]) simp
qed

lemma replay_ok:
  "p \<noteq> [] \<Longrightarrow> map_of (us_nodes us) p = None \<Longrightarrow> tree_run ds (core_tree c) = Some t \<Longrightarrow>
   \<exists>ns. rfold (applyDelta c) us (at_path p ds) = Inr (us\<lparr>us_nodes := ns\<rparr>) \<and>
     entry_ok c ds p (map_of ns p) \<and> (\<forall>q. q \<noteq> p \<longrightarrow> map_of ns q = map_of (us_nodes us) q)"
proof (induction ds arbitrary: t rule: rev_induct)
  case Nil
  then show ?case by (intro exI [of _ "us_nodes us"]) (simp add: entry_ok_def)
next
  case (snoc d ds)
  obtain t1 where t1: "tree_run ds (core_tree c) = Some t1" "tree_step d t1 = Some t"
    using snoc.prems(3) by (auto simp: bind_eq_Some_conv)
  obtain ns where ns: "rfold (applyDelta c) us (at_path p ds) = Inr (us\<lparr>us_nodes := ns\<rparr>)"
      "entry_ok c ds p (map_of ns p)" "\<And>q. q \<noteq> p \<Longrightarrow> map_of ns q = map_of (us_nodes us) q"
    using snoc.IH [OF snoc.prems(1,2) t1(1)] by blast
  show ?case
  proof (cases "d_path d = p")
    case False
    then have "entry_ok c (ds @ [d]) p (map_of ns p)" using ns(2) entry_ok_other by metis
    with False ns show ?thesis by (intro exI [of _ ns]) (simp add: at_path_Cons)
  next
    case True
    let ?e = "load_node c (us\<lparr>us_nodes := ns\<rparr>) p"
    have op: "is_node_op (d_operation d)" "op_step p (d_operation d) t1 = Some t"
      using t1(2) True snoc.prems(1) by (auto simp: tree_step_def split: if_splits)
    have eff: "path_effect p ds (core_tree c p) = t1 p"
      using tree_run_effect [OF t1(1) snoc.prems(1)] by simp
    have "map_option core (un_node ?e) = t1 p"
    proof (cases "map_of ns p")
      case None
      then have "at_path p ds = []" using ns(2) by (simp add: entry_ok_def)
      then show ?thesis
        using None eff path_effect_none [of p ds] snoc.prems(1)
        by (simp add: load_node_def tryGetNodeFromStorage_def core_tree_apply option.map_comp comp_def)
    next
      case (Some e)
      then show ?thesis using ns(2) eff by (simp add: load_node_def entry_ok_def)
    qed
    from apply_operation_ok [OF op this] obtain e' where e': "apply_operation d ?e = Inr e'"
      "un_zxid e' = d_zxid d" "map_option core (un_node e') = node_effect (d_operation d) (t1 p)"
      by blast
    have "entry_ok c (ds @ [d]) p (Some e')"
      using e' True eff snoc.prems(1) by (simp add: entry_ok_def at_path_Cons path_effect_def)
    moreover have "applyDelta c (us\<lparr>us_nodes := ns\<rparr>) d = Inr (us\<lparr>us_nodes := AList.update p e' ns\<rparr>)"
      using e'(1) True by (simp add: applyDelta_def)
    ultimately show ?thesis
      using ns True snoc.prems(1) by (intro exI [of _ "AList.update p e' ns"])
        (simp add: at_path_Cons update_conv')
  qed
qed

lemma replay_paths_ok:
  "index_inv us \<Longrightarrow> tree_run (us_deltas us) (core_tree c) = Some t \<Longrightarrow> distinct ps \<Longrightarrow>
   \<forall>p\<in>set ps. p \<noteq> [] \<and> map_of (us_nodes us) p = None \<Longrightarrow>
   \<exists>ns. rfold (replay_path c) us ps = Inr (us\<lparr>us_nodes := ns\<rparr>) \<and>
     (\<forall>p\<in>set ps. entry_ok c (us_deltas us) p (map_of ns p)) \<and>
     (\<forall>q. q \<notin> set ps \<longrightarrow> map_of ns q = map_of (us_nodes us) q)"
proof (induction ps arbitrary: us)
  case Nil
  then show ?case by (intro exI [of _ "us_nodes us"]) simp
next
  case (Cons p ps)
  have p: "p \<noteq> []" "map_of (us_nodes us) p = None" using Cons.prems(4) by simp_all
  obtain ns where ns: "rfold (applyDelta c) us (at_path p (us_deltas us)) = Inr (us\<lparr>us_nodes := ns\<rparr>)"
      "entry_ok c (us_deltas us) p (map_of ns p)"
      "\<And>q. q \<noteq> p \<Longrightarrow> map_of ns q = map_of (us_nodes us) q"
    using replay_ok [OF p Cons.prems(2)] by blast
  have "us_deltas_for_path us p = nonempty (at_path p (us_deltas us))"
    using Cons.prems(1) by (simp add: index_inv_def)
  then have step: "replay_path c us p = Inr (us\<lparr>us_nodes := ns\<rparr>)"
    using ns(1) by (cases "at_path p (us_deltas us)") (simp_all add: replay_path_def nonempty_def)
  have absent: "\<forall>q\<in>set ps. map_of ns q = None"
    using ns(3) Cons.prems(3,4) by (metis distinct.simps(2) list.set_intros(2))
  obtain ns' where "rfold (replay_path c) (us\<lparr>us_nodes := ns\<rparr>) ps = Inr (us\<lparr>us_nodes := ns'\<rparr>)"
      "\<forall>p\<in>set ps. entry_ok c (us_deltas us) p (map_of ns' p)"
      "\<forall>q. q \<notin> set ps \<longrightarrow> map_of ns' q = map_of ns q"
    using Cons.IH [of "us\<lparr>us_nodes := ns\<rparr>"] Cons.prems absent by (auto simp: index_inv_def)
  with step ns(2,3) Cons.prems(3) show ?case by (intro exI [of _ ns']) auto
qed

lemma map_of_filter_key: "map_of (filter (\<lambda>kv. fst kv \<notin> D) m) k = (if k \<in> D then None else map_of m k)"
  by (induction m) auto

lemma rollback_nodes_ok:
  assumes "index_inv us" and "tree_run (us_deltas us) (core_tree c) \<noteq> None"
    and entry: "\<And>p. entry_ok c (us_deltas us @ drp) p (map_of (us_nodes us) p)"
    and "\<forall>d\<in>set drp. d_zxid d = z" and "\<forall>d\<in>set (us_deltas us). d_zxid d < z"
  shows "\<exists>us'. rollback_nodes c z us = Inr us' \<and> us_deltas us' = us_deltas us \<and> index_inv us' \<and>
    cache_inv c us'"
proof -
  define D where "D = filter (\<lambda>p. un_zxid (the (map_of (us_nodes us) p)) = z)
    (remdups (map fst (us_nodes us)))"
  let ?us = "us\<lparr>us_nodes := filter (\<lambda>pe. fst pe \<notin> set D) (us_nodes us)\<rparr>"
  have D: "p \<in> set D \<longleftrightarrow> (\<exists>e. map_of (us_nodes us) p = Some e \<and> un_zxid e = z)" for p
    by (cases "map_of (us_nodes us) p") (auto simp: D_def map_of_eq_None_iff dest: map_of_SomeD
        intro!: image_eqI [of _ fst "(p, the (map_of (us_nodes us) p))"])
  have nodes: "map_of (us_nodes ?us) p = (if p \<in> set D then None else map_of (us_nodes us) p)" for p
    by (simp add: map_of_filter_key)
  have keep: "entry_ok c (us_deltas us) p (map_of (us_nodes us) p)" if "p \<notin> set D" for p
  proof (cases "at_path p drp = []")
    case True
    then have "at_path p (us_deltas us @ drp) = at_path p (us_deltas us)" by simp
    then show ?thesis using entry [of p] entry_ok_cong by blast
  next
    case False
    then obtain e where "map_of (us_nodes us) p = Some e"
        "un_zxid e = d_zxid (last (at_path p drp))"
      using entry [of p] by (cases "map_of (us_nodes us) p") (auto simp: entry_ok_def)
    moreover have "last (at_path p drp) \<in> set drp"
      using last_in_set [OF False] set_at_path [of p drp] by auto
    then have "d_zxid (last (at_path p drp)) = z" using assms(4) by simp
    ultimately have "p \<in> set D" by (simp add: D)
    with that show ?thesis by simp
  qed
  obtain t where t: "tree_run (us_deltas us) (core_tree c) = Some t" using assms(2) by blast
  have "p \<noteq> []" if "p \<in> set D" for p
    using entry [of p] that by (auto simp: D entry_ok_def)
  then obtain ns where ns: "rfold (replay_path c) ?us D = Inr (?us\<lparr>us_nodes := ns\<rparr>)"
      "\<forall>p\<in>set D. entry_ok c (us_deltas us) p (map_of ns p)"
      "\<forall>q. q \<notin> set D \<longrightarrow> map_of ns q = map_of (us_nodes ?us) q"
    using replay_paths_ok [of ?us c t D] assms(1) t nodes
    by (auto simp: index_inv_def D_def)
  have "entry_ok c (us_deltas us) p (map_of ns p)" for p
    using ns(2,3) keep nodes by (cases "p \<in> set D") auto
  with ns(1) assms(1) show ?thesis
    by (intro exI [of _ "us\<lparr>us_nodes := ns\<rparr>"])
      (simp add: rollback_nodes_def Let_def D_def cache_inv_def index_inv_def)
qed

text \<open>
  Rolling back the last transaction: the deltas of the transaction are gone, the view is the one
  before them, and the map of ephemeral nodes fits it.
\<close>

lemma rollback_ok:
  assumes "pending_inv st" and "pending st = keep @ drp"
    and "\<forall>d\<in>set drp. d_zxid d = z" and "\<forall>d\<in>set keep. d_zxid d < z"
    and "tree_run keep (committed_tree st) = Some t" and "tree_run drp t = Some t'"
    and "eph_ok (ephemerals st) t'"
  shows "\<exists>us e. rollback z st = Inr (st\<lparr>uncommitted_state := us, ephemerals := e\<rparr>) \<and>
    us_deltas us = keep \<and> eph_ok e t \<and>
    pending_inv (st\<lparr>uncommitted_state := us, ephemerals := e\<rparr>) \<and>
    view (st\<lparr>uncommitted_state := us, ephemerals := e\<rparr>) = t"
proof -
  have idx: "index_ok (uncommitted_state st) (keep @ drp)"
    using assms(1,2) by (simp add: pending_inv_def index_inv_ok)
  obtain us e where loop: "rollback_loop z (rev (keep @ drp)) st =
        Inr (st\<lparr>uncommitted_state := us, ephemerals := e\<rparr>)"
      "us_deltas us = keep" "index_ok us keep" "us_nodes us = us_nodes (uncommitted_state st)"
      "eph_ok e t"
    using rollback_loop_ok [OF idx assms(6,7), of z] assms(3,4) by auto
  have "\<not> (pending st \<noteq> [] \<and> d_zxid (last (pending st)) > z)"
    using assms(2-4) by (cases drp rule: rev_cases; cases keep rule: rev_cases) auto
  moreover obtain us' where us': "rollback_nodes (container st) z us = Inr us'"
      "us_deltas us' = keep" "index_inv us'" "cache_inv (container st) us'"
    using rollback_nodes_ok [of us "container st" drp z] loop assms
    by (auto simp: index_inv_ok committed_tree_def pending_inv_def cache_inv_def)
  ultimately have run: "rollback z st = Inr (st\<lparr>uncommitted_state := us', ephemerals := e\<rparr>)"
    using loop(1) assms(2) unfolding rollback_def Let_def by (simp del: de_Morgan_conj)
  have "sorted (map d_zxid keep)"
    using assms(1,2) by (simp add: pending_inv_def sorted_append)
  then have inv: "pending_inv (st\<lparr>uncommitted_state := us', ephemerals := e\<rparr>)"
    using us' assms(5) by (simp add: pending_inv_def committed_tree_def)
  from view_run [OF this] have "view (st\<lparr>uncommitted_state := us', ephemerals := e\<rparr>) = t"
    using us'(2) assms(5) by (simp add: committed_tree_def)
  with run us' inv loop(5) show ?thesis by blast
qed

end
