(* ===== verification/KeeperProcessors.thy ===== *)
theory KeeperProcessors
  imports KeeperWatches
begin

text \<open>
  The request processors (\<open>src/Coordination/KeeperStorage.cpp\<close>, lines 970-2134): for every request
  class its \<open>checkAuth\<close>, \<open>preprocess\<close>, \<open>process\<close>, \<open>processLocal\<close> and \<open>processWatches\<close>. \<open>preprocess\<close>
  returns the storage, the digest (a reference parameter of the source) and the new deltas;
  \<open>process\<close> returns the response and the storage.
\<close>

subsection \<open>Creation\<close>

text \<open>\<open>seq_num_str << std::setw(10) << std::setfill('0') << seq_num\<close>.\<close>

fun decimal :: "nat \<Rightarrow> string" where
  "decimal n =
     (if n < 10 then [char_of (48 + n)] else decimal (n div 10) @ [char_of (48 + n mod 10)])"

declare decimal.simps [simp del]

definition print_int :: "int \<Rightarrow> string" where
  "print_int k = (if k < 0 then CHR ''-'' # decimal (nat (- k)) else decimal (nat k))"

definition seq_num_str :: "int \<Rightarrow> string" where
  "seq_num_str k =
     (let s = print_int k in replicate (10 - length s) (CHR ''0'') @ s)"

type_synonym preprocess_result = "(KeeperStorage \<times> u64 \<times> Delta list) result"

definition create_stat :: "zxid \<Rightarrow> int \<Rightarrow> int \<Rightarrow> Stat" where
  "create_stat z time ow =
     Stat_default\<lparr>st_czxid := z, st_mzxid := z, st_pzxid := z, st_ctime := time, st_mtime := time,
       st_numChildren := 0, st_version := 0, st_aversion := 0, st_cversion := 0,
       st_ephemeralOwner := ow\<rparr>"

definition create_deltas :: "zxid \<Rightarrow> session \<Rightarrow> int \<Rightarrow> CreateRequestData \<Rightarrow> path \<Rightarrow> path \<Rightarrow> ACLs \<Rightarrow>
    Delta list" where
  "create_deltas z sid time c parent_path path_created node_acls =
     [mkDelta parent_path z (UpdateNodeDelta (ParentOfCreate (cr_parent_cversion c) z) (- 1)),
      mkDelta path_created z
        (CreateNodeDelta (create_stat z time (if cr_is_ephemeral c then sid else 0)) node_acls
           (cr_data c))]"

definition create_preprocess :: "KeeperStorage \<Rightarrow> zxid \<Rightarrow> session \<Rightarrow> int \<Rightarrow> u64 \<Rightarrow> CreateRequestData \<Rightarrow>
    preprocess_result" where
  "create_preprocess st z sid time dg c =
     (let err = (\<lambda>e. Inr (st, dg, [mkError z e])) in
      rbind (of_option Undefined_behaviour (parentNodePath (cr_path c))) (\<lambda>parent_path.
        case getNode st parent_path of
          None \<Rightarrow> err ZNONODE
        | Some parent_node \<Rightarrow>
            if isEphemeral parent_node then err ZNOCHILDRENFOREPHEMERALS
            else if cr_is_sequential c \<and> cr_not_exists c then err ZBADARGUMENTS
            else
              let path_created =
                    cr_path c @ (if cr_is_sequential c then seq_num_str (seqNum parent_node) else [])
              in if matchPath path_created keeper_system_path \<noteq> NOT_MATCH then
                   rbind (handleSystemNodeModification (keeper_context st)) (\<lambda>_. err ZBADARGUMENTS)
                 else if getNode st path_created \<noteq> None then
                   (if cr_not_exists c then Inr (st, dg, []) else err ZNODEEXISTS)
                 else if getBaseNodeName path_created = [] then err ZBADARGUMENTS
                 else
                   (case fixupACL (cr_acls c) sid st of
                      None \<Rightarrow> err ZINVALIDACL
                    | Some node_acls \<Rightarrow>
                        let st' = (if cr_is_ephemeral c then registerEphemeralPath sid path_created st
                                   else st);
                            new_deltas = create_deltas z sid time c parent_path path_created node_acls
                        in rbind (calculateNodesDigest st' dg new_deltas) (\<lambda>dg'.
                             Inr (st', dg', new_deltas)))))"

definition is_create_delta :: "zxid \<Rightarrow> Delta \<Rightarrow> bool" where
  "is_create_delta z d \<longleftrightarrow>
     d_zxid d = z \<and> (case d_operation d of CreateNodeDelta _ _ _ \<Rightarrow> True | _ \<Rightarrow> False)"

definition create_response :: "CreateRequestData \<Rightarrow> Error \<Rightarrow> path \<Rightarrow> ZooKeeperResponse" where
  "create_response c e path_created =
     with_error e (fresh_response
       (if cr_not_exists c then CreateIfNotExistsResponse path_created
        else CreateResponse path_created))"

definition create_process :: "KeeperStorage \<Rightarrow> zxid \<Rightarrow> CreateRequestData \<Rightarrow>
    (ZooKeeperResponse \<times> KeeperStorage) result" where
  "create_process st z c =
     (case us_deltas (uncommitted_state st) of
        [] \<Rightarrow> Inl Undefined_behaviour
      | d # _ \<Rightarrow>
          if d_zxid d \<noteq> z then Inr (create_response c ZOK (cr_path c), st)
          else
            rbind (storage_commit z st) (\<lambda>(e, st').
              if e \<noteq> ZOK then Inr (create_response c e [], st')
              else
                (case find (is_create_delta z) (us_deltas (uncommitted_state st')) of
                   None \<Rightarrow> Inl Undefined_behaviour
                 | Some d \<Rightarrow> Inr (create_response c ZOK (d_path d), st'))))"

subsection \<open>Removal\<close>

definition update_parent_pzxid :: "KeeperStorage \<Rightarrow> zxid \<Rightarrow> path \<Rightarrow> Delta list result" where
  "update_parent_pzxid st z p =
     rbind (of_option Undefined_behaviour (parentNodePath p)) (\<lambda>parent_path.
       Inr (if getNode st parent_path = None then []
            else [mkDelta parent_path z (UpdateNodeDelta (ParentPzxid z) (- 1))]))"

definition remove_preprocess :: "KeeperStorage \<Rightarrow> zxid \<Rightarrow> u64 \<Rightarrow> bool \<Rightarrow> path \<Rightarrow> int \<Rightarrow>
    preprocess_result" where
  "remove_preprocess st z dg restored p ver =
     (let err = (\<lambda>e. Inr (st, dg, [mkError z e])) in
      if matchPath p keeper_system_path \<noteq> NOT_MATCH then
        rbind (handleSystemNodeModification (keeper_context st)) (\<lambda>_. err ZBADARGUMENTS)
      else
        (case getNode st p of
           None \<Rightarrow>
             if restored then rbind (update_parent_pzxid st z p) (\<lambda>_. err ZNONODE) else err ZNONODE
         | Some n \<Rightarrow>
             if ver \<noteq> - 1 \<and> ver \<noteq> n_version n then err ZBADVERSION
             else if numChildren n \<noteq> 0 then err ZNOTEMPTY
             else
               rbind (if restored then update_parent_pzxid st z p else Inr []) (\<lambda>pzxid_deltas.
               rbind (of_option Undefined_behaviour (parentNodePath p)) (\<lambda>parent_path.
                 let new_deltas = pzxid_deltas @
                       [mkDelta parent_path z (UpdateNodeDelta ParentOfRemove (- 1)),
                        mkDelta p z (RemoveNodeDelta ver (ephemeralOwner n))]
                 in rbind (if isEphemeral n then unregisterEphemeralPath (ephemeralOwner n) p st
                           else Inr st) (\<lambda>st'.
                    rbind (calculateNodesDigest st' dg new_deltas) (\<lambda>dg'.
                      Inr (st', dg', new_deltas)))))))"

definition remove_process :: "KeeperStorage \<Rightarrow> zxid \<Rightarrow> (ZooKeeperResponse \<times> KeeperStorage) result" where
  "remove_process st z =
     rbind (storage_commit z st) (\<lambda>(e, st'). Inr (with_error e (fresh_response RemoveResponse), st'))"

subsection \<open>Reads\<close>

text \<open>The \<open>preprocess\<close> shared by the requests that only need the node to exist.\<close>

definition existing_preprocess :: "KeeperStorage \<Rightarrow> zxid \<Rightarrow> u64 \<Rightarrow> path \<Rightarrow> preprocess_result" where
  "existing_preprocess st z dg p =
     Inr (st, dg, if getNode st p = None then [mkError z ZNONODE] else [])"

definition get_preprocess :: "KeeperStorage \<Rightarrow> zxid \<Rightarrow> u64 \<Rightarrow> path \<Rightarrow> preprocess_result" where
  "get_preprocess st z dg p =
     (if p = keeper_api_feature_flags_path \<or> p = keeper_config_path \<or>
         p = keeper_availability_zone_path
      then Inr (st, dg, []) else existing_preprocess st z dg p)"

text \<open>
  The frame of every \<open>processImpl\<close>: unless local, commit first and return its error in a fresh
  response.
\<close>

definition commit_then :: "bool \<Rightarrow> KeeperStorage \<Rightarrow> zxid \<Rightarrow> ResponseBody \<Rightarrow>
    (KeeperStorage \<Rightarrow> (ZooKeeperResponse \<times> KeeperStorage) result) \<Rightarrow>
    (ZooKeeperResponse \<times> KeeperStorage) result" where
  "commit_then is_local st z empty_body k =
     (if is_local then k st
      else rbind (storage_commit z st) (\<lambda>(e, st').
             if e \<noteq> ZOK then Inr (with_error e (fresh_response empty_body), st') else k st'))"

text \<open>A missing node or a failed check: an error code locally, termination otherwise.\<close>

definition read_error :: "bool \<Rightarrow> KeeperStorage \<Rightarrow> ResponseBody \<Rightarrow> Error \<Rightarrow>
    (ZooKeeperResponse \<times> KeeperStorage) result" where
  "read_error is_local st empty_body e =
     (if is_local then Inr (with_error e (fresh_response empty_body), st)
      else Inl Storage_inconsistency)"

definition get_processImpl :: "bool \<Rightarrow> KeeperStorage \<Rightarrow> zxid \<Rightarrow> path \<Rightarrow>
    (ZooKeeperResponse \<times> KeeperStorage) result" where
  "get_processImpl is_local st z p =
     (let body0 = GetResponse [] Stat_default in
      commit_then is_local st z body0 (\<lambda>st.
        if p = keeper_config_path then
          Inr (fresh_response
                 (GetResponse (kc_cluster_config (keeper_context st)) Stat_default), st)
        else
          (case container st p of
             None \<Rightarrow> read_error is_local st body0 ZNONODE
           | Some n \<Rightarrow> Inr (fresh_response (GetResponse (n_data n) (setResponseStat n)), st))))"

definition exists_processImpl :: "bool \<Rightarrow> KeeperStorage \<Rightarrow> zxid \<Rightarrow> path \<Rightarrow>
    (ZooKeeperResponse \<times> KeeperStorage) result" where
  "exists_processImpl is_local st z p =
     (let body0 = ExistsResponse Stat_default in
      commit_then is_local st z body0 (\<lambda>st.
        case container st p of
          None \<Rightarrow> read_error is_local st body0 ZNONODE
        | Some n \<Rightarrow> Inr (fresh_response (ExistsResponse (setResponseStat n)), st)))"

definition add_child :: "container \<Rightarrow> path \<Rightarrow> ListRequestType \<Rightarrow> string \<Rightarrow> bool result" where
  "add_child c p list_request_type child =
     (if list_request_type = LIST_ALL then Inr True
      else
        (case c (fs_join p child) of
           None \<Rightarrow> Inl Storage_inconsistency
         | Some n \<Rightarrow>
             Inr (isEphemeral n \<and> list_request_type = EPHEMERAL_ONLY \<or>
                  \<not> isEphemeral n \<and> list_request_type = PERSISTENT_ONLY)))"

fun list_names :: "container \<Rightarrow> path \<Rightarrow> ListRequestType \<Rightarrow> string list \<Rightarrow> string list result" where
  "list_names c p t [] = Inr []"
| "list_names c p t (child # cs) =
     rbind (add_child c p t child) (\<lambda>keep.
       rbind (list_names c p t cs) (\<lambda>names. Inr (if keep then child # names else names)))"

text \<open>\<open>mk\<close> is the response constructor: \<open>SimpleListResponse\<close> or \<open>ListResponse\<close>.\<close>

definition list_processImpl :: "bool \<Rightarrow> KeeperStorage \<Rightarrow> zxid \<Rightarrow> (string list \<Rightarrow> Stat \<Rightarrow> ResponseBody) \<Rightarrow>
    path \<Rightarrow> ListRequestType \<Rightarrow> (ZooKeeperResponse \<times> KeeperStorage) result" where
  "list_processImpl is_local st z mk p t =
     (let body0 = mk [] Stat_default in
      commit_then is_local st z body0 (\<lambda>st.
        case container st p of
          None \<Rightarrow> read_error is_local st body0 ZNONODE
        | Some n \<Rightarrow>
            if p = [] then Inl Logical_error
            else rbind (list_names (container st) p t (n_children n)) (\<lambda>names.
                   Inr (fresh_response (mk names (setResponseStat n)), st))))"

definition check_preprocess :: "KeeperStorage \<Rightarrow> zxid \<Rightarrow> u64 \<Rightarrow> CheckRequestData \<Rightarrow> preprocess_result" where
  "check_preprocess st z dg ck =
     Inr (st, dg,
       (case getNode st (ck_path ck) of
          Some n \<Rightarrow>
            if ck_not_exists ck then
              (if ck_version ck = - 1 \<or> ck_version ck = n_version n then [mkError z ZNODEEXISTS]
               else [])
            else if ck_version ck \<noteq> - 1 \<and> ck_version ck \<noteq> n_version n then [mkError z ZBADVERSION]
            else []
        | None \<Rightarrow> if ck_not_exists ck then [] else [mkError z ZNONODE]))"

definition check_processImpl :: "bool \<Rightarrow> KeeperStorage \<Rightarrow> zxid \<Rightarrow> CheckRequestData \<Rightarrow>
    (ZooKeeperResponse \<times> KeeperStorage) result" where
  "check_processImpl is_local st z ck =
     (let body0 = (if ck_not_exists ck then CheckNotExistsResponse else CheckResponse) in
      commit_then is_local st z body0 (\<lambda>st.
        let ok = Inr (fresh_response body0, st);
            on_error = read_error is_local st body0
        in case container st (ck_path ck) of
             Some n \<Rightarrow>
               if ck_not_exists ck then
                 (if ck_version ck = - 1 \<or> ck_version ck = n_version n then on_error ZNODEEXISTS
                  else ok)
               else if ck_version ck \<noteq> - 1 \<and> ck_version ck \<noteq> n_version n then on_error ZBADVERSION
               else ok
           | None \<Rightarrow> if ck_not_exists ck then ok else on_error ZNONODE))"

definition getacl_processImpl :: "bool \<Rightarrow> KeeperStorage \<Rightarrow> zxid \<Rightarrow> path \<Rightarrow>
    (ZooKeeperResponse \<times> KeeperStorage) result" where
  "getacl_processImpl is_local st z p =
     (let body0 = GetACLResponse [] Stat_default in
      commit_then is_local st z body0 (\<lambda>st.
        case container st p of
          None \<Rightarrow> read_error is_local st body0 ZNONODE
        | Some n \<Rightarrow>
            rbind (convertNumber (acl_map st) (n_acl_id n)) (\<lambda>acl.
              Inr (fresh_response (GetACLResponse acl (setResponseStat n)), st))))"

subsection \<open>Set, set ACL, authentication\<close>

definition set_preprocess :: "KeeperStorage \<Rightarrow> zxid \<Rightarrow> int \<Rightarrow> u64 \<Rightarrow> path \<Rightarrow> string \<Rightarrow> int \<Rightarrow>
    preprocess_result" where
  "set_preprocess st z time dg p new_data ver =
     (let err = (\<lambda>e. Inr (st, dg, [mkError z e])) in
      if matchPath p keeper_system_path \<noteq> NOT_MATCH then
        rbind (handleSystemNodeModification (keeper_context st)) (\<lambda>_. err ZBADARGUMENTS)
      else
        (case getNode st p of
           None \<Rightarrow> err ZNONODE
         | Some n \<Rightarrow>
             if ver \<noteq> - 1 \<and> ver \<noteq> n_version n then err ZBADVERSION
             else
               rbind (of_option Undefined_behaviour (parentNodePath p)) (\<lambda>parent_path.
                 let new_deltas =
                       [mkDelta p z (UpdateNodeDelta (SetNode z new_data time) ver),
                        mkDelta parent_path z (UpdateNodeDelta ParentOfSet (- 1))]
                 in rbind (calculateNodesDigest st dg new_deltas) (\<lambda>dg'.
                      Inr (st, dg', new_deltas)))))"

text \<open>The \<open>process\<close> shared by set and set-ACL: commit, then the statistics of the node.\<close>

definition stat_process :: "KeeperStorage \<Rightarrow> zxid \<Rightarrow> (Stat \<Rightarrow> ResponseBody) \<Rightarrow> path \<Rightarrow>
    (ZooKeeperResponse \<times> KeeperStorage) result" where
  "stat_process st z mk p =
     commit_then False st z (mk Stat_default) (\<lambda>st.
       case container st p of
         None \<Rightarrow> Inl Storage_inconsistency
       | Some n \<Rightarrow> Inr (fresh_response (mk (setResponseStat n)), st))"

definition setacl_preprocess :: "KeeperStorage \<Rightarrow> zxid \<Rightarrow> session \<Rightarrow> u64 \<Rightarrow> path \<Rightarrow> ACLs \<Rightarrow> int \<Rightarrow>
    preprocess_result" where
  "setacl_preprocess st z sid dg p acls ver =
     (let err = (\<lambda>e. Inr (st, dg, [mkError z e])) in
      if matchPath p keeper_system_path \<noteq> NOT_MATCH then
        rbind (handleSystemNodeModification (keeper_context st)) (\<lambda>_. err ZBADARGUMENTS)
      else
        (case getNode st p of
           None \<Rightarrow> err ZNONODE
         | Some n \<Rightarrow>
             if ver \<noteq> - 1 \<and> ver \<noteq> n_aversion n then err ZBADVERSION
             else
               (case fixupACL acls sid st of
                  None \<Rightarrow> err ZINVALIDACL
                | Some node_acls \<Rightarrow>
                    let new_deltas =
                          [mkDelta p z (SetACLDelta node_acls ver),
                           mkDelta p z (UpdateNodeDelta IncAversion (- 1))]
                    in rbind (calculateNodesDigest st dg new_deltas) (\<lambda>dg'.
                         Inr (st, dg', new_deltas)))))"

definition auth_preprocess :: "KeeperStorage \<Rightarrow> zxid \<Rightarrow> session \<Rightarrow> u64 \<Rightarrow> string \<Rightarrow> string \<Rightarrow>
    preprocess_result" where
  "auth_preprocess st z sid dg scheme auth_data =
     (if scheme \<noteq> ''digest'' \<or> count_list auth_data CHR '':'' \<noteq> 1
      then Inr (st, dg, [mkError z ZAUTHFAILED])
      else
        let auth_digest = generateDigest (keeper_context st) auth_data
        in if auth_digest = superdigest st then
             Inr (st, dg,
               [mkDelta [] z (AddAuthDelta sid \<lparr>auth_scheme = ''super'', auth_ident = []\<rparr>)])
           else
             let new_auth = \<lparr>auth_scheme = scheme, auth_ident = auth_digest\<rparr>
             in Inr (st, dg,
                  if hasACL (session_and_auth st) (uncommitted_state st) sid False
                       (\<lambda>auth. new_auth = auth)
                  then [] else [mkDelta [] z (AddAuthDelta sid new_auth)]))"

definition auth_process :: "KeeperStorage \<Rightarrow> zxid \<Rightarrow> (ZooKeeperResponse \<times> KeeperStorage) result" where
  "auth_process st z =
     rbind (storage_commit z st) (\<lambda>(e, st'). Inr (with_error e (fresh_response AuthResponse), st'))"

end
