(* ===== verification/KeeperRequests.thy ===== *)
theory KeeperRequests
  imports KeeperProcessors
begin

unbundle bit_operations_syntax

text \<open>
  Dispatch of requests to their processors, the multi request, and the entry points
  \<open>preprocessRequest\<close>, \<open>processRequest\<close> and \<open>rollbackRequest\<close> of \<open>KeeperStorage\<close>
  (\<open>src/Coordination/KeeperStorage.cpp\<close>, lines 1914-2544). A sub-request of a multi request is never
  a multi request itself: the constructor of the processor refuses it.

  An exception leaves the storage unspecified in the model; the caller
  (\<open>KeeperStateMachine::preprocess\<close>) rolls the request back.
\<close>

subsection \<open>Access checks\<close>

definition checkACL_parent :: "KeeperStorage \<Rightarrow> path \<Rightarrow> int \<Rightarrow> session \<Rightarrow> bool \<Rightarrow> bool result" where
  "checkACL_parent st p permission sid is_local =
     rbind (of_option Undefined_behaviour (parentNodePath p)) (\<lambda>parent.
       checkACL st parent permission sid is_local)"

definition checkAuth_simple :: "KeeperStorage \<Rightarrow> ZooKeeperRequest \<Rightarrow> session \<Rightarrow> bool \<Rightarrow> bool result" where
  "checkAuth_simple st req sid is_local =
     (case body req of
        CreateRequest c \<Rightarrow> checkACL_parent st (cr_path c) ACL_Create sid is_local
      | GetRequest p \<Rightarrow> checkACL st p ACL_Read sid is_local
      | RemoveRequest p ver \<Rightarrow> checkACL_parent st p ACL_Delete sid is_local
      | SetRequest p new_data ver \<Rightarrow> checkACL st p ACL_Write sid is_local
      | ListRequest p \<Rightarrow> checkACL st p ACL_Read sid is_local
      | SimpleListRequest p \<Rightarrow> checkACL st p ACL_Read sid is_local
      | FilteredListRequest p t \<Rightarrow> checkACL st p ACL_Read sid is_local
      | CheckRequest ck \<Rightarrow>
          if ck_not_exists ck then checkACL_parent st (ck_path ck) ACL_Read sid is_local
          else checkACL st (ck_path ck) ACL_Read sid is_local
      | SetACLRequest p acls ver \<Rightarrow> checkACL st p ACL_Admin sid is_local
      | GetACLRequest p \<Rightarrow> checkACL st p (ACL_Admin OR ACL_Read) sid is_local
      | _ \<Rightarrow> Inr True)"

fun checkAuth_all :: "KeeperStorage \<Rightarrow> ZooKeeperRequest list \<Rightarrow> session \<Rightarrow> bool \<Rightarrow> bool result" where
  "checkAuth_all st [] sid is_local = Inr True"
| "checkAuth_all st (r # rs) sid is_local =
     rbind (checkAuth_simple st r sid is_local) (\<lambda>ok.
       if ok then checkAuth_all st rs sid is_local else Inr False)"

definition checkAuth :: "KeeperStorage \<Rightarrow> ZooKeeperRequest \<Rightarrow> session \<Rightarrow> bool \<Rightarrow> bool result" where
  "checkAuth st req sid is_local =
     (case body req of
        MultiRequest t rs \<Rightarrow> checkAuth_all st rs sid is_local
      | _ \<Rightarrow> checkAuth_simple st req sid is_local)"

subsection \<open>Processors of single requests\<close>

definition preprocess_simple :: "KeeperStorage \<Rightarrow> zxid \<Rightarrow> session \<Rightarrow> int \<Rightarrow> u64 \<Rightarrow> ZooKeeperRequest \<Rightarrow>
    preprocess_result" where
  "preprocess_simple st z sid time dg req =
     (case body req of
        CreateRequest c \<Rightarrow> create_preprocess st z sid time dg c
      | GetRequest p \<Rightarrow> get_preprocess st z dg p
      | RemoveRequest p ver \<Rightarrow> remove_preprocess st z dg (restored_from_zookeeper_log req) p ver
      | ExistsRequest p \<Rightarrow> existing_preprocess st z dg p
      | SetRequest p new_data ver \<Rightarrow> set_preprocess st z time dg p new_data ver
      | ListRequest p \<Rightarrow> existing_preprocess st z dg p
      | SimpleListRequest p \<Rightarrow> existing_preprocess st z dg p
      | FilteredListRequest p t \<Rightarrow> existing_preprocess st z dg p
      | CheckRequest ck \<Rightarrow> check_preprocess st z dg ck
      | SetACLRequest p acls ver \<Rightarrow> setacl_preprocess st z sid dg p acls ver
      | GetACLRequest p \<Rightarrow> existing_preprocess st z dg p
      | AuthRequest t scheme auth_data \<Rightarrow> auth_preprocess st z sid dg scheme auth_data
      | _ \<Rightarrow> Inr (st, dg, []))"

text \<open>\<open>processImpl\<close> of the requests that have a local form.\<close>

definition read_process :: "bool \<Rightarrow> KeeperStorage \<Rightarrow> zxid \<Rightarrow> ZooKeeperRequest \<Rightarrow>
    (ZooKeeperResponse \<times> KeeperStorage) result option" where
  "read_process is_local st z req =
     (case body req of
        GetRequest p \<Rightarrow> Some (get_processImpl is_local st z p)
      | ExistsRequest p \<Rightarrow> Some (exists_processImpl is_local st z p)
      | ListRequest p \<Rightarrow> Some (list_processImpl is_local st z ListResponse p LIST_ALL)
      | SimpleListRequest p \<Rightarrow> Some (list_processImpl is_local st z SimpleListResponse p LIST_ALL)
      | FilteredListRequest p t \<Rightarrow> Some (list_processImpl is_local st z ListResponse p t)
      | CheckRequest ck \<Rightarrow> Some (check_processImpl is_local st z ck)
      | GetACLRequest p \<Rightarrow> Some (getacl_processImpl is_local st z p)
      | _ \<Rightarrow> None)"

definition process_simple :: "KeeperStorage \<Rightarrow> zxid \<Rightarrow> ZooKeeperRequest \<Rightarrow>
    (ZooKeeperResponse \<times> KeeperStorage) result" where
  "process_simple st z req =
     (case read_process False st z req of
        Some r \<Rightarrow> r
      | None \<Rightarrow>
          (case body req of
             SyncRequest p \<Rightarrow> Inr (fresh_response (SyncResponse p), st)
           | CreateRequest c \<Rightarrow> create_process st z c
           | RemoveRequest p ver \<Rightarrow> remove_process st z
           | SetRequest p new_data ver \<Rightarrow> stat_process st z SetResponse p
           | SetACLRequest p acls ver \<Rightarrow> stat_process st z SetACLResponse p
           | AuthRequest t scheme auth_data \<Rightarrow> auth_process st z
           | CloseRequest \<Rightarrow> Inl Logical_error
           | _ \<Rightarrow> Inr (makeResponse req, st)))"

definition processLocal_simple :: "KeeperStorage \<Rightarrow> zxid \<Rightarrow> ZooKeeperRequest \<Rightarrow>
    (ZooKeeperResponse \<times> KeeperStorage) result" where
  "processLocal_simple st z req =
     (case read_process True st z req of Some r \<Rightarrow> r | None \<Rightarrow> Inl Logical_error)"

definition processWatches_simple :: "KeeperStorage \<Rightarrow> ZooKeeperRequest \<Rightarrow>
    (ResponseForSession list \<times> KeeperStorage) result" where
  "processWatches_simple st req =
     (let impl = (\<lambda>event.
            rbind (processWatchesImpl (getPath req) (watches st) (list_watches st) event)
              (\<lambda>(rs, ws, lws). Inr (rs, st\<lparr>watches := ws, list_watches := lws\<rparr>)))
      in case body req of
           CreateRequest c \<Rightarrow> impl CREATED
         | RemoveRequest p ver \<Rightarrow> impl DELETED
         | SetRequest p new_data ver \<Rightarrow> impl CHANGED
         | _ \<Rightarrow> Inr ([], st))"

subsection \<open>Multi requests\<close>

definition sub_operation_type :: "ZooKeeperRequest \<Rightarrow> OperationType result" where
  "sub_operation_type r =
     (case getOpNum r of
        OpCreate \<Rightarrow> Inr WriteOp
      | OpCreateIfNotExists \<Rightarrow> Inr WriteOp
      | OpRemove \<Rightarrow> Inr WriteOp
      | OpSet \<Rightarrow> Inr WriteOp
      | OpCheck \<Rightarrow> Inr WriteOp
      | OpCheckNotExists \<Rightarrow> Inr WriteOp
      | OpGet \<Rightarrow> Inr ReadOp
      | OpExists \<Rightarrow> Inr ReadOp
      | OpList \<Rightarrow> Inr ReadOp
      | OpFilteredList \<Rightarrow> Inr ReadOp
      | OpSimpleList \<Rightarrow> Inr ReadOp
      | _ \<Rightarrow> Inl Bad_arguments)"

fun multi_operation_type :: "OperationType option \<Rightarrow> ZooKeeperRequest list \<Rightarrow>
    OperationType option result" where
  "multi_operation_type operation_type [] = Inr operation_type"
| "multi_operation_type operation_type (r # rs) =
     rbind (sub_operation_type r) (\<lambda>t.
       if operation_type \<noteq> None \<and> operation_type \<noteq> Some t then Inl Bad_arguments
       else multi_operation_type (Some t) rs)"

text \<open>
  The factory: unknown operations are refused, and the constructor of the multi processor checks
  the sub-requests; the result is its \<open>operation_type\<close>.
\<close>

definition get_processor :: "ZooKeeperRequest \<Rightarrow> OperationType option result" where
  "get_processor req =
     (case body req of
        MultiRequest t rs \<Rightarrow> multi_operation_type None rs
      | ReconfigRequest _ _ _ _ \<Rightarrow> Inl Logical_error
      | SessionIDRequest _ _ _ \<Rightarrow> Inl Logical_error
      | _ \<Rightarrow> Inr None)"

definition delta_error :: "Delta list \<Rightarrow> Error option" where
  "delta_error ds =
     (if ds = [] then None
      else case d_operation (last ds) of ErrorDelta e \<Rightarrow> Some e | _ \<Rightarrow> None)"

text \<open>The loop of the multi \<open>preprocess\<close>; \<open>dg0\<close> is the digest on entry, \<open>errs\<close> the codes so far.\<close>

fun multi_preprocess :: "OperationType option \<Rightarrow> zxid \<Rightarrow> session \<Rightarrow> int \<Rightarrow> u64 \<Rightarrow> KeeperStorage \<Rightarrow>
    u64 \<Rightarrow> Error list \<Rightarrow> ZooKeeperRequest list \<Rightarrow> preprocess_result" where
  "multi_preprocess operation_type z sid time dg0 st dg errs [] = Inr (st, dg, [])"
| "multi_preprocess operation_type z sid time dg0 st dg errs (r # rs) =
     rbind (preprocess_simple st z sid time dg r) (\<lambda>(st', dg', new_deltas).
       case (if operation_type = Some WriteOp then delta_error new_deltas else None) of
         Some e \<Rightarrow>
           rbind (rollback z st') (\<lambda>st''.
             Inr (st'', dg0,
               [mkDelta [] z
                  (FailedMultiDelta (errs @ e # replicate (length rs) ZRUNTIMEINCONSISTENCY))]))
       | None \<Rightarrow>
           rbind (add_deltas (new_deltas @ [mkDelta [] z SubDeltaEnd]) st') (\<lambda>st''.
             multi_preprocess operation_type z sid time dg0 st'' dg' (errs @ [ZOK]) rs))"

fun multi_process :: "KeeperStorage \<Rightarrow> zxid \<Rightarrow> ZooKeeperRequest list \<Rightarrow>
    (ZooKeeperResponse list \<times> KeeperStorage) result" where
  "multi_process st z [] = Inr ([], st)"
| "multi_process st z (r # rs) =
     rbind (process_simple st z r) (\<lambda>(resp, st').
       rbind (commit_uncommitted z st') (\<lambda>st''.
         rbind (multi_process st'' z rs) (\<lambda>(resps, st'''). Inr (resp # resps, st'''))))"

fun multi_processLocal :: "KeeperStorage \<Rightarrow> zxid \<Rightarrow> ZooKeeperRequest list \<Rightarrow>
    (ZooKeeperResponse list \<times> KeeperStorage) result" where
  "multi_processLocal st z [] = Inr ([], st)"
| "multi_processLocal st z (r # rs) =
     rbind (processLocal_simple st z r) (\<lambda>(resp, st').
       rbind (multi_processLocal st' z rs) (\<lambda>(resps, st''). Inr (resp # resps, st'')))"

definition multi_body :: "OperationType option \<Rightarrow> ZooKeeperResponse list \<Rightarrow> ResponseBody" where
  "multi_body t resps =
     (if t = None \<or> t = Some WriteOp then MultiWriteResponse resps else MultiReadResponse resps)"

definition error_response :: "Error \<Rightarrow> ZooKeeperResponse" where
  "error_response e = with_error e (fresh_response ErrorResponse)"

fun multi_processWatches :: "KeeperStorage \<Rightarrow> ZooKeeperRequest list \<Rightarrow>
    (ResponseForSession list \<times> KeeperStorage) result" where
  "multi_processWatches st [] = Inr ([], st)"
| "multi_processWatches st (r # rs) =
     rbind (processWatches_simple st r) (\<lambda>(resp, st').
       rbind (multi_processWatches st' rs) (\<lambda>(resps, st''). Inr (resp @ resps, st'')))"

subsection \<open>The processors\<close>

definition preprocess :: "KeeperStorage \<Rightarrow> zxid \<Rightarrow> session \<Rightarrow> int \<Rightarrow> u64 \<Rightarrow> ZooKeeperRequest \<Rightarrow>
    preprocess_result" where
  "preprocess st z sid time dg req =
     (case body req of
        MultiRequest t rs \<Rightarrow>
          rbind (get_processor req) (\<lambda>operation_type.
            multi_preprocess operation_type z sid time dg st dg [] rs)
      | _ \<Rightarrow> preprocess_simple st z sid time dg req)"

definition process :: "KeeperStorage \<Rightarrow> zxid \<Rightarrow> ZooKeeperRequest \<Rightarrow>
    (ZooKeeperResponse \<times> KeeperStorage) result" where
  "process st z req =
     (case body req of
        MultiRequest t rs \<Rightarrow>
          (case us_deltas (uncommitted_state st) of
             [] \<Rightarrow> Inl Undefined_behaviour
           | d # _ \<Rightarrow>
               (case d_operation d of
                  FailedMultiDelta error_codes \<Rightarrow>
                    if length error_codes < length rs then Inl Undefined_behaviour
                    else
                      rbind (commit_uncommitted z st) (\<lambda>st'.
                        Inr (fresh_response
                               (multi_body t (map error_response (take (length rs) error_codes))),
                             st'))
                | _ \<Rightarrow>
                    rbind (multi_process st z rs) (\<lambda>(resps, st').
                      Inr (fresh_response (multi_body t resps), st'))))
      | _ \<Rightarrow> process_simple st z req)"

definition processLocal :: "KeeperStorage \<Rightarrow> zxid \<Rightarrow> ZooKeeperRequest \<Rightarrow>
    (ZooKeeperResponse \<times> KeeperStorage) result" where
  "processLocal st z req =
     (case body req of
        MultiRequest t rs \<Rightarrow>
          rbind (multi_processLocal st z rs) (\<lambda>(resps, st').
            Inr (fresh_response (multi_body t resps), st'))
      | _ \<Rightarrow> processLocal_simple st z req)"

definition processWatches :: "KeeperStorage \<Rightarrow> ZooKeeperRequest \<Rightarrow>
    (ResponseForSession list \<times> KeeperStorage) result" where
  "processWatches st req =
     (case body req of
        MultiRequest t rs \<Rightarrow> multi_processWatches st rs
      | _ \<Rightarrow> processWatches_simple st req)"

subsection \<open>Preprocessing a request\<close>

definition close_delta_pair :: "zxid \<Rightarrow> session \<Rightarrow> path \<Rightarrow> Delta list result" where
  "close_delta_pair z sid p =
     rbind (of_option Undefined_behaviour (parentNodePath p)) (\<lambda>parent.
       Inr [mkDelta parent z (UpdateNodeDelta ParentOfRemove (- 1)),
            mkDelta p z (RemoveNodeDelta (- 1) sid)])"

fun close_deltas :: "zxid \<Rightarrow> session \<Rightarrow> path list \<Rightarrow> Delta list result" where
  "close_deltas z sid [] = Inr []"
| "close_deltas z sid (p # ps) =
     rbind (close_delta_pair z sid p) (\<lambda>ds.
       rbind (close_deltas z sid ps) (\<lambda>ds'. Inr (ds @ ds')))"

definition close_preprocess :: "KeeperStorage \<Rightarrow> zxid \<Rightarrow> session \<Rightarrow> u64 \<Rightarrow> preprocess_result" where
  "close_preprocess st z sid dg =
     (case ephemerals st sid of
        None \<Rightarrow> rbind (calculateNodesDigest st dg []) (\<lambda>dg'. Inr (st, dg', []))
      | Some ps \<Rightarrow>
          rbind (close_deltas z sid ps) (\<lambda>new_deltas.
            let st' = st\<lparr>ephemerals := (ephemerals st)(sid := None)\<rparr>
            in rbind (calculateNodesDigest st' dg new_deltas) (\<lambda>dg'.
                 Inr (st', dg', new_deltas))))"

text \<open>\<open>uncommitted_state.deltas.emplace_back(new_last_zxid, ZNOAUTH)\<close>.\<close>

definition push_noauth :: "zxid \<Rightarrow> KeeperStorage \<Rightarrow> KeeperStorage" where
  "push_noauth z st =
     st\<lparr>uncommitted_state := (uncommitted_state st)
        \<lparr>us_deltas := us_deltas (uncommitted_state st) @ [mkError z ZNOAUTH]\<rparr>\<rparr>"

text \<open>What runs at scope exit: record the transaction and add the deltas.\<close>

definition finish_preprocess :: "zxid \<Rightarrow> int \<Rightarrow> KeeperStorage \<times> u64 \<times> Delta list \<Rightarrow>
    KeeperStorage result" where
  "finish_preprocess z log_idx r =
     (case r of (st, new_digest, new_deltas) \<Rightarrow>
        let transaction =
              \<lparr>ti_zxid = z,
               ti_nodes_digest =
                 (if digestEnabled (keeper_context st)
                  then \<lparr>dg_version = CURRENT_DIGEST_VERSION, dg_value = new_digest\<rparr>
                  else \<lparr>dg_version = NO_DIGEST, dg_value = 0\<rparr>),
               ti_log_idx = log_idx\<rparr>
        in add_deltas new_deltas
             (st\<lparr>uncommitted_transactions := uncommitted_transactions st @ [transaction]\<rparr>))"

definition preprocess_new :: "ZooKeeperRequest \<Rightarrow> session \<Rightarrow> int \<Rightarrow> zxid \<Rightarrow> bool \<Rightarrow> int \<Rightarrow>
    KeeperStorage \<Rightarrow> KeeperStorage result" where
  "preprocess_new req sid time z check_acl log_idx st =
     (let new_digest = dg_value (getNodesDigest st False) in
      rbind (get_processor req) (\<lambda>_.
        rbind
          (if getOpNum req = OpClose then close_preprocess st z sid new_digest
           else
             rbind (if check_acl then checkAuth st req sid False else Inr True) (\<lambda>authorised.
               if authorised then preprocess st z sid time new_digest req
               else Inr (push_noauth z st, new_digest, [])))
          (finish_preprocess z log_idx)))"

definition set_last_log_idx :: "int \<Rightarrow> KeeperStorage \<Rightarrow> KeeperStorage" where
  "set_last_log_idx log_idx st =
     st\<lparr>uncommitted_transactions :=
          butlast (uncommitted_transactions st) @
          [(last (uncommitted_transactions st))\<lparr>ti_log_idx := log_idx\<rparr>]\<rparr>"

definition preprocessRequest :: "ZooKeeperRequest \<Rightarrow> session \<Rightarrow> int \<Rightarrow> zxid \<Rightarrow> bool \<Rightarrow> Digest option \<Rightarrow>
    int \<Rightarrow> KeeperStorage \<Rightarrow> KeeperStorage result" where
  "preprocessRequest req sid time new_last_zxid check_acl digest log_idx st =
     (if \<not> initialized st then Inl Logical_error
      else
        let last_zxid = getNextZXID st - 1 in
        if uncommitted_transactions st = [] then
          (if last_zxid \<noteq> old_snapshot_zxid st \<and> new_last_zxid \<le> last_zxid then Inl Logical_error
           else preprocess_new req sid time new_last_zxid check_acl log_idx st)
        else if last_zxid = new_last_zxid \<and>
                (case digest of None \<Rightarrow> False | Some dg \<Rightarrow> checkDigest dg (getNodesDigest st False)) then
          Inr (set_last_log_idx log_idx st)
        else if new_last_zxid \<le> last_zxid then Inl Logical_error
        else preprocess_new req sid time new_last_zxid check_acl log_idx st)"

subsection \<open>Processing a request\<close>

fun close_watches :: "zxid \<Rightarrow> Delta list \<Rightarrow> KeeperStorage \<Rightarrow>
    (ResponseForSession list \<times> KeeperStorage) result" where
  "close_watches z [] st = Inr ([], st)"
| "close_watches z (d # ds) st =
     (if d_zxid d > z then Inr ([], st)
      else
        rbind
          (case d_operation d of
             RemoveNodeDelta ver ow \<Rightarrow>
               rbind (processWatchesImpl (d_path d) (watches st) (list_watches st) DELETED)
                 (\<lambda>(rs, ws, lws). Inr (rs, st\<lparr>watches := ws, list_watches := lws\<rparr>))
           | _ \<Rightarrow> Inr ([], st))
          (\<lambda>(rs, st'). rbind (close_watches z ds st') (\<lambda>(rs', st''). Inr (rs @ rs', st''))))"

definition process_close :: "ZooKeeperRequest \<Rightarrow> session \<Rightarrow> KeeperStorage \<Rightarrow>
    (ResponseForSession list \<times> KeeperStorage) result" where
  "process_close req sid st =
     (let z = storage_zxid st in
      rbind (storage_commit z st) (\<lambda>(_, st).
      rbind (close_watches z (us_deltas (uncommitted_state st)) st) (\<lambda>(results, st).
      rbind (commit_uncommitted z st) (\<lambda>st.
        let st = clearDeadWatches sid st;
            st = st\<lparr>session_and_auth := (session_and_auth st)(sid := None)\<rparr>;
            response = with_ids (xid req) (storage_zxid st) (fresh_response CloseResponse)
        in rbind (remove (session_expiry_queue st) sid) (\<lambda>(q, _).
             Inr (results @ [\<lparr>rs_session_id = sid, rs_response = response\<rparr>],
                  st\<lparr>session_expiry_queue := q,
                     session_and_timeout := (session_and_timeout st)(sid := None)\<rparr>))))))"

definition is_list_op :: "OpNum \<Rightarrow> bool" where
  "is_list_op op \<longleftrightarrow> op \<in> {OpList, OpSimpleList, OpFilteredList}"

definition register_watch :: "ZooKeeperRequest \<Rightarrow> session \<Rightarrow> Error \<Rightarrow> KeeperStorage \<Rightarrow> KeeperStorage" where
  "register_watch req sid e st =
     (let p = getPath req;
          data_watch = (\<lambda>st. case add_watch p sid (watches st, sessions_and_watchers st) of
             (ws, sw) \<Rightarrow> st\<lparr>watches := ws, sessions_and_watchers := sw\<rparr>);
          list_watch = (\<lambda>st. case add_watch p sid (list_watches st, sessions_and_watchers st) of
             (ws, sw) \<Rightarrow> st\<lparr>list_watches := ws, sessions_and_watchers := sw\<rparr>)
      in if \<not> has_watch req then st
         else if e = ZOK then (if is_list_op (getOpNum req) then list_watch st else data_watch st)
         else if e = ZNONODE \<and> getOpNum req = OpExists then data_watch st
         else st)"

definition process_normal :: "ZooKeeperRequest \<Rightarrow> session \<Rightarrow> bool \<Rightarrow> bool \<Rightarrow> KeeperStorage \<Rightarrow>
    (ResponseForSession list \<times> KeeperStorage) result" where
  "process_normal req sid check_acl is_local st =
     (let z = storage_zxid st in
      rbind (get_processor req) (\<lambda>_.
      rbind
        (if is_local then
           rbind (if check_acl then checkAuth st req sid True else Inr True) (\<lambda>authorised.
             if authorised then processLocal st z req
             else Inr (with_error ZNOAUTH (makeResponse req), st))
         else
           rbind (process st z req) (\<lambda>(response, st).
             rbind (commit_uncommitted z st) (\<lambda>st. Inr (response, st))))
        (\<lambda>(response, st).
          let st = register_watch req sid (resp_error response) st
          in rbind (if resp_error response = ZOK then processWatches st req else Inr ([], st))
               (\<lambda>(watch_responses, st).
                 Inr (watch_responses @
                        [\<lparr>rs_session_id = sid,
                          rs_response = with_ids (xid req) (storage_zxid st) response\<rparr>],
                      st)))))"

text \<open>\<open>now\<close> is the clock that \<open>addNewSessionOrUpdate\<close> reads.\<close>

definition touch_session :: "int \<Rightarrow> session \<Rightarrow> KeeperStorage \<Rightarrow> KeeperStorage result" where
  "touch_session now sid st =
     (let timeout = (case session_and_timeout st sid of None \<Rightarrow> 0 | Some t \<Rightarrow> t)
      in rbind (addNewSessionOrUpdate (session_expiry_queue st) now sid timeout) (\<lambda>q.
           Inr (st\<lparr>session_expiry_queue := q,
                   session_and_timeout := (session_and_timeout st)(sid \<mapsto> timeout)\<rparr>)))"

definition begin_commit :: "zxid option \<Rightarrow> KeeperStorage \<Rightarrow> KeeperStorage result" where
  "begin_commit new_last_zxid st =
     (case new_last_zxid of
        None \<Rightarrow> Inr st
      | Some z \<Rightarrow>
          (case uncommitted_transactions st of
             [] \<Rightarrow> Inl Logical_error
           | t # ts \<Rightarrow>
               if ti_zxid t \<noteq> z then Inl Logical_error
               else Inr (st\<lparr>storage_zxid := z, uncommitted_transactions := ts\<rparr>)))"

definition processRequest :: "int \<Rightarrow> ZooKeeperRequest \<Rightarrow> session \<Rightarrow> zxid option \<Rightarrow> bool \<Rightarrow> bool \<Rightarrow>
    KeeperStorage \<Rightarrow> (ResponseForSession list \<times> KeeperStorage) result" where
  "processRequest now req sid new_last_zxid check_acl is_local st =
     (if \<not> initialized st then Inl Logical_error
      else
        rbind (begin_commit new_last_zxid st) (\<lambda>st.
        rbind (touch_session now sid st) (\<lambda>st.
          if getOpNum req = OpClose then process_close req sid st
          else if getOpNum req = OpHeartbeat then
            Inr ([\<lparr>rs_session_id = sid,
                   rs_response = with_ids (xid req) (storage_zxid st) (makeResponse req)\<rparr>], st)
          else process_normal req sid check_acl is_local st)))"

subsection \<open>Rolling a request back\<close>

text \<open>An exception during the rollback terminates the server.\<close>

definition rollbackRequest :: "zxid \<Rightarrow> bool \<Rightarrow> KeeperStorage \<Rightarrow> KeeperStorage result" where
  "rollbackRequest rollback_zxid allow_missing st =
     (let ts = uncommitted_transactions st in
      if allow_missing \<and> (ts = [] \<or> ti_zxid (last ts) < rollback_zxid) then Inr st
      else if ts = [] \<or> ti_zxid (last ts) \<noteq> rollback_zxid then Inl Logical_error
      else
        (case rollback rollback_zxid (st\<lparr>uncommitted_transactions := butlast ts\<rparr>) of
           Inl _ \<Rightarrow> Inl Storage_inconsistency
         | Inr st' \<Rightarrow> Inr st'))"

end
