(* ===== verification/KeeperInvariant.thy ===== *)
theory KeeperInvariant
  imports KeeperPending KeeperRequests
begin

text \<open>
  Well-formed trees, and the deltas of every request on them: on a well-formed view each processor
  produces deltas that the specification accepts, leading to a well-formed tree whose digest is the
  one the processor computed and whose ephemeral nodes are the registered ones.
\<close>

subsection \<open>Well-formed trees\<close>

definition children_of :: "tree \<Rightarrow> path \<Rightarrow> path set" where
  "children_of t p = {c. c \<noteq> p \<and> parentNodePath c = Some p \<and> t c \<noteq> None}"

text \<open>
  Every node hangs under a persistent node, the child counter counts the children (the system node
  \<open>/keeper\<close> apart, whose children are added without touching its statistics), a node is ephemeral
  when it has an owner, and the root and the system node are there and persistent.
\<close>

definition node_ok :: "tree \<Rightarrow> path \<Rightarrow> Node \<Rightarrow> bool" where
  "node_ok t p n \<longleftrightarrow>
     (\<exists>q m. parentNodePath p = Some q \<and> t q = Some m \<and> \<not> isEphemeral m) \<and>
     (isEphemeral n \<longleftrightarrow> ephemeralOwner n \<noteq> 0) \<and>
     (p \<noteq> keeper_system_path \<longrightarrow> numChildren n = int (card (children_of t p)))"

definition tree_inv :: "tree \<Rightarrow> bool" where
  "tree_inv t \<longleftrightarrow>
     finite (dom t) \<and> t [] = None \<and>
     (\<exists>k. t keeper_system_path = Some k \<and> \<not> isEphemeral k) \<and>
     (\<forall>p n. t p = Some n \<longrightarrow> node_ok t p n)"

lemma tree_invD:
  assumes "tree_inv t"
  shows "finite (dom t)" "t [] = None" "\<exists>k. t keeper_system_path = Some k \<and> \<not> isEphemeral k"
    "t p = Some n \<Longrightarrow> node_ok t p n"
  using assms by (simp_all add: tree_inv_def)

lemma tree_inv_parent:
  assumes "tree_inv t" and "t p = Some n"
  obtains q m where "parentNodePath p = Some q" and "t q = Some m" and "\<not> isEphemeral m"
  using tree_invD(4) [OF assms] that by (auto simp: node_ok_def)

lemma tree_inv_count:
  "tree_inv t \<Longrightarrow> t p = Some n \<Longrightarrow> p \<noteq> keeper_system_path \<Longrightarrow>
   numChildren n = int (card (children_of t p))"
  using tree_invD(4) by (simp add: node_ok_def)

lemma parent_not_Nil: "parentNodePath p = Some q \<Longrightarrow> q \<noteq> []"
proof -
  assume p: "parentNodePath p = Some q"
  then have "CHR ''/'' \<in> set p" by (metis option.distinct(1) parentNodePath_None)
  then obtain a b where "p = a @ CHR ''/'' # b" "CHR ''/'' \<notin> set b" by (rule path_split_last)
  with p show "q \<noteq> []" by (auto split: if_splits)
qed

lemma parent_self: "parentNodePath p = Some p \<longleftrightarrow> p = ''/''"
proof
  assume p: "parentNodePath p = Some p"
  then have "CHR ''/'' \<in> set p" by (metis option.distinct(1) parentNodePath_None)
  then obtain a b where "p = a @ CHR ''/'' # b" "CHR ''/'' \<notin> set b" by (rule path_split_last)
  with p show "p = ''/''" by (auto split: if_splits)
next
  assume "p = ''/''"
  then show "parentNodePath p = Some p" using parentNodePath_slash [of "[]"] by simp
qed

lemma finite_children: "finite (dom t) \<Longrightarrow> finite (children_of t p)"
  by (rule finite_subset [of _ "dom t"]) (auto simp: children_of_def)

lemma parent_of_system: "parentNodePath keeper_system_path = Some ''/''"
  by code_simp

lemma system_not_root: "keeper_system_path \<noteq> ''/''"
  by (simp add: keeper_system_path_def)

lemma tree_inv_root:
  assumes "tree_inv t"
  obtains r where "t ''/'' = Some r" and "\<not> isEphemeral r" and "numChildren r \<noteq> 0"
proof -
  obtain k where "t keeper_system_path = Some k" using tree_invD(3) [OF assms] by blast
  then obtain r where r: "t ''/'' = Some r" "\<not> isEphemeral r"
    using tree_inv_parent [OF assms] parent_of_system by (metis option.inject)
  have "keeper_system_path \<in> children_of t ''/''"
    using \<open>t keeper_system_path = Some k\<close> parent_of_system system_not_root
    by (simp add: children_of_def)
  then have "card (children_of t ''/'') \<noteq> 0"
    using finite_children [OF tree_invD(1) [OF assms]] by (metis card_0_eq empty_iff)
  then have "numChildren r \<noteq> 0"
    using tree_inv_count [OF assms r(1)] system_not_root by (metis of_nat_eq_0_iff)
  with r that show ?thesis by blast
qed

lemma tree_inv_leaf:
  assumes "tree_inv t" and "t p = Some n" and "numChildren n = 0" and "p \<noteq> keeper_system_path"
  shows "children_of t p = {}"
  using tree_inv_count [OF assms(1,2,4)] assms(3) finite_children [OF tree_invD(1) [OF assms(1)]] by simp

lemma node_ok_frame:
  assumes "node_ok t p n" and "children_of t' p = children_of t p"
    and "\<And>q m. parentNodePath p = Some q \<Longrightarrow> t q = Some m \<Longrightarrow> \<not> isEphemeral m \<Longrightarrow>
      \<exists>m'. t' q = Some m' \<and> \<not> isEphemeral m'"
  shows "node_ok t' p n"
  using assms by (fastforce simp: node_ok_def)

lemma node_ok_update:
  assumes "node_ok t p n" and "\<not> isEphemeral n \<Longrightarrow> p \<noteq> keeper_system_path \<Longrightarrow>
      int (card (children_of t' p)) = int (card (children_of t p)) + children_delta f"
    and "isEphemeral n \<Longrightarrow> children_of t' p = children_of t p"
    and "\<And>q m. parentNodePath p = Some q \<Longrightarrow> t q = Some m \<Longrightarrow> \<not> isEphemeral m \<Longrightarrow>
      \<exists>m'. t' q = Some m' \<and> \<not> isEphemeral m'"
  shows "node_ok t' p (update_fn f n)"
proof -
  have "numChildren (update_fn f n) =
      (if isEphemeral n then numChildren n else numChildren n + children_delta f)"
    using numChildren_update_fn [of n f] by (simp add: numChildren_def)
  with assms show ?thesis by (fastforce simp: node_ok_def)
qed

lemma tree_inv_update:
  assumes "tree_inv t" and "t p = Some n" and "children_delta f = 0"
  shows "tree_inv (t(p \<mapsto> update_fn f n))"
proof -
  let ?t = "t(p \<mapsto> update_fn f n)"
  have kids: "children_of ?t q = children_of t q" for q
    using assms(2) by (auto simp: children_of_def)
  have keep: "\<exists>m'. ?t q = Some m' \<and> \<not> isEphemeral m'" if "t q = Some m" "\<not> isEphemeral m" for q m
    using that assms(2) by (cases "q = p") simp_all
  have "node_ok ?t q m" if "?t q = Some m" for q m
  proof (cases "q = p")
    case True
    with that assms(3) keep kids show ?thesis
      using node_ok_update [OF tree_invD(4) [OF assms(1,2)], of ?t f] by simp
  next
    case False
    with that show ?thesis
      by (intro node_ok_frame [OF tree_invD(4) [OF assms(1)]] kids keep) simp_all
  qed
  then show ?thesis using tree_invD(1-3) [OF assms(1)] assms(2) by (auto simp: tree_inv_def)
qed

lemma tree_inv_create:
  assumes "tree_inv t" and p: "parentNodePath p = Some q" and q: "t q = Some m" "\<not> isEphemeral m"
    and "t p = None" and "children_delta f = 1" and "st_numChildren stat = 0"
  shows "tree_inv (t(q \<mapsto> update_fn f m, p \<mapsto> new_node stat new_data))"
proof -
  let ?t = "t(q \<mapsto> update_fn f m, p \<mapsto> new_node stat new_data)"
  have ne: "q \<noteq> p" using q(1) assms(5) by auto
  have orphan: "t c = None" if "parentNodePath c = Some p" for c
    using that tree_inv_parent [OF assms(1), of c] assms(5) by (metis not_None_eq option.inject)
  have kids_q: "children_of ?t q = insert p (children_of t q)"
    using p ne q(1) by (auto simp: children_of_def)
  have kids_p: "children_of ?t p = {}"
    using orphan ne q(1) by (auto simp: children_of_def)
  have kids: "children_of ?t r = children_of t r" if "r \<noteq> q" for r
    using that p q(1) by (auto simp: children_of_def)
  have keep: "\<exists>m'. ?t r = Some m' \<and> \<not> isEphemeral m'" if "t r = Some m0" "\<not> isEphemeral m0" for r m0
    using that q assms(5) by (cases "r = q") auto
  have "node_ok ?t r n" if "?t r = Some n" for r n
  proof -
    consider "r = p" | "r = q" "r \<noteq> p" | "r \<noteq> p" "r \<noteq> q" by blast
    then show ?thesis
    proof cases
      case 1
      have "numChildren (new_node stat new_data) = 0"
        using assms(7) by (simp add: new_node_def numChildren_def isEphemeral_def setData_def
            copyStats_def Node_default_def Let_def setNumChildren_def setEphemeralOwner_def)
      then show ?thesis using 1 that kids_p p q ne by (auto simp: node_ok_def)
    next
      case 2
      have "p \<notin> children_of t q" using assms(5) by (simp add: children_of_def)
      then have "int (card (children_of ?t q)) = int (card (children_of t q)) + 1"
        using kids_q finite_children [OF tree_invD(1) [OF assms(1)]] by simp
      with 2 that assms(6) keep q(2) show ?thesis
        using node_ok_update [OF tree_invD(4) [OF assms(1) q(1)], of ?t f] by simp
    next
      case 3
      with that show ?thesis
        by (intro node_ok_frame [OF tree_invD(4) [OF assms(1)]] kids keep) simp_all
    qed
  qed
  moreover have "p \<noteq> []" using p parentNodePath_None [of "[]"] by auto
  moreover have "\<exists>k. ?t keeper_system_path = Some k \<and> \<not> isEphemeral k"
    using tree_invD(3) [OF assms(1)] keep by blast
  ultimately show ?thesis
    using tree_invD(1,2) [OF assms(1)] parent_not_Nil [OF p] by (auto simp: tree_inv_def)
qed

lemma tree_inv_remove:
  assumes "tree_inv t" and p: "parentNodePath p = Some q" and q: "t q = Some m"
    and n: "t p = Some n" "numChildren n = 0" and "p \<noteq> ''/''" "p \<noteq> keeper_system_path"
    and "children_delta f = - 1"
  shows "tree_inv (t(q \<mapsto> update_fn f m, p := None))"
proof -
  let ?t = "t(q \<mapsto> update_fn f m, p := None)"
  have ne: "q \<noteq> p" using p assms(6) parent_self by metis
  have "\<not> isEphemeral m" using tree_inv_parent [OF assms(1) n(1)] p q by (metis option.inject)
  have no_kids: "children_of t p = {}" using assms(1) n assms(7) by (rule tree_inv_leaf)
  have kids_q: "children_of ?t q = children_of t q - {p}"
    using p ne q by (auto simp: children_of_def)
  have p_in: "p \<in> children_of t q" using p ne n(1) by (simp add: children_of_def)
  have kids: "children_of ?t r = children_of t r" if "r \<noteq> q" for r
    using that p q by (auto simp: children_of_def)
  have keep: "\<exists>m'. ?t s = Some m' \<and> \<not> isEphemeral m'"
    if "parentNodePath r = Some s" "t s = Some m0" "\<not> isEphemeral m0" "t r \<noteq> None" "r \<noteq> p" for r s m0
  proof -
    have "s \<noteq> p" using that(1,4,5) no_kids by (auto simp: children_of_def)
    with that(2,3) q show ?thesis by (cases "s = q") auto
  qed
  have "node_ok ?t r k" if "?t r = Some k" for r k
  proof (cases "r = q")
    case True
    have "card (children_of t q) > 0"
      using p_in finite_children [OF tree_invD(1) [OF assms(1)]] card_gt_0_iff by blast
    then have "int (card (children_of ?t q)) = int (card (children_of t q)) - 1"
      using kids_q p_in finite_children [OF tree_invD(1) [OF assms(1)]] by (simp add: of_nat_diff)
    with True that assms(8) keep q ne \<open>\<not> isEphemeral m\<close> show ?thesis
      using node_ok_update [OF tree_invD(4) [OF assms(1) q], of ?t f] by auto
  next
    case False
    then have "r \<noteq> p" "t r = Some k" using that by (auto split: if_splits)
    then show ?thesis
      using False keep by (intro node_ok_frame [OF tree_invD(4) [OF assms(1)]] kids) auto
  qed
  then show ?thesis
    using tree_invD(1-3) [OF assms(1)] parent_not_Nil [OF p] assms(7) \<open>\<not> isEphemeral m\<close>
    by (auto simp: tree_inv_def)
qed

end
