(* ===== verification/KeeperDigest.thy ===== *)
theory KeeperDigest
  imports KeeperInvariant
begin

text \<open>
  The digest that \<open>calculateNodesDigest\<close> predicts for a list of new deltas is the digest of the tree
  that results from them, although it is computed before any of them is applied: the function
  keeps a local map of the nodes it has changed so far.
\<close>

text \<open>A node is created at a path that no earlier delta of the list touches.\<close>

definition is_create_op :: "Operation \<Rightarrow> bool" where
  "is_create_op op \<longleftrightarrow> (case op of CreateNodeDelta _ _ _ \<Rightarrow> True | _ \<Rightarrow> False)"

fun creates_fresh :: "path list \<Rightarrow> Delta list \<Rightarrow> bool" where
  "creates_fresh seen [] \<longleftrightarrow> True"
| "creates_fresh seen (d # ds) \<longleftrightarrow>
     (is_create_op (d_operation d) \<longrightarrow> d_path d \<notin> set seen) \<and> creates_fresh (d_path d # seen) ds"

text \<open>
  The state of the loop: the changed nodes are those of the tree \<open>t\<close> reached so far, the others are
  those of the view, and the digests of the changed paths have been taken out of the sum.
\<close>

definition digest_inv :: "tree \<Rightarrow> u64 \<Rightarrow> tree \<Rightarrow> u64 \<Rightarrow> updated_nodes \<Rightarrow> bool" where
  "digest_inv v dg t cur upd \<longleftrightarrow>
     distinct (map fst upd) \<and>
     (\<forall>p. map_of upd p = None \<longrightarrow> t p = v p) \<and>
     (\<forall>p x. map_of upd p = Some x \<longrightarrow> map_option core x = t p) \<and>
     cur = dg - (\<Sum>p\<in>fst ` set upd. digest_at p (v p))"

lemma digest_inv_start: "digest_inv v dg v dg []"
  by (simp add: digest_inv_def)

lemma digest_inv_touch:
  assumes "digest_inv v dg t cur upd" and "map_option core x = t' p" and "\<And>q. q \<noteq> p \<Longrightarrow> t' q = t q"
    and "cur' = cur - (if map_of upd p = None then digest_at p (v p) else 0)"
  shows "digest_inv v dg t' cur' (AList.update p x upd)"
proof -
  have keys: "fst ` set (AList.update p x upd) = insert p (fst ` set upd)"
    using dom_update [of p x upd] by (simp add: dom_map_of_conv_image_fst [symmetric])
  have "map_of upd p = None \<longleftrightarrow> p \<notin> fst ` set upd" by (simp add: map_of_eq_None_iff)
  then have "cur' = dg - (\<Sum>q\<in>fst ` set (AList.update p x upd). digest_at q (v q))"
    using assms(1,4) keys by (auto simp: digest_inv_def insert_absorb)
  with assms show ?thesis
    by (auto simp: digest_inv_def distinct_update update_conv)
qed

lemma digest_at_core: "map_option core x = y \<Longrightarrow> digest_at p x = digest_at p y"
  by (cases x) (auto simp: digest_at_def calculateDigest_core)

lemma view_getNode: "view st p = map_option core (getNode st p)"
  by (simp add: view_def)

lemma digest_delta_step:
  assumes inv: "digest_inv (view st) dg t cur upd" and "tree_step d t = Some t'"
    and "is_create_op (d_operation d) \<Longrightarrow> d_path d \<notin> fst ` set upd"
  shows "\<exists>cur' upd'. digest_delta st (cur, upd) d = Inr (cur', upd') \<and>
    digest_inv (view st) dg t' cur' upd' \<and> fst ` set upd' \<subseteq> insert (d_path d) (fst ` set upd)"
proof -
  let ?p = "d_path d"
  have step: "op_step ?p (d_operation d) t = Some t'"
    using assms(2) by (auto simp: tree_step_def split: if_splits)
  note eff = op_step_effect [OF step]
  have keys: "fst ` set (AList.update ?p x upd) \<subseteq> insert ?p (fst ` set upd)" for x
    using dom_update [of ?p x upd] by (simp add: dom_map_of_conv_image_fst [symmetric])
  have same: "t ?p = view st ?p" if "map_of upd ?p = None"
    using inv that by (simp add: digest_inv_def)
  have known: "map_option core x = t ?p" if "map_of upd ?p = Some x" for x
    using inv that by (simp add: digest_inv_def)
  show ?thesis
  proof (cases "d_operation d")
    case (CreateNodeDelta stat acls new_data)
    then have none: "map_of upd ?p = None" using assms(3) by (simp add: is_create_op_def map_of_eq_None_iff)
    have "t ?p = None" using step CreateNodeDelta by (auto simp: op_step_def split: option.splits if_splits)
    then have "digest_at ?p (view st ?p) = 0" using same [OF none] by (simp add: digest_at_def)
    then have "digest_inv (view st) dg t' cur (AList.update ?p (Some (new_node stat new_data)) upd)"
      using eff CreateNodeDelta by (intro digest_inv_touch [OF inv]) simp_all
    with CreateNodeDelta none keys show ?thesis
      by (simp add: digest_delta_def emplace_def new_node_def)
  next
    case (RemoveNodeDelta ver ow)
    obtain n where n: "t ?p = Some n"
      using step RemoveNodeDelta by (auto simp: op_step_def split: option.splits)
    define cur' where "cur' = cur - (if map_of upd ?p = None then digest_at ?p (view st ?p) else 0)"
    have "digest_inv (view st) dg t' cur' (AList.update ?p None upd)"
      using eff RemoveNodeDelta by (intro digest_inv_touch [OF inv]) (simp_all add: cur'_def)
    moreover have "digest_delta st (cur, upd) d = Inr (cur', AList.update ?p None upd)"
    proof (cases "map_of upd ?p")
      case None
      then obtain m where "getNode st ?p = Some m" "core m = n"
        using same [OF None] n by (cases "getNode st ?p") (auto simp: view_getNode)
      with None RemoveNodeDelta show ?thesis
        by (auto simp: digest_delta_def cur'_def digest_at_def view_getNode calculateDigest_core)
    qed (simp add: digest_delta_def cur'_def RemoveNodeDelta)
    ultimately show ?thesis using keys by blast
  next
    case (UpdateNodeDelta f ver)
    obtain n where n: "t ?p = Some n"
      using step UpdateNodeDelta by (auto simp: op_step_def split: option.splits)
    then have t': "t' ?p = Some (update_fn f n)" "\<And>q. q \<noteq> ?p \<Longrightarrow> t' q = t q"
      using eff UpdateNodeDelta by simp_all
    define cur' where "cur' = cur - (if map_of upd ?p = None then digest_at ?p (view st ?p) else 0)"
    have touch: "digest_inv (view st) dg t' cur' (AList.update ?p (Some (update_fn f m)) upd)"
      if "core m = n" for m
      using t' that by (intro digest_inv_touch [OF inv]) (simp_all add: cur'_def core_update_fn)
    show ?thesis
    proof (cases "map_of upd ?p")
      case None
      then obtain m where m: "getNode st ?p = Some m" "core m = n"
        using same [OF None] n by (cases "getNode st ?p") (auto simp: view_getNode)
      have "calculateDigest ?p (shallowCopy m) = calculateDigest ?p (core m)"
        by (rule calculateDigest_core_eq) simp
      then have "calculateDigest ?p (shallowCopy m) = digest_at ?p (view st ?p)"
        using m(1) by (simp add: digest_at_def view_getNode)
      then have "digest_delta st (cur, upd) d =
          Inr (cur', AList.update ?p (Some (update_fn f (shallowCopy m))) upd)"
        using None UpdateNodeDelta m by (simp add: digest_delta_def cur'_def)
      with touch [of "shallowCopy m"] m(2) keys show ?thesis by (metis core_simps(6))
    next
      case (Some x)
      then obtain m where m: "x = Some m" "core m = n" using known n by auto
      then have "digest_delta st (cur, upd) d = Inr (cur', AList.update ?p (Some (update_fn f m)) upd)"
        using Some UpdateNodeDelta by (simp add: digest_delta_def cur'_def)
      with touch [OF m(2)] keys show ?thesis by blast
    qed
  qed (use eff inv in \<open>auto simp: digest_delta_def\<close>)
qed

lemma digest_loop:
  "digest_inv (view st) dg t cur upd \<Longrightarrow> tree_run ds t = Some t' \<Longrightarrow> creates_fresh seen ds \<Longrightarrow>
   fst ` set upd \<subseteq> set seen \<Longrightarrow>
   \<exists>cur' upd'. rfold (digest_delta st) (cur, upd) ds = Inr (cur', upd') \<and>
     digest_inv (view st) dg t' cur' upd'"
proof (induction ds arbitrary: t cur upd seen)
  case (Cons d ds)
  then obtain t1 where t1: "tree_step d t = Some t1" "tree_run ds t1 = Some t'"
    by (auto simp: bind_eq_Some_conv)
  have "is_create_op (d_operation d) \<Longrightarrow> d_path d \<notin> fst ` set upd" using Cons.prems(3,4) by auto
  from digest_delta_step [OF Cons.prems(1) t1(1) this] obtain cur1 upd1 where
    1: "digest_delta st (cur, upd) d = Inr (cur1, upd1)" "digest_inv (view st) dg t1 cur1 upd1"
      "fst ` set upd1 \<subseteq> insert (d_path d) (fst ` set upd)" by blast
  have "fst ` set upd1 \<subseteq> set (d_path d # seen)" using 1(3) Cons.prems(4) by auto
  with Cons.IH [OF 1(2) t1(2)] Cons.prems(3) 1(1) show ?case by auto
qed auto

lemma digest_updated_sum:
  "distinct (map fst upd) \<Longrightarrow>
   digest_updated cur upd = cur + (\<Sum>p\<in>fst ` set upd. digest_at p (the (map_of upd p)))"
proof (induction cur upd rule: digest_updated.induct)
  case (2 cur p m)
  then have "(\<Sum>q\<in>fst ` set m. digest_at q (the (map_of ((p, None) # m) q))) =
      (\<Sum>q\<in>fst ` set m. digest_at q (the (map_of m q)))"
    by (intro sum.cong) auto
  with 2 show ?case by (simp add: digest_at_def)
next
  case (3 cur p n m)
  then have "(\<Sum>q\<in>fst ` set m. digest_at q (the (map_of ((p, Some n) # m) q))) =
      (\<Sum>q\<in>fst ` set m. digest_at q (the (map_of m q)))"
    by (intro sum.cong) auto
  with 3 show ?case by (simp add: digest_at_def)
qed simp

lemma digest_inv_final:
  assumes "digest_inv v dg t cur upd" and "finite (dom v)" and "finite (dom t)"
  shows "digest_updated cur upd = dg + (tree_digest t - tree_digest v)"
proof -
  let ?K = "fst ` set upd" and ?D = "dom v \<union> dom t \<union> fst ` set upd"
  have inv: "distinct (map fst upd)" "\<And>p. p \<notin> ?K \<Longrightarrow> t p = v p"
      "\<And>p. p \<in> ?K \<Longrightarrow> map_option core (the (map_of upd p)) = t p"
      "cur = dg - (\<Sum>p\<in>?K. digest_at p (v p))"
    using assms(1) by (auto simp: digest_inv_def map_of_eq_None_iff dest!: weak_map_of_SomeI)
  have "finite ?D" using assms by simp
  have whole: "tree_digest u = (\<Sum>p\<in>?D. digest_at p (u p))" if "dom u \<subseteq> ?D" for u
    unfolding tree_digest_def using \<open>finite ?D\<close> that
    by (intro sum.mono_neutral_left) (auto simp: digest_at_def split: option.splits)
  have "tree_digest t - tree_digest v = (\<Sum>p\<in>?D. digest_at p (t p) - digest_at p (v p))"
    by (subst whole, blast, subst whole, blast) (simp only: sum_subtractf)
  also have "\<dots> = (\<Sum>p\<in>?K. digest_at p (t p) - digest_at p (v p))"
    using \<open>finite ?D\<close> inv(2) by (intro sum.mono_neutral_right) auto
  also have "\<dots> = (\<Sum>p\<in>?K. digest_at p (t p)) - (\<Sum>p\<in>?K. digest_at p (v p))"
    by (simp add: sum_subtractf)
  also have "(\<Sum>p\<in>?K. digest_at p (t p)) = (\<Sum>p\<in>?K. digest_at p (the (map_of upd p)))"
    using inv(3) by (intro sum.cong refl digest_at_core [symmetric]) auto
  finally show ?thesis using digest_updated_sum [OF inv(1), of cur] inv(4) by simp
qed

lemma calculateNodesDigest_ok:
  assumes "tree_run ds (view st) = Some t" and "finite (dom (view st))" and "creates_fresh [] ds"
  shows "calculateNodesDigest st dg ds =
    Inr (dg + digest_add st (tree_digest t - tree_digest (view st)))"
proof -
  obtain cur upd where "rfold (digest_delta st) (dg, []) ds = Inr (cur, upd)"
      "digest_inv (view st) dg t cur upd"
    using digest_loop [OF digest_inv_start [of "view st" dg] assms(1,3)] by auto
  moreover from this(2) have "digest_updated cur upd = dg + (tree_digest t - tree_digest (view st))"
    using assms(2) tree_run_finite [OF assms(1,2)] by (rule digest_inv_final)
  ultimately show ?thesis by (simp add: calculateNodesDigest_def digest_add_def)
qed

end
