(* ===== verification/KeeperPreprocess.thy ===== *)
theory KeeperPreprocess
  imports KeeperDigest
begin

text \<open>
  What the processors produce: on a well-formed view whose ephemeral nodes are registered, the
  deltas of a request are accepted by the specification and lead to a well-formed tree whose
  ephemeral nodes are registered and whose digest is the one that the processor returns.
\<close>

declare update_fn.simps [simp del]

subsection \<open>Sequential names\<close>

lemma digit_no_slash: "k < 10 \<Longrightarrow> char_of (48 + k :: nat) \<noteq> CHR ''/''"
proof
  assume k: "k < 10" and "char_of (48 + k) = CHR ''/''"
  then have "of_char (char_of (48 + k) :: char) = (47 :: nat)" by simp
  moreover have "of_char (char_of (48 + k) :: char) = (48 + k) mod 256" by simp
  ultimately show False using k by simp
qed

lemma decimal_no_slash: "CHR ''/'' \<notin> set (decimal n)"
proof (induction n rule: decimal.induct)
  case (1 n)
  then show ?case
    using digit_no_slash [of n] digit_no_slash [of "n mod 10"] by (subst decimal.simps) auto
qed

lemma seq_num_str_no_slash: "CHR ''/'' \<notin> set (seq_num_str k)"
  using decimal_no_slash by (auto simp: seq_num_str_def print_int_def Let_def)

lemma parentNodePath_extend:
  assumes "parentNodePath p = Some q" and "CHR ''/'' \<notin> set s"
  shows "parentNodePath (p @ s) = Some q"
proof -
  have "CHR ''/'' \<in> set p" using assms(1) by (metis option.distinct(1) parentNodePath_None)
  then obtain a b where "p = a @ CHR ''/'' # b" "CHR ''/'' \<notin> set b" by (rule path_split_last)
  with assms show ?thesis using parentNodePath_append [of "b @ s" a] by simp
qed

lemma matchPath_self: "matchPath p p = EXACT"
proof -
  have "mismatch xs xs = ([], [])" for xs :: string by (induction xs) simp_all
  then show ?thesis by (simp add: matchPath_def)
qed

subsection \<open>Runs of deltas on well-formed trees\<close>

lemma plain_op_iff: "plain_op op = (is_node_op op \<or> (\<exists>s a. op = AddAuthDelta s a))"
  by (cases op) (simp_all add: plain_op_def)

lemma tree_step_update:
  assumes "t p = Some n" and "p \<noteq> []" and "version_ok ver (n_version n)"
  shows "tree_step (mkDelta p z (UpdateNodeDelta f ver)) t = Some (t(p \<mapsto> update_fn f n))"
  using assms by (simp add: tree_step_def op_step_def)

lemma version_ok_any [simp]: "version_ok (- 1) v"
  by (simp add: version_ok_def)

lemma eph_set_update:
  "t p = Some n \<Longrightarrow> eph_set (t(p \<mapsto> update_fn f n)) s = eph_set t s"
  by (auto simp: eph_set_upd) (auto simp: eph_set_def)

lemma eph_ok_update: "eph_ok e t \<Longrightarrow> t p = Some n \<Longrightarrow> eph_ok e (t(p \<mapsto> update_fn f n))"
  using eph_set_update [of t p n f] by (auto intro: eph_ok_cong)

lemma create_run:
  fixes t :: tree and new_data :: string
  assumes "tree_inv t" and "parentNodePath p = Some q" and "t q = Some m" and "\<not> isEphemeral m"
    and "t p = None" and "st_numChildren stat = 0" and "children_delta f = 1"
  defines "t' \<equiv> t(q \<mapsto> update_fn f m, p \<mapsto> new_node stat new_data)"
  shows "tree_run [mkDelta q z (UpdateNodeDelta f (- 1)), mkDelta p z (CreateNodeDelta stat acls new_data)] t
      = Some t'" and "tree_inv t'"
    and "s \<noteq> 0 \<Longrightarrow>
      eph_set t' s = (if s = st_ephemeralOwner stat then insert p (eph_set t s) else eph_set t s)"
proof -
  have "q \<noteq> []" using parent_not_Nil [OF assms(2)] .
  have "p \<noteq> []" using assms(2) parentNodePath_None [of "[]"] by auto
  have "q \<noteq> p" using assms(3,5) by auto
  with assms(2-5) \<open>p \<noteq> []\<close> \<open>q \<noteq> []\<close>
  show "tree_run [mkDelta q z (UpdateNodeDelta f (- 1)), mkDelta p z (CreateNodeDelta stat acls new_data)] t
      = Some t'"
    by (simp add: tree_step_update t'_def) (simp add: tree_step_def op_step_def)
  show "tree_inv t'" unfolding t'_def using assms by (intro tree_inv_create) auto
  have "p \<notin> eph_set t s" using assms(5) by (simp add: eph_set_def)
  then show "s \<noteq> 0 \<Longrightarrow>
      eph_set t' s = (if s = st_ephemeralOwner stat then insert p (eph_set t s) else eph_set t s)"
    unfolding t'_def
    using eph_set_update [of t q m f s, OF assms(3)] by (subst eph_set_upd) auto
qed

lemma remove_run:
  assumes "tree_inv t" and "parentNodePath p = Some q" and n: "t p = Some n" "numChildren n = 0"
    and "version_ok ver (n_version n)" and "p \<noteq> keeper_system_path"
  obtains m where "t q = Some m"
    and "tree_run [mkDelta q z (UpdateNodeDelta ParentOfRemove (- 1)),
        mkDelta p z (RemoveNodeDelta ver (ephemeralOwner n))] t
      = Some (t(q \<mapsto> update_fn ParentOfRemove m, p := None))"
    and "tree_inv (t(q \<mapsto> update_fn ParentOfRemove m, p := None))"
    and "\<And>s. eph_set (t(q \<mapsto> update_fn ParentOfRemove m, p := None)) s = eph_set t s - {p}"
proof -
  obtain m where m: "t q = Some m" using tree_inv_parent [OF assms(1) n(1)] assms(2) by auto
  have root: "p \<noteq> ''/''" using tree_inv_root [OF assms(1)] n by (metis option.inject)
  have "q \<noteq> []" using parent_not_Nil [OF assms(2)] .
  have "p \<noteq> []" using assms(2) parentNodePath_None [of "[]"] by auto
  have "q \<noteq> p" using assms(2) root parent_self by metis
  have kids: "t c = None" if "parentNodePath c = Some p" for c
    using tree_inv_leaf [OF assms(1) n assms(6)] that root parent_self by (auto simp: children_of_def)
  have "c \<noteq> q" if "parentNodePath c = Some p" for c
    using kids [of c] that m \<open>q \<noteq> p\<close> by auto
  with \<open>q \<noteq> p\<close> have run: "tree_run [mkDelta q z (UpdateNodeDelta ParentOfRemove (- 1)),
        mkDelta p z (RemoveNodeDelta ver (ephemeralOwner n))] t
      = Some (t(q \<mapsto> update_fn ParentOfRemove m, p := None))"
    using assms m \<open>p \<noteq> []\<close> \<open>q \<noteq> []\<close> kids
    by (simp add: tree_step_update) (simp add: tree_step_def op_step_def)
  have inv: "tree_inv (t(q \<mapsto> update_fn ParentOfRemove m, p := None))"
    using assms root by (intro tree_inv_remove [OF assms(1,2) m n]) (simp_all add: children_delta_def)
  have "eph_set (t(q \<mapsto> update_fn ParentOfRemove m, p := None)) s = eph_set t s - {p}" for s
    using eph_set_update [of t q m ParentOfRemove s, OF m] by (subst eph_set_upd) simp
  with m run inv show ?thesis using that by blast
qed

subsection \<open>Outcomes\<close>

definition sound :: "KeeperStorage \<Rightarrow> bool" where
  "sound st \<longleftrightarrow> tree_inv (view st) \<and> eph_ok (ephemerals st) (view st)"

definition run_block :: "zxid \<Rightarrow> Delta list \<Rightarrow> bool" where
  "run_block z ds \<longleftrightarrow> (\<forall>d\<in>set ds. d_zxid d = z \<and> plain_op (d_operation d))"

definition error_block :: "zxid \<Rightarrow> Delta list \<Rightarrow> bool" where
  "error_block z ds \<longleftrightarrow> (\<exists>e. e \<noteq> ZOK \<and> ds = [mkError z e])"

text \<open>
  What the reply to a request needs of the committed tree \<open>t\<close>: the node that it reports, the checked
  version, or the delta of the created node. Requests without a processor of their own have no
  deltas. Two kinds of requests are let through by \<open>preprocess\<close> without a delta and without what the
  reply needs.
\<close>

definition check_holds :: "CheckRequestData \<Rightarrow> Node option \<Rightarrow> bool" where
  "check_holds ck x =
     (case x of
        None \<Rightarrow> ck_not_exists ck
      | Some n \<Rightarrow> ck_not_exists ck \<noteq> version_ok (ck_version ck) (n_version n))"

fun silent :: "RequestBody \<Rightarrow> bool" where
  "silent HeartbeatRequest = True"
| "silent (SyncRequest p) = True"
| "silent CloseRequest = True"
| "silent (MultiRequest ty rs) = True"
| "silent (ReconfigRequest j l n v) = True"
| "silent (SessionIDRequest i ty s) = True"
| "silent b = False"

definition answerable :: "RequestBody \<Rightarrow> Delta list \<Rightarrow> tree \<Rightarrow> bool" where
  "answerable b ds t =
     (case b of
        CreateRequest c \<Rightarrow> \<exists>d\<in>set ds. is_create_op (d_operation d)
      | GetRequest p \<Rightarrow> p = keeper_config_path \<or> t p \<noteq> None
      | ExistsRequest p \<Rightarrow> t p \<noteq> None
      | ListRequest p \<Rightarrow> t p \<noteq> None
      | SimpleListRequest p \<Rightarrow> t p \<noteq> None
      | FilteredListRequest p ty \<Rightarrow> t p \<noteq> None
      | GetACLRequest p \<Rightarrow> t p \<noteq> None
      | SetRequest p new_data ver \<Rightarrow> t p \<noteq> None
      | SetACLRequest p acls ver \<Rightarrow> t p \<noteq> None
      | CheckRequest ck \<Rightarrow> check_holds ck (t (ck_path ck))
      | _ \<Rightarrow> True)"

definition let_through :: "RequestBody \<Rightarrow> Delta list \<Rightarrow> tree \<Rightarrow> bool" where
  "let_through b ds t =
     (case b of
        CreateRequest c \<Rightarrow> ds = [] \<and> cr_not_exists c
      | GetRequest p \<Rightarrow>
          (p = keeper_api_feature_flags_path \<or> p = keeper_availability_zone_path) \<and> t p = None
      | _ \<Rightarrow> False)"

text \<open>A node is created by a create request only, at its path or at a numbered extension of it.\<close>

definition created_by :: "RequestBody \<Rightarrow> Delta list \<Rightarrow> bool" where
  "created_by b ds \<longleftrightarrow>
     (\<forall>d\<in>set ds. is_create_op (d_operation d) \<longrightarrow>
        (\<exists>c k. b = CreateRequest c \<and>
           d_path d = cr_path c @ (if cr_is_sequential c then seq_num_str k else [])))"

definition block_for :: "zxid \<Rightarrow> RequestBody \<Rightarrow> Delta list \<Rightarrow> tree \<Rightarrow> bool" where
  "block_for z b ds t \<longleftrightarrow>
     run_block z ds \<and> (silent b \<and> b \<noteq> CloseRequest \<longrightarrow> ds = []) \<and>
       (answerable b ds t \<or> let_through b ds t) \<and> created_by b ds \<or>
     error_block z ds \<and> \<not> silent b"

definition outcome :: "KeeperStorage \<Rightarrow> zxid \<Rightarrow> RequestBody \<Rightarrow> u64 \<Rightarrow>
    KeeperStorage \<times> u64 \<times> Delta list \<Rightarrow> bool" where
  "outcome st z b dg r \<longleftrightarrow>
     (case r of (st', dg', ds) \<Rightarrow>
        \<exists>e t. st' = st\<lparr>ephemerals := e\<rparr> \<and> tree_run ds (view st) = Some t \<and> tree_inv t \<and> eph_ok e t \<and>
          dg' = dg + digest_add st (tree_digest t - tree_digest (view st)) \<and> block_for z b ds t)"

lemma view_ephemerals [simp]: "view (st\<lparr>ephemerals := e\<rparr>) = view st"
  by (simp add: view_def)

lemma tree_run_error [simp]: "tree_run [mkError z e] t = Some t"
  by (simp add: tree_step_def op_step_def)

lemma digest_add_zero [simp]: "digest_add st 0 = 0"
  by (simp add: digest_add_def)

text \<open>
  What a processor may do: produce such an outcome, or fail because a system node is modified during
  startup, or because a path has no slash.
\<close>

definition no_slash :: "RequestBody \<Rightarrow> bool" where
  "no_slash b \<longleftrightarrow>
     (case b of
        CreateRequest c \<Rightarrow> CHR ''/'' \<notin> set (cr_path c)
      | RemoveRequest p ver \<Rightarrow> CHR ''/'' \<notin> set p
      | _ \<Rightarrow> False)"

definition serves :: "KeeperStorage \<Rightarrow> zxid \<Rightarrow> RequestBody \<Rightarrow> u64 \<Rightarrow>
    (KeeperStorage \<times> u64 \<times> Delta list) result \<Rightarrow> bool" where
  "serves st z b dg R =
     (case R of
        Inl f \<Rightarrow> handleSystemNodeModification (keeper_context st) \<noteq> Inr () \<or> no_slash b
      | Inr r \<Rightarrow> outcome st z b dg r)"

lemma serves_simps [simp]:
  "serves st z b dg (Inl f) \<longleftrightarrow> handleSystemNodeModification (keeper_context st) \<noteq> Inr () \<or> no_slash b"
  "serves st z b dg (Inr r) \<longleftrightarrow> outcome st z b dg r"
  by (simp_all add: serves_def)

lemma outcome_nop:
  "sound st \<Longrightarrow> answerable b [] (view st) \<or> let_through b [] (view st) \<Longrightarrow> outcome st z b dg (st, dg, [])"
  by (auto simp: outcome_def sound_def run_block_def block_for_def created_by_def
      intro: exI [of _ "ephemerals st"])

lemma outcome_error:
  "sound st \<Longrightarrow> e \<noteq> ZOK \<Longrightarrow> \<not> silent b \<Longrightarrow> outcome st z b dg (st, dg, [mkError z e])"
  by (auto simp: outcome_def sound_def error_block_def block_for_def tree_step_def op_step_def
      intro: exI [of _ "ephemerals st"])

lemma outcome_auth:
  "sound st \<Longrightarrow>
   outcome st z (AuthRequest ty scheme auth_data) dg (st, dg, [mkDelta [] z (AddAuthDelta sid auth)])"
  by (auto simp: outcome_def sound_def run_block_def block_for_def answerable_def plain_op_iff
      tree_step_def op_step_def created_by_def is_create_op_def intro: exI [of _ "ephemerals st"])

lemma creates_fresh_none:
  "\<forall>d\<in>set ds. \<not> is_create_op (d_operation d) \<Longrightarrow> creates_fresh seen ds"
  by (induction ds arbitrary: seen) simp_all

lemma created_by_none: "\<forall>d\<in>set ds. \<not> is_create_op (d_operation d) \<Longrightarrow> created_by b ds"
  by (simp add: created_by_def)

lemma outcome_run:
  assumes "sound st" and "tree_run ds (view st) = Some t" and "tree_inv t" and "eph_ok e t"
    and "run_block z ds" and "creates_fresh [] ds" and "answerable b ds t"
    and "\<not> silent b \<or> b = CloseRequest" and "created_by b ds"
  shows "serves st z b dg (rbind (calculateNodesDigest (st\<lparr>ephemerals := e\<rparr>) dg ds)
    (\<lambda>dg'. Inr (st\<lparr>ephemerals := e\<rparr>, dg', ds)))"
proof -
  have "finite (dom (view st))" using assms(1) tree_invD(1) by (simp add: sound_def)
  then have "calculateNodesDigest (st\<lparr>ephemerals := e\<rparr>) dg ds =
      Inr (dg + digest_add st (tree_digest t - tree_digest (view st)))"
    using calculateNodesDigest_ok [of ds "st\<lparr>ephemerals := e\<rparr>" t dg] assms(2,6)
    by (simp add: digest_add_def)
  with assms show ?thesis by (auto simp: outcome_def block_for_def)
qed

subsection \<open>The processors\<close>

lemma getNode_view_None: "getNode st p = None \<longleftrightarrow> view st p = None"
  by (simp add: view_def)

lemma getNode_view_Some: "getNode st p = Some n \<Longrightarrow> view st p = Some (core n)"
  by (simp add: view_def)

lemma sound_node:
  assumes "sound st" and "getNode st p = Some n"
  shows "tree_inv (view st)" "view st p = Some (core n)" "p \<noteq> []"
proof -
  show inv: "tree_inv (view st)" and v: "view st p = Some (core n)"
    using assms by (simp_all add: sound_def getNode_view_Some)
  then show "p \<noteq> []" using tree_invD(2) [OF inv] by auto
qed

lemma existing_outcome:
  assumes "sound st" and "\<not> silent b" and "view st p \<noteq> None \<Longrightarrow> answerable b [] (view st)"
  shows "serves st z b dg (existing_preprocess st z dg p)"
  using assms outcome_error [OF assms(1), of ZNONODE b z dg] outcome_nop [OF assms(1), of b z dg]
  by (cases "view st p") (auto simp: existing_preprocess_def getNode_view_None)

lemma get_outcome:
  assumes "sound st"
  shows "serves st z (GetRequest p) dg (get_preprocess st z dg p)"
proof (cases "p = keeper_api_feature_flags_path \<or> p = keeper_config_path \<or> p = keeper_availability_zone_path")
  case True
  then show ?thesis
    using assms by (auto simp: get_preprocess_def answerable_def let_through_def intro!: outcome_nop)
next
  case False
  with existing_outcome [OF assms, of "GetRequest p" p z dg] show ?thesis
    by (simp add: get_preprocess_def answerable_def)
qed

lemma check_outcome:
  assumes "sound st"
  shows "serves st z (CheckRequest ck) dg (check_preprocess st z dg ck)"
proof -
  have "outcome st z (CheckRequest ck) dg (st, dg, [mkError z e])" if "e \<noteq> ZOK" for e
    using assms(1) that by (intro outcome_error) simp_all
  moreover have "outcome st z (CheckRequest ck) dg (st, dg, [])" if "check_holds ck (view st (ck_path ck))"
    using assms(1) that by (intro outcome_nop) (simp_all add: answerable_def)
  moreover have "view st (ck_path ck) = map_option core (getNode st (ck_path ck))"
    by (simp add: view_def)
  ultimately show ?thesis
    by (cases "getNode st (ck_path ck)")
      (auto simp: check_preprocess_def check_holds_def version_ok_def)
qed

text \<open>The shared start of the writing processors: a path of the system is refused.\<close>

lemma system_guard:
  assumes "sound st" and "\<not> silent b"
  shows "serves st z b dg (rbind (handleSystemNodeModification (keeper_context st))
    (\<lambda>_. Inr (st, dg, [mkError z ZBADARGUMENTS])))"
  using assms outcome_error [OF assms(1), of ZBADARGUMENTS b z dg]
  by (cases "handleSystemNodeModification (keeper_context st)") auto

lemma set_outcome:
  assumes "sound st"
  shows "serves st z (SetRequest p new_data ver) dg (set_preprocess st z time dg p new_data ver)"
proof (cases "matchPath p keeper_system_path = NOT_MATCH \<and> getNode st p \<noteq> None")
  case False
  with system_guard [OF assms, of "SetRequest p new_data ver" z dg] assms show ?thesis
    by (auto simp: set_preprocess_def intro!: outcome_error)
next
  case True
  then obtain n where n: "getNode st p = Some n" by fastforce
  let ?t = "view st" and ?n = "core n" and ?f = "SetNode z new_data time"
  have inv: "tree_inv ?t" and p: "?t p = Some ?n" "p \<noteq> []"
    using sound_node [OF assms n] by auto
  show ?thesis
  proof (cases "version_ok ver (n_version n)")
    case False
    with assms True n show ?thesis
      by (auto simp: set_preprocess_def version_ok_def intro!: outcome_error)
  next
    case ver: True
    obtain q m where q: "parentNodePath p = Some q" "?t q = Some m"
      using tree_inv_parent [OF inv p(1)] by metis
    let ?ds = "[mkDelta p z (UpdateNodeDelta ?f ver), mkDelta q z (UpdateNodeDelta ParentOfSet (- 1))]"
    let ?t1 = "?t(p \<mapsto> update_fn ?f ?n)"
    obtain m1 where m1: "?t1 q = Some m1" using q(2) by (cases "q = p") auto
    let ?t2 = "?t1(q \<mapsto> update_fn ParentOfSet m1)"
    have run: "tree_run ?ds ?t = Some ?t2"
      using p ver m1 parent_not_Nil [OF q(1)] by (simp add: tree_step_update)
    have inv1: "tree_inv ?t1"
      by (rule tree_inv_update [OF inv p(1)]) (simp add: children_delta_def)
    then have inv2: "tree_inv ?t2" using m1 by (rule tree_inv_update) (simp add: children_delta_def)
    have eph: "eph_ok (ephemerals st) ?t2"
      using assms m1 p(1) by (intro eph_ok_update) (simp_all add: sound_def)
    have "set_preprocess st z time dg p new_data ver =
        rbind (calculateNodesDigest (st\<lparr>ephemerals := ephemerals st\<rparr>) dg ?ds)
          (\<lambda>dg'. Inr (st\<lparr>ephemerals := ephemerals st\<rparr>, dg', ?ds))"
      using True n ver q(1) by (auto simp: set_preprocess_def version_ok_def Let_def)
    then show ?thesis
      using p(1) by (simp only:, intro outcome_run [OF assms run inv2 eph] creates_fresh_none created_by_none)
        (auto simp: run_block_def plain_op_iff answerable_def is_create_op_def)
  qed
qed

lemma setacl_outcome:
  assumes "sound st"
  shows "serves st z (SetACLRequest p acls ver) dg (setacl_preprocess st z sid dg p acls ver)"
proof (cases "matchPath p keeper_system_path = NOT_MATCH \<and> getNode st p \<noteq> None")
  case False
  with system_guard [OF assms, of "SetACLRequest p acls ver" z dg] assms show ?thesis
    by (auto simp: setacl_preprocess_def intro!: outcome_error)
next
  case True
  then obtain n where n: "getNode st p = Some n" by fastforce
  let ?t = "view st" and ?n = "core n"
  have inv: "tree_inv ?t" and p: "?t p = Some ?n" "p \<noteq> []"
    using sound_node [OF assms n] by auto
  show ?thesis
  proof (cases "version_ok ver (n_aversion n) \<and> fixupACL acls sid st \<noteq> None")
    case False
    with assms True n show ?thesis
      by (auto simp: setacl_preprocess_def version_ok_def intro!: outcome_error)
  next
    case ver: True
    then obtain node_acls where acls: "fixupACL acls sid st = Some node_acls" by blast
    let ?ds = "[mkDelta p z (SetACLDelta node_acls ver), mkDelta p z (UpdateNodeDelta IncAversion (- 1))]"
    let ?t1 = "?t(p \<mapsto> update_fn IncAversion ?n)"
    have "tree_step (mkDelta p z (SetACLDelta node_acls ver)) ?t = Some ?t"
      using p ver by (simp add: tree_step_def op_step_def)
    then have run: "tree_run ?ds ?t = Some ?t1" using p by (simp add: tree_step_update)
    have inv1: "tree_inv ?t1"
      by (rule tree_inv_update [OF inv p(1)]) (simp add: children_delta_def)
    have eph: "eph_ok (ephemerals st) ?t1"
      using assms p(1) by (intro eph_ok_update) (simp_all add: sound_def)
    have "setacl_preprocess st z sid dg p acls ver =
        rbind (calculateNodesDigest (st\<lparr>ephemerals := ephemerals st\<rparr>) dg ?ds)
          (\<lambda>dg'. Inr (st\<lparr>ephemerals := ephemerals st\<rparr>, dg', ?ds))"
      using True n ver acls by (auto simp: setacl_preprocess_def version_ok_def Let_def)
    then show ?thesis
      using p(1) by (simp only:, intro outcome_run [OF assms run inv1 eph] creates_fresh_none created_by_none)
        (auto simp: run_block_def plain_op_iff answerable_def is_create_op_def)
  qed
qed

lemma auth_outcome:
  assumes "sound st"
  shows "serves st z (AuthRequest ty scheme auth_data) dg (auth_preprocess st z sid dg scheme auth_data)"
  using assms outcome_auth [OF assms(1)]
  by (auto simp: auth_preprocess_def Let_def answerable_def intro!: outcome_error outcome_nop)

text \<open>A created path has the parent of the requested one.\<close>

lemma create_outcome_run:
  fixes c :: CreateRequestData and st :: KeeperStorage
  assumes "sound st" and "sid \<noteq> 0" and "parentNodePath p = Some q" and m: "getNode st q = Some m"
    "\<not> isEphemeral m" and "getNode st p = None"
    and path: "p = cr_path c @ (if cr_is_sequential c then seq_num_str k else [])"
  defines "st' \<equiv> (if cr_is_ephemeral c then registerEphemeralPath sid p st else st)"
  shows "serves st z (CreateRequest c) dg
    (rbind (calculateNodesDigest st' dg (create_deltas z sid time c q p node_acls))
      (\<lambda>dg'. Inr (st', dg', create_deltas z sid time c q p node_acls)))"
proof -
  let ?t = "view st" and ?f = "ParentOfCreate (cr_parent_cversion c) z"
    and ?stat = "create_stat z time (if cr_is_ephemeral c then sid else 0)"
  let ?t' = "?t(q \<mapsto> update_fn ?f (core m), p \<mapsto> new_node ?stat (cr_data c))"
  let ?ds = "create_deltas z sid time c q p node_acls"
  note q = sound_node [OF assms(1) m(1)]
  have p: "?t p = None" using assms(6) by (simp add: getNode_view_None)
  have "q \<noteq> p" using q(2) p by auto
  note run = create_run [OF q(1) assms(3) q(2) _ p, of ?stat ?f]
  have 1: "tree_run ?ds ?t = Some ?t'" "tree_inv ?t'"
    using run(1,2) m(2) by (simp_all add: create_deltas_def create_stat_def children_delta_def Stat_default_def)
  have "s \<noteq> 0 \<Longrightarrow> eph_set ?t' s =
      (if s = st_ephemeralOwner ?stat then insert p (eph_set ?t s) else eph_set ?t s)" for s
    using run(3) m(2) by (simp add: create_stat_def children_delta_def Stat_default_def)
  then have 2: "s \<noteq> 0 \<Longrightarrow> eph_set ?t' s =
      (if cr_is_ephemeral c \<and> s = sid then insert p (eph_set ?t s) else eph_set ?t s)" for s
    by (simp add: create_stat_def Stat_default_def split: if_splits)
  obtain e where e: "st' = st\<lparr>ephemerals := e\<rparr>" "eph_ok e ?t'"
  proof (cases "cr_is_ephemeral c")
    case True
    then show ?thesis
      using that [of "(ephemerals st)(sid \<mapsto> hs_insert p (bucket (ephemerals st) sid))"] 2 assms(1)
      by (auto simp: st'_def registerEphemeralPath_def sound_def intro: eph_ok_register)
  next
    case False
    then show ?thesis
      using that [of "ephemerals st"] 2 assms(1)
      by (auto simp: st'_def sound_def intro: eph_ok_cong)
  qed
  have "created_by (CreateRequest c) ?ds"
    using path by (auto simp: created_by_def create_deltas_def is_create_op_def)
  then show ?thesis
    unfolding e(1) using e \<open>q \<noteq> p\<close>
    by (intro outcome_run [OF assms(1) 1])
      (auto simp: create_deltas_def run_block_def plain_op_iff is_create_op_def answerable_def)
qed

lemma create_outcome:
  assumes "sound st" and "sid \<noteq> 0"
  shows "serves st z (CreateRequest c) dg (create_preprocess st z sid time dg c)"
proof (cases "parentNodePath (cr_path c)")
  case None
  then have "no_slash (CreateRequest c)" by (simp add: no_slash_def parentNodePath_None)
  with None show ?thesis by (simp add: create_preprocess_def Let_def)
next
  case q: (Some q)
  have err: "outcome st z (CreateRequest c) dg (st, dg, [mkError z e])" if "e \<noteq> ZOK" for e
    using assms(1) that by (intro outcome_error) simp_all
  note sys = system_guard [OF assms(1), of "CreateRequest c" z dg]
  show ?thesis
  proof (cases "getNode st q")
    case None
    with q err show ?thesis by (auto simp: create_preprocess_def Let_def)
  next
    case (Some m)
    define p where "p = cr_path c @ (if cr_is_sequential c then seq_num_str (seqNum m) else [])"
    have parent: "parentNodePath p = Some q"
      using q seq_num_str_no_slash parentNodePath_extend [OF q] by (simp add: p_def)
    have skip: "outcome st z (CreateRequest c) dg (st, dg, [])" if "cr_not_exists c"
      using assms(1) that by (intro outcome_nop) (simp_all add: let_through_def)
    show ?thesis
    proof (cases "isEphemeral m \<or> getNode st p \<noteq> None \<or> fixupACL (cr_acls c) sid st = None")
      case True
      then consider "isEphemeral m" | "\<not> isEphemeral m" "getNode st p \<noteq> None"
        | "\<not> isEphemeral m" "getNode st p = None" "fixupACL (cr_acls c) sid st = None"
        by (cases "isEphemeral m"; cases "getNode st p") auto
      then show ?thesis
        by cases (simp_all add: create_preprocess_def Let_def p_def [symmetric] q Some err skip sys)
    next
      case False
      then obtain node_acls where acls: "fixupACL (cr_acls c) sid st = Some node_acls" by blast
      show ?thesis
      proof (cases "cr_is_sequential c \<and> cr_not_exists c \<or> matchPath p keeper_system_path \<noteq> NOT_MATCH \<or>
          getBaseNodeName p = []")
        case True
        then consider "cr_is_sequential c \<and> cr_not_exists c"
          | "\<not> (cr_is_sequential c \<and> cr_not_exists c)" "matchPath p keeper_system_path \<noteq> NOT_MATCH"
          | "\<not> (cr_is_sequential c \<and> cr_not_exists c)" "matchPath p keeper_system_path = NOT_MATCH"
            "getBaseNodeName p = []" by blast
        then show ?thesis
          using False by cases (simp_all add: create_preprocess_def Let_def p_def [symmetric] q Some err sys)
      next
        case valid: False
        let ?st = "if cr_is_ephemeral c then registerEphemeralPath sid p st else st"
        let ?ds = "create_deltas z sid time c q p node_acls"
        have nv: "cr_is_sequential c \<and> cr_not_exists c \<longleftrightarrow> False" using valid by blast
        have "create_preprocess st z sid time dg c =
            rbind (calculateNodesDigest ?st dg ?ds) (\<lambda>dg'. Inr (?st, dg', ?ds))"
          using q Some False valid acls
          by (simp add: create_preprocess_def Let_def p_def [symmetric] nv split del: if_split)
        with False show ?thesis
          by (simp only:, intro create_outcome_run [OF assms parent Some _ _ p_def]) auto
      qed
    qed
  qed
qed

text \<open>The optional first delta of a removal only touches the parent.\<close>

lemma pzxid_run:
  assumes "sound st" and "parentNodePath p = Some q" and "view st q = Some m" and "q \<noteq> p"
    and "(if restored then update_parent_pzxid st z p else Inr []) = Inr ds"
  obtains t where "tree_run ds (view st) = Some t" and "tree_inv t" and "t p = view st p"
    and "\<And>s. eph_set t s = eph_set (view st) s" and "run_block z ds"
    and "\<forall>d\<in>set ds. \<not> is_create_op (d_operation d)"
proof (cases restored)
  case False
  with assms show ?thesis using that [of "view st"] by (simp add: sound_def run_block_def)
next
  case True
  then have ds: "ds = [mkDelta q z (UpdateNodeDelta (ParentPzxid z) (- 1))]"
    using assms(2,3,5) by (simp add: update_parent_pzxid_def getNode_view_None)
  let ?t = "(view st)(q \<mapsto> update_fn (ParentPzxid z) m)"
  have inv: "tree_inv ?t"
    using assms(1) by (intro tree_inv_update assms(3)) (simp_all add: sound_def children_delta_def)
  have run: "tree_run ds (view st) = Some ?t"
    using assms(3) parent_not_Nil [OF assms(2)] by (simp add: ds tree_step_update)
  from run inv show ?thesis
    by (rule that) (use assms(4) eph_set_update [of "view st" q m, OF assms(3)]
      in \<open>simp_all add: ds run_block_def plain_op_iff is_create_op_def\<close>)
qed

lemma remove_outcome_run:
  assumes "sound st" and p: "getNode st p = Some n" "numChildren n = 0" "p \<noteq> keeper_system_path"
    "version_ok ver (n_version n)" and q: "parentNodePath p = Some q"
    and pz: "(if restored then update_parent_pzxid st z p else Inr []) = Inr pz"
  defines "ds \<equiv> pz @ [mkDelta q z (UpdateNodeDelta ParentOfRemove (- 1)),
    mkDelta p z (RemoveNodeDelta ver (ephemeralOwner n))]"
  shows "serves st z (RemoveRequest p ver) dg
    (rbind (if isEphemeral n then unregisterEphemeralPath (ephemeralOwner n) p st else Inr st) (\<lambda>st'.
       rbind (calculateNodesDigest st' dg ds) (\<lambda>dg'. Inr (st', dg', ds))))"
proof -
  note v = sound_node [OF assms(1) p(1)]
  obtain m where m: "view st q = Some m" using tree_inv_parent [OF v(1,2)] q by auto
  have root: "p \<noteq> ''/''"
    using tree_inv_root [OF v(1)] v(2) p(2) by (metis option.inject core_simps(11))
  have "q \<noteq> p" using q root parent_self by metis
  obtain t where t: "tree_run pz (view st) = Some t" "tree_inv t" "t p = view st p"
      "\<And>s. eph_set t s = eph_set (view st) s" "run_block z pz"
      "\<forall>d\<in>set pz. \<not> is_create_op (d_operation d)"
    using pzxid_run [OF assms(1) q m \<open>q \<noteq> p\<close> pz] by blast
  have tp: "t p = Some (core n)" using t(3) v(2) by simp
  obtain m1 where m1: "t q = Some m1"
      "tree_run [mkDelta q z (UpdateNodeDelta ParentOfRemove (- 1)),
         mkDelta p z (RemoveNodeDelta ver (ephemeralOwner n))] t
       = Some (t(q \<mapsto> update_fn ParentOfRemove m1, p := None))"
      "tree_inv (t(q \<mapsto> update_fn ParentOfRemove m1, p := None))"
      "\<And>s. eph_set (t(q \<mapsto> update_fn ParentOfRemove m1, p := None)) s = eph_set t s - {p}"
    using remove_run [OF t(2) q tp, of ver z] p by auto
  let ?t' = "t(q \<mapsto> update_fn ParentOfRemove m1, p := None)"
  have run: "tree_run ds (view st) = Some ?t'" using t(1) m1(2) by (simp add: ds_def)
  have sets: "eph_set ?t' s = (if s = ephemeralOwner n then eph_set (view st) s - {p} else eph_set (view st) s)"
    for s using m1(4) t(4) v(2) by (auto simp: eph_set_def)
  have owner: "isEphemeral n \<longleftrightarrow> ephemeralOwner n \<noteq> 0"
    using tree_invD(4) [OF v(1,2)] by (simp add: node_ok_def)
  obtain e where e: "(if isEphemeral n then unregisterEphemeralPath (ephemeralOwner n) p st else Inr st) =
      Inr (st\<lparr>ephemerals := e\<rparr>)" "eph_ok e ?t'"
  proof (cases "isEphemeral n")
    case True
    have "p \<in> eph_set (view st) (ephemeralOwner n)" using v(2) by (simp add: eph_set_def)
    with True assms(1) owner sets obtain ps where "ephemerals st (ephemeralOwner n) = Some ps"
        "eph_ok (put_nonempty (ephemerals st) (ephemeralOwner n) (hs_erase p ps)) ?t'"
      using eph_ok_unregister [of "ephemerals st" "view st" "ephemeralOwner n" p ?t']
      by (auto simp: sound_def)
    with True that show ?thesis by (auto simp: unregisterEphemeralPath_def)
  next
    case False
    then have "eph_ok (ephemerals st) ?t'"
      using assms(1) owner sets by (auto simp: sound_def intro: eph_ok_cong)
    with False that [of "ephemerals st"] show ?thesis by simp
  qed
  show ?thesis
    unfolding e(1) rbind_simps using t(5,6)
    by (intro outcome_run [OF assms(1) run m1(3) e(2)] creates_fresh_none created_by_none)
      (auto simp: ds_def run_block_def plain_op_iff answerable_def is_create_op_def)
qed

lemma remove_outcome:
  assumes "sound st"
  shows "serves st z (RemoveRequest p ver) dg (remove_preprocess st z dg restored p ver)"
proof (cases "matchPath p keeper_system_path = NOT_MATCH \<and> getNode st p \<noteq> None")
  case False
  have "no_slash (RemoveRequest p ver)" if "parentNodePath p = None"
    using that by (simp add: no_slash_def parentNodePath_None)
  with False system_guard [OF assms, of "RemoveRequest p ver" z dg] assms show ?thesis
    by (cases "parentNodePath p")
      (auto simp: remove_preprocess_def update_parent_pzxid_def intro!: outcome_error)
next
  case True
  then obtain n where n: "getNode st p = Some n" by fastforce
  have sys: "p \<noteq> keeper_system_path" using True matchPath_self by auto
  obtain q where q: "parentNodePath p = Some q"
    using tree_inv_parent sound_node [OF assms n] by metis
  then obtain pz where pz: "(if restored then update_parent_pzxid st z p else Inr []) = Inr pz"
    by (cases restored) (simp_all add: update_parent_pzxid_def)
  show ?thesis
  proof (cases "version_ok ver (n_version n) \<and> numChildren n = 0")
    case False
    with assms True n show ?thesis
      by (auto simp: remove_preprocess_def version_ok_def intro!: outcome_error)
  next
    case ver: True
    then have nv: "ver \<noteq> - 1 \<and> ver \<noteq> n_version n \<longleftrightarrow> False" by (auto simp: version_ok_def)
    have "remove_preprocess st z dg restored p ver =
        rbind (if isEphemeral n then unregisterEphemeralPath (ephemeralOwner n) p st else Inr st) (\<lambda>st'.
          let ds = pz @ [mkDelta q z (UpdateNodeDelta ParentOfRemove (- 1)),
                mkDelta p z (RemoveNodeDelta ver (ephemeralOwner n))]
          in rbind (calculateNodesDigest st' dg ds) (\<lambda>dg'. Inr (st', dg', ds)))"
      unfolding remove_preprocess_def Let_def using ver True n q pz by (simp add: nv split del: if_split)
    with ver remove_outcome_run [OF assms n _ sys _ q pz, of ver dg] show ?thesis
      by (simp add: Let_def split del: if_split)
  qed
qed

text \<open>Closing a session removes its ephemeral nodes one by one.\<close>

lemma close_deltas_run:
  "tree_inv t \<Longrightarrow> distinct ps \<Longrightarrow> set ps \<subseteq> eph_set t sid \<Longrightarrow> sid \<noteq> 0 \<Longrightarrow>
   \<exists>ds t'. close_deltas z sid ps = Inr ds \<and> tree_run ds t = Some t' \<and> tree_inv t' \<and>
     (\<forall>s. eph_set t' s = eph_set t s - set ps) \<and> run_block z ds \<and>
     (\<forall>d\<in>set ds. \<not> is_create_op (d_operation d))"
proof (induction ps arbitrary: t)
  case (Cons p ps)
  then obtain n where n: "t p = Some n" "ephemeralOwner n = sid" by (auto simp: eph_set_def)
  then have "isEphemeral n" using Cons.prems(4) by (auto simp: ephemeralOwner_def split: if_splits)
  then have "numChildren n = 0" and "p \<noteq> keeper_system_path"
    using n(1) tree_invD(3) [OF Cons.prems(1)] by (auto simp: numChildren_def)
  moreover obtain q where q: "parentNodePath p = Some q" using tree_inv_parent [OF Cons.prems(1) n(1)] by metis
  ultimately obtain t1 where t1:
      "tree_run [mkDelta q z (UpdateNodeDelta ParentOfRemove (- 1)), mkDelta p z (RemoveNodeDelta (- 1) sid)] t
       = Some t1" "tree_inv t1" "\<And>s. eph_set t1 s = eph_set t s - {p}"
    using remove_run [OF Cons.prems(1) q n(1), of "- 1" z] n(2) by (metis version_ok_any)
  have "set ps \<subseteq> eph_set t1 sid" using Cons.prems(2,3) t1(3) by auto
  then obtain ds t' where ds: "close_deltas z sid ps = Inr ds" "tree_run ds t1 = Some t'" "tree_inv t'"
      "\<And>s. eph_set t' s = eph_set t1 s - set ps" "run_block z ds"
      "\<forall>d\<in>set ds. \<not> is_create_op (d_operation d)"
    using Cons.IH [OF t1(2)] Cons.prems(2,4) by auto
  let ?ds = "[mkDelta q z (UpdateNodeDelta ParentOfRemove (- 1)), mkDelta p z (RemoveNodeDelta (- 1) sid)]"
  have "close_deltas z sid (p # ps) = Inr (?ds @ ds)"
    using q ds(1) by (simp add: close_delta_pair_def)
  moreover have "tree_run (?ds @ ds) t = Some t'"
    unfolding tree_run_append t1(1) using ds(2) by simp
  moreover have "run_block z (?ds @ ds)" "\<forall>d\<in>set (?ds @ ds). \<not> is_create_op (d_operation d)"
    using ds(5,6) by (auto simp: run_block_def plain_op_iff is_create_op_def)
  moreover have "eph_set t' s = eph_set t s - set (p # ps)" for s using t1(3) ds(4) by auto
  ultimately show ?case using ds(3) by blast
qed (simp add: run_block_def)

lemma close_outcome:
  assumes "sound st" and "sid \<noteq> 0"
  shows "serves st z CloseRequest dg (close_preprocess st z sid dg)"
proof -
  let ?t = "view st"
  have inv: "tree_inv ?t" and eph: "eph_ok (ephemerals st) ?t" using assms(1) by (simp_all add: sound_def)
  have entry: "eph_entry (ephemerals st sid) (eph_set ?t sid)" using eph assms(2) by (simp add: eph_ok_def)
  show ?thesis
  proof (cases "ephemerals st sid")
    case None
    then have "close_preprocess st z sid dg = Inr (st, dg, [])"
      by (simp add: close_preprocess_def calculateNodesDigest_def)
    then show ?thesis by (auto intro!: outcome_nop assms(1) simp: answerable_def)
  next
    case (Some ps)
    then have ps: "distinct ps" "set ps = eph_set ?t sid" using entry by (simp_all add: eph_entry_def)
    then obtain ds t' where ds: "close_deltas z sid ps = Inr ds" "tree_run ds ?t = Some t'" "tree_inv t'"
        "\<And>s. eph_set t' s = eph_set ?t s - set ps" "run_block z ds"
        "\<forall>d\<in>set ds. \<not> is_create_op (d_operation d)"
      using close_deltas_run [OF inv ps(1), of sid z] assms(2) by blast
    let ?e = "(ephemerals st)(sid := None)"
    have "eph_set t' s = (if s = sid then {} else eph_set ?t s)" for s
      using ps(2) ds(4) by (auto simp: eph_set_def)
    moreover have "eph_entry None {}" by (simp add: eph_entry_def)
    ultimately have e: "eph_ok ?e t'" using eph by (simp add: eph_ok_def)
    have "close_preprocess st z sid dg =
        rbind (calculateNodesDigest (st\<lparr>ephemerals := ?e\<rparr>) dg ds) (\<lambda>dg'. Inr (st\<lparr>ephemerals := ?e\<rparr>, dg', ds))"
      using Some ds(1) by (simp add: close_preprocess_def Let_def)
    with assms(1) ds e show ?thesis
      by (simp only:, intro outcome_run creates_fresh_none created_by_none) (simp_all add: answerable_def)
  qed
qed

lemma preprocess_simple_serves:
  assumes "sound st" and "sid \<noteq> 0"
  shows "serves st z (body req) dg (preprocess_simple st z sid time dg req)"
proof -
  have nop: "outcome st z b dg (st, dg, [])" if "silent b" for b
    using that by (cases b) (auto intro!: outcome_nop assms(1) simp: answerable_def)
  note existing = existing_outcome [OF assms(1)]
  show ?thesis
    by (cases "body req")
      (simp_all add: preprocess_simple_def nop existing get_outcome remove_outcome set_outcome
        check_outcome setacl_outcome create_outcome auth_outcome assms answerable_def)
qed

lemma preprocess_simple_outcome:
  assumes "sound st" and "sid \<noteq> 0" and "preprocess_simple st z sid time dg req = Inr r"
  shows "outcome st z (body req) dg r"
  using preprocess_simple_serves [OF assms(1,2), of z req dg time] assms(3) by simp

end
