(* ===== verification/KeeperTransactions.thy ===== *)
theory KeeperTransactions
  imports KeeperPreprocess
begin

text \<open>
  Transactions: the list of pending deltas is the concatenation of the deltas of the requests that
  were preprocessed and not yet committed, in the order of their zxids. \<open>keeper_inv\<close> relates the
  storage to the list of these requests; preprocessing a request extends the list.
\<close>

subsection \<open>The deltas of a transaction\<close>

record tx =
  tx_req :: ZooKeeperRequest
  tx_deltas :: "Delta list"

text \<open>The sub-requests of a multi request, each with its block closed by \<open>SubDeltaEnd\<close>.\<close>

fun sub_blocks :: "zxid \<Rightarrow> ZooKeeperRequest list \<Rightarrow> Delta list \<Rightarrow> tree \<Rightarrow> bool" where
  "sub_blocks z [] ds t \<longleftrightarrow> ds = []"
| "sub_blocks z (r # rs) ds t \<longleftrightarrow>
     (\<exists>b rest t1. ds = b @ mkDelta [] z SubDeltaEnd # rest \<and> tree_run b t = Some t1 \<and>
        block_for z (body r) b t1 \<and> sub_blocks z rs rest t1)"

definition failed_multi :: "zxid \<Rightarrow> nat \<Rightarrow> Delta list \<Rightarrow> bool" where
  "failed_multi z n ds \<longleftrightarrow> (\<exists>errs. ds = [mkDelta [] z (FailedMultiDelta errs)] \<and> length errs = n)"

definition tx_ok :: "zxid \<Rightarrow> ZooKeeperRequest \<Rightarrow> Delta list \<Rightarrow> tree \<Rightarrow> tree \<Rightarrow> bool" where
  "tx_ok z req ds t t1 =
     (case body req of
        MultiRequest ty rs \<Rightarrow>
          sub_blocks z rs ds t \<or> failed_multi z (length rs) ds \<or> ds = [mkError z ZNOAUTH]
      | b \<Rightarrow> block_for z b ds t1)"

text \<open>
  One transaction: \<open>z\<close> is the zxid before it, \<open>t\<close> and \<open>t1\<close> the trees before and after it, \<open>off\<close> the
  constant difference between the digest of the storage and the sum of the digests of all nodes
  (the nodes below \<open>/keeper\<close> are not part of the former).
\<close>

definition tx_step :: "bool \<Rightarrow> u64 \<Rightarrow> tx \<Rightarrow> TransactionInfo \<Rightarrow> zxid \<Rightarrow> tree \<Rightarrow> tree \<Rightarrow> bool" where
  "tx_step en off x i z t t1 \<longleftrightarrow>
     z < ti_zxid i \<and> tree_run (tx_deltas x) t = Some t1 \<and>
     tx_ok (ti_zxid i) (tx_req x) (tx_deltas x) t t1 \<and> tree_inv t1 \<and>
     (\<forall>d\<in>set (tx_deltas x). d_zxid d = ti_zxid i) \<and>
     ti_nodes_digest i =
       (if en then \<lparr>dg_version = CURRENT_DIGEST_VERSION, dg_value = off + tree_digest t1\<rparr>
        else \<lparr>dg_version = NO_DIGEST, dg_value = 0\<rparr>)"

fun txs_ok :: "bool \<Rightarrow> u64 \<Rightarrow> tx list \<Rightarrow> TransactionInfo list \<Rightarrow> zxid \<Rightarrow> tree \<Rightarrow> tree \<Rightarrow> bool" where
  "txs_ok en off [] is z t t' \<longleftrightarrow> is = [] \<and> t' = t"
| "txs_ok en off (x # xs) is z t t' \<longleftrightarrow>
     (\<exists>i is' t1. is = i # is' \<and> tx_step en off x i z t t1 \<and> txs_ok en off xs is' (ti_zxid i) t1 t')"

definition digest_offset :: "KeeperStorage \<Rightarrow> u64" where
  "digest_offset st = nodes_digest st - tree_digest (committed_tree st)"

definition keeper_inv :: "KeeperStorage \<Rightarrow> tx list \<Rightarrow> bool" where
  "keeper_inv st xs \<longleftrightarrow>
     initialized st \<and> pending_inv st \<and> sound st \<and> tree_inv (committed_tree st) \<and>
     pending st = concat (map tx_deltas xs) \<and>
     txs_ok (digestEnabled (keeper_context st)) (digest_offset st) xs (uncommitted_transactions st)
       (storage_zxid st) (committed_tree st) (view st)"

definition last_zxid :: "zxid \<Rightarrow> TransactionInfo list \<Rightarrow> zxid" where
  "last_zxid z is = (if is = [] then z else ti_zxid (last is))"

lemma last_zxid_simps [simp]:
  "last_zxid z [] = z" "last_zxid z (i # is) = last_zxid (ti_zxid i) is"
  "last_zxid z (is @ [i]) = ti_zxid i"
  by (simp_all add: last_zxid_def)

lemma txs_ok_snoc:
  "txs_ok en off (xs @ [x]) is z t t' \<longleftrightarrow>
     (\<exists>is0 i t0. is = is0 @ [i] \<and> txs_ok en off xs is0 z t t0 \<and>
        tx_step en off x i (last_zxid z is0) t0 t')"
proof (induction xs arbitrary: "is" z t)
  case (Cons y ys)
  show ?case (is "?L = ?R")
  proof
    assume ?L
    then obtain i is' t1 where "is = i # is'" "tx_step en off y i z t t1"
      "txs_ok en off (ys @ [x]) is' (ti_zxid i) t1 t'" by auto
    with Cons.IH show ?R by (metis append_Cons last_zxid_simps(2) txs_ok.simps(2))
  next
    assume ?R
    with Cons.IH show ?L by fastforce
  qed
qed auto

lemma txs_ok_zxids:
  "txs_ok en off xs is z t t' \<Longrightarrow>
   z \<le> last_zxid z is \<and> (\<forall>x\<in>set xs. \<forall>d\<in>set (tx_deltas x). z < d_zxid d \<and> d_zxid d \<le> last_zxid z is)"
proof (induction xs arbitrary: "is" z t)
  case (Cons x xs)
  then obtain i is' t1 where i: "is = i # is'" "tx_step en off x i z t t1"
    "txs_ok en off xs is' (ti_zxid i) t1 t'" by auto
  from Cons.IH [OF i(3)] i(1,2) show ?case by (fastforce simp: tx_step_def)
qed simp

lemma txs_ok_run:
  "txs_ok en off xs is z t t' \<Longrightarrow> tree_run (concat (map tx_deltas xs)) t = Some t'"
  by (induction xs arbitrary: "is" z t) (auto simp: tx_step_def)

lemma txs_ok_inv: "txs_ok en off xs is z t t' \<Longrightarrow> tree_inv t \<Longrightarrow> tree_inv t'"
  by (induction xs arbitrary: "is" z t) (auto simp: tx_step_def)

lemma txs_ok_last_digest:
  assumes "txs_ok en off xs is z t t'" and "is \<noteq> []" and "en"
  shows "ti_nodes_digest (last is) =
    \<lparr>dg_version = CURRENT_DIGEST_VERSION, dg_value = off + tree_digest t'\<rparr>"
  using assms
proof (cases xs rule: rev_exhaust)
  case (snoc ys y)
  with assms show ?thesis by (auto simp: txs_ok_snoc tx_step_def)
qed auto

subsection \<open>Adding the deltas of a request\<close>

lemma frame_simps [simp]:
  "pending_inv (st\<lparr>ephemerals := e\<rparr>) = pending_inv st"
  "committed_tree (st\<lparr>ephemerals := e\<rparr>) = committed_tree st"
  "committed_tree (st\<lparr>uncommitted_state := us\<rparr>) = committed_tree st"
  "pending_inv (st\<lparr>uncommitted_transactions := ts\<rparr>) = pending_inv st"
  "view (st\<lparr>uncommitted_transactions := ts\<rparr>) = view st"
  "sound (st\<lparr>uncommitted_transactions := ts\<rparr>) = sound st"
  "committed_tree (st\<lparr>uncommitted_transactions := ts\<rparr>) = committed_tree st"
  by (simp_all add: pending_inv_def committed_tree_def view_def sound_def)

lemma block_for_zxid: "block_for z b ds t \<Longrightarrow> \<forall>d\<in>set ds. d_zxid d = z"
  by (auto simp: block_for_def run_block_def error_block_def)

lemma add_block:
  assumes "pending_inv st" and "\<forall>d\<in>set (pending st). d_zxid d \<le> z"
    and "tree_run ds (view st) = Some t" and "\<forall>d\<in>set ds. d_zxid d = z" and "tree_inv t" and "eph_ok e t"
  obtains us where "add_deltas ds (st\<lparr>ephemerals := e\<rparr>) = Inr (st\<lparr>uncommitted_state := us, ephemerals := e\<rparr>)"
    and "us_deltas us = pending st @ ds"
    and "pending_inv (st\<lparr>uncommitted_state := us, ephemerals := e\<rparr>)"
    and "sound (st\<lparr>uncommitted_state := us, ephemerals := e\<rparr>)"
    and "view (st\<lparr>uncommitted_state := us, ephemerals := e\<rparr>) = t"
proof -
  have "sorted (map d_zxid ds)" using assms(4) by (induction ds) auto
  then obtain us where us: "add_deltas ds (st\<lparr>ephemerals := e\<rparr>) =
        Inr (st\<lparr>ephemerals := e, uncommitted_state := us\<rparr>)" "us_deltas us = pending st @ ds"
      "pending_inv (st\<lparr>ephemerals := e, uncommitted_state := us\<rparr>)"
      "view (st\<lparr>ephemerals := e, uncommitted_state := us\<rparr>) = t"
    using add_deltas_inv [of "st\<lparr>ephemerals := e\<rparr>" ds t] assms(1-4) by auto
  have swap: "st\<lparr>ephemerals := e, uncommitted_state := us\<rparr> = st\<lparr>uncommitted_state := us, ephemerals := e\<rparr>"
    by simp
  have "sound (st\<lparr>uncommitted_state := us, ephemerals := e\<rparr>)"
    using us(4) [unfolded swap] assms(5,6) by (simp add: sound_def)
  with us that show ?thesis unfolding swap by blast
qed

lemma delta_error_block:
  assumes "block_for z b ds t" and "delta_error ds = Some e" and "tree_run ds v = Some t"
  shows "t = v"
proof -
  have "\<not> run_block z ds"
  proof
    assume "run_block z ds"
    then have "ds \<noteq> [] \<Longrightarrow> plain_op (d_operation (last ds))" by (simp add: run_block_def)
    with assms(2) show False
      by (auto simp: delta_error_def plain_op_def split: if_splits Operation.splits)
  qed
  then show ?thesis
    using assms(1,3) by (auto simp: block_for_def error_block_def tree_step_def op_step_def)
qed

text \<open>
  The state changed in its uncommitted part only, and is good again; the ways a multi request can
  end: all sub-requests have their block, or the state is the one before the request.
\<close>

definition moved :: "KeeperStorage \<Rightarrow> KeeperStorage \<Rightarrow> bool" where
  "moved st st' \<longleftrightarrow>
     st' = st\<lparr>uncommitted_state := uncommitted_state st', ephemerals := ephemerals st'\<rparr> \<and>
     pending_inv st' \<and> sound st'"

definition multi_done :: "zxid \<Rightarrow> ZooKeeperRequest list \<Rightarrow> KeeperStorage \<Rightarrow> u64 \<Rightarrow>
    KeeperStorage \<times> u64 \<times> Delta list \<Rightarrow> bool" where
  "multi_done z rs st dg r \<longleftrightarrow>
     (case r of (st', dg', ds) \<Rightarrow>
        \<exists>new. ds = [] \<and> pending st' = pending st @ new \<and> sub_blocks z rs new (view st) \<and>
          (\<forall>d\<in>set new. d_zxid d = z) \<and> tree_run new (view st) = Some (view st') \<and>
          dg' = dg + digest_add st (tree_digest (view st') - tree_digest (view st)))"

definition multi_undone :: "zxid \<Rightarrow> nat \<Rightarrow> Delta list \<Rightarrow> tree \<Rightarrow> u64 \<Rightarrow>
    KeeperStorage \<times> u64 \<times> Delta list \<Rightarrow> bool" where
  "multi_undone z n keep t0 dg0 r \<longleftrightarrow>
     (case r of (st', dg', ds) \<Rightarrow>
        failed_multi z n ds \<and> pending st' = keep \<and> view st' = t0 \<and> dg' = dg0)"

lemma movedI:
  "st' = st\<lparr>uncommitted_state := us, ephemerals := e\<rparr> \<Longrightarrow> pending_inv st' \<Longrightarrow> sound st' \<Longrightarrow> moved st st'"
  by (simp add: moved_def)

lemma movedE:
  assumes "moved st st'"
  obtains us e where "st' = st\<lparr>uncommitted_state := us, ephemerals := e\<rparr>" "pending_inv st'" "sound st'"
  using assms that unfolding moved_def by blast

lemma moved_trans: "moved st st1 \<Longrightarrow> moved st1 st2 \<Longrightarrow> moved st st2"
  by (elim movedE) (rule movedI, simp_all)

lemma moved_refl: "pending_inv st \<Longrightarrow> sound st \<Longrightarrow> moved st st"
  by (simp add: moved_def)

lemma moved_frame:
  assumes "moved st st'"
  shows "committed_tree st' = committed_tree st" "keeper_context st' = keeper_context st"
    "uncommitted_transactions st' = uncommitted_transactions st" "nodes_digest st' = nodes_digest st"
    "storage_zxid st' = storage_zxid st" "initialized st' = initialized st"
    "old_snapshot_zxid st' = old_snapshot_zxid st" "digest_add st' w = digest_add st w"
  using assms by (elim movedE; simp add: digest_add_def)+

lemma multi_rollback:
  assumes "pending_inv st" and "pending st = keep @ acc" and "\<forall>d\<in>set keep. d_zxid d < z"
    and "\<forall>d\<in>set acc. d_zxid d = z" and "tree_run keep (committed_tree st) = Some t0" and "tree_inv t0"
    and "eph_ok e (view st)"
  obtains st' where "rollback z (st\<lparr>ephemerals := e\<rparr>) = Inr st'" and "moved st st'"
    and "pending st' = keep" and "view st' = t0"
proof -
  have acc: "tree_run acc t0 = Some (view st)" using view_run [OF assms(1)] assms(2,5) by simp
  obtain us e' where rb: "rollback z (st\<lparr>ephemerals := e\<rparr>) = Inr (st\<lparr>uncommitted_state := us, ephemerals := e'\<rparr>)"
      "us_deltas us = keep" "eph_ok e' t0" "pending_inv (st\<lparr>uncommitted_state := us, ephemerals := e'\<rparr>)"
      "view (st\<lparr>uncommitted_state := us, ephemerals := e'\<rparr>) = t0"
    using rollback_ok [of "st\<lparr>ephemerals := e\<rparr>" keep acc z t0 "view st"] assms acc by auto
  have "sound (st\<lparr>uncommitted_state := us, ephemerals := e'\<rparr>)"
    using rb(3,5) assms(6) by (simp add: sound_def)
  with rb(4) have "moved st (st\<lparr>uncommitted_state := us, ephemerals := e'\<rparr>)" by (rule movedI [OF refl])
  with rb(1,2,5) show ?thesis using that by simp
qed

lemma multi_done_Cons:
  assumes "multi_done z rs st1 dg1 r" and "pending st1 = pending st @ nd @ [mkDelta [] z SubDeltaEnd]"
    and "view st1 = t1" and "tree_run nd (view st) = Some t1" and "block_for z (body q) nd t1"
    and "dg1 = dg + digest_add st (tree_digest t1 - tree_digest (view st))"
    and "\<And>w. digest_add st1 w = digest_add st w"
  shows "multi_done z (q # rs) st dg r"
proof -
  let ?nd = "nd @ [mkDelta [] z SubDeltaEnd]"
  obtain st' dg' new where r: "r = (st', dg', [])" and new: "pending st' = pending st1 @ new"
      "sub_blocks z rs new t1" "\<forall>d\<in>set new. d_zxid d = z" "tree_run new t1 = Some (view st')"
      "dg' = dg1 + digest_add st (tree_digest (view st') - tree_digest t1)"
    using assms(1,3,7) by (auto simp: multi_done_def)
  have run: "tree_run ?nd (view st) = Some t1"
    using assms(4) by (simp add: tree_step_def op_step_def)
  have "sub_blocks z (q # rs) (?nd @ new) (view st)" using assms(4,5) new(2) by auto
  moreover have "dg' = dg + digest_add st (tree_digest (view st') - tree_digest (view st))"
    using new(5) assms(6) by (simp add: digest_add_def)
  moreover have "tree_run (?nd @ new) (view st) = Some (view st')"
    unfolding tree_run_append [of ?nd] run using new(4) by simp
  moreover have "\<forall>d\<in>set (?nd @ new). d_zxid d = z"
    using block_for_zxid [OF assms(5)] new(3) by auto
  ultimately show ?thesis using r new(1) assms(2) by (auto simp: multi_done_def)
qed

lemma multi_preprocess_ok:
  "pending_inv st \<Longrightarrow> sound st \<Longrightarrow> pending st = keep @ acc \<Longrightarrow>
   \<forall>d\<in>set keep. d_zxid d < z \<Longrightarrow> \<forall>d\<in>set acc. d_zxid d = z \<Longrightarrow>
   tree_run keep (committed_tree st) = Some t0 \<Longrightarrow> tree_inv t0 \<Longrightarrow> sid \<noteq> 0 \<Longrightarrow>
   (case multi_preprocess op z sid time dg0 st dg errs rs of
      Inl f \<Rightarrow> handleSystemNodeModification (keeper_context st) \<noteq> Inr () \<or> (\<exists>q\<in>set rs. no_slash (body q))
    | Inr r \<Rightarrow> moved st (fst r) \<and>
        (multi_done z rs st dg r \<or> multi_undone z (length errs + length rs) keep t0 dg0 r))"
proof (induction rs arbitrary: st dg errs acc)
  case Nil
  then show ?case by (auto simp: multi_done_def moved_refl)
next
  case (Cons q rs)
  note serve = preprocess_simple_serves [OF Cons.prems(2,8), of z q dg time]
  show ?case
  proof (cases "preprocess_simple st z sid time dg q")
    case (Inl f)
    with serve show ?thesis by auto
  next
  case (Inr r1)
  then obtain st1 dg1 nd where pre: "preprocess_simple st z sid time dg q = Inr (st1, dg1, nd)"
    by (cases r1) auto
  obtain e1 t1 where o: "st1 = st\<lparr>ephemerals := e1\<rparr>" "tree_run nd (view st) = Some t1" "tree_inv t1"
      "eph_ok e1 t1" "dg1 = dg + digest_add st (tree_digest t1 - tree_digest (view st))"
      "block_for z (body q) nd t1"
    using serve pre by (auto simp: outcome_def)
  show ?thesis
  proof (cases "if op = Some WriteOp then delta_error nd else None")
    case (Some e)
    then have "delta_error nd = Some e" by (simp split: if_splits)
    with o(2,4,6) have "eph_ok e1 (view st)" by (auto dest: delta_error_block)
    from multi_rollback [OF Cons.prems(1,3-7) this] obtain st2 where
      "rollback z st1 = Inr st2" "moved st st2" "pending st2 = keep" "view st2 = t0" using o(1) by metis
    with pre Some show ?thesis by (auto simp: multi_undone_def failed_multi_def)
  next
    case None
    let ?nd = "nd @ [mkDelta [] z SubDeltaEnd]"
    have le: "\<forall>d\<in>set (pending st). d_zxid d \<le> z" using Cons.prems(3-5) by auto
    have run: "tree_run ?nd (view st) = Some t1"
      using o(2) by (simp add: tree_step_def op_step_def)
    have zx: "\<forall>d\<in>set ?nd. d_zxid d = z" using block_for_zxid [OF o(6)] by auto
    obtain st2 where st2: "add_deltas ?nd st1 = Inr st2" "moved st st2" "view st2 = t1"
        "pending st2 = pending st @ ?nd"
    proof (rule add_block [OF Cons.prems(1) le run zx o(3,4)])
      fix us
      let ?st2 = "st\<lparr>uncommitted_state := us, ephemerals := e1\<rparr>"
      assume "add_deltas ?nd (st\<lparr>ephemerals := e1\<rparr>) = Inr ?st2" "us_deltas us = pending st @ ?nd"
        "pending_inv ?st2" "sound ?st2" "view ?st2 = t1"
      then show thesis using that [of ?st2] o(1) by (simp add: movedI)
    qed
    let ?R = "multi_preprocess op z sid time dg0 st2 dg1 (errs @ [ZOK]) rs"
    have rest: "multi_preprocess op z sid time dg0 st dg errs (q # rs) = ?R"
      using pre None st2(1) by simp
    have "pending st2 = keep @ (acc @ ?nd)" "\<forall>d\<in>set (acc @ ?nd). d_zxid d = z"
      using st2(4) Cons.prems(3,5) zx by auto
    then have "case ?R of
        Inl f \<Rightarrow> handleSystemNodeModification (keeper_context st2) \<noteq> Inr () \<or> (\<exists>q\<in>set rs. no_slash (body q))
      | Inr r \<Rightarrow> moved st2 (fst r) \<and>
          (multi_done z rs st2 dg1 r \<or> multi_undone z (length (errs @ [ZOK]) + length rs) keep t0 dg0 r)"
      using st2(2) moved_frame(1) [OF st2(2)] Cons.prems(4,6-8)
      by (intro Cons.IH) (auto elim: movedE)
    then show ?thesis
      unfolding rest using moved_trans [OF st2(2)] moved_frame(2,8) [OF st2(2)]
        multi_done_Cons [OF _ st2(4,3) o(2,6,5), of rs] by (cases ?R) auto
  qed
  qed
qed

subsection \<open>Preprocessing a request\<close>

lemma keeper_invD:
  assumes "keeper_inv st xs"
  shows "initialized st" "pending_inv st" "sound st" "tree_inv (committed_tree st)"
    "pending st = concat (map tx_deltas xs)"
    "txs_ok (digestEnabled (keeper_context st)) (digest_offset st) xs (uncommitted_transactions st)
       (storage_zxid st) (committed_tree st) (view st)"
  using assms by (simp_all add: keeper_inv_def)

lemma getNextZXID_last: "getNextZXID st = last_zxid (storage_zxid st) (uncommitted_transactions st) + 1"
  by (simp add: getNextZXID_def last_zxid_def)

lemma pending_zxids:
  assumes "keeper_inv st xs" and "d \<in> set (pending st)"
  shows "storage_zxid st < d_zxid d" "d_zxid d < getNextZXID st"
  using txs_ok_zxids [OF keeper_invD(6) [OF assms(1)]] assms(2) keeper_invD(5) [OF assms(1)]
  by (fastforce simp: getNextZXID_last)+

lemma digest_of_view:
  assumes "keeper_inv st xs" and "digestEnabled (keeper_context st)"
  shows "getNodesDigest st False =
    \<lparr>dg_version = CURRENT_DIGEST_VERSION, dg_value = digest_offset st + tree_digest (view st)\<rparr>"
proof (cases "uncommitted_transactions st = []")
  case True
  then have "view st = committed_tree st"
    using keeper_invD(6) [OF assms(1)] by (cases xs) auto
  with True assms(2) show ?thesis by (simp add: getNodesDigest_def digest_offset_def)
next
  case False
  then show ?thesis
    using txs_ok_last_digest [OF keeper_invD(6) [OF assms(1)] False] assms(2)
    by (simp add: getNodesDigest_def)
qed

text \<open>The end of \<open>preprocessRequest\<close>: \<open>pre\<close> are the deltas that the processor has added already.\<close>

lemma finish_preprocess_ok:
  assumes inv: "keeper_inv st xs" and z: "getNextZXID st \<le> z"
    and st1: "st1 = st\<lparr>uncommitted_state := us1, ephemerals := e1\<rparr>" "pending_inv st1"
      "us_deltas us1 = pending st @ pre" "tree_run pre (view st) = Some (view st1)"
    and ds: "tree_run ds (view st1) = Some t" "tree_inv t" "eph_ok e1 t"
    and zx: "\<forall>d\<in>set (pre @ ds). d_zxid d = z"
    and tx: "tx_ok z req (pre @ ds) (view st) t"
    and dg: "digestEnabled (keeper_context st) \<Longrightarrow> dg1 = digest_offset st + tree_digest t"
  shows "\<exists>st'. finish_preprocess z log_idx (st1, dg1, ds) = Inr st' \<and>
    keeper_inv st' (xs @ [\<lparr>tx_req = req, tx_deltas = pre @ ds\<rparr>]) \<and> view st' = t \<and>
    committed_tree st' = committed_tree st"
proof -
  note k = keeper_invD [OF inv]
  define i where "i = \<lparr>ti_zxid = z,
     ti_nodes_digest =
       (if digestEnabled (keeper_context st)
        then \<lparr>dg_version = CURRENT_DIGEST_VERSION, dg_value = dg1\<rparr>
        else \<lparr>dg_version = NO_DIGEST, dg_value = 0\<rparr>),
     ti_log_idx = log_idx\<rparr>"
  let ?st2 = "st1\<lparr>uncommitted_transactions := uncommitted_transactions st @ [i]\<rparr>"
  have le: "\<forall>d\<in>set (pending ?st2). d_zxid d \<le> z"
    using pending_zxids(2) [OF inv] z st1(1,3) zx by fastforce
  have zds: "\<forall>d\<in>set ds. d_zxid d = z" using zx by auto
  have p2: "pending_inv ?st2" and run2: "tree_run ds (view ?st2) = Some t"
    using st1(2) ds(1) by simp_all
  obtain us where us: "add_deltas ds (?st2\<lparr>ephemerals := e1\<rparr>) = Inr (?st2\<lparr>uncommitted_state := us, ephemerals := e1\<rparr>)"
      "us_deltas us = pending ?st2 @ ds"
      "pending_inv (?st2\<lparr>uncommitted_state := us, ephemerals := e1\<rparr>)"
      "sound (?st2\<lparr>uncommitted_state := us, ephemerals := e1\<rparr>)"
      "view (?st2\<lparr>uncommitted_state := us, ephemerals := e1\<rparr>) = t"
    by (rule add_block [OF p2 le run2 zds ds(2,3)])
  define st' where "st' = ?st2\<lparr>uncommitted_state := us, ephemerals := e1\<rparr>"
  have fr: "initialized st' = initialized st" "committed_tree st' = committed_tree st"
      "keeper_context st' = keeper_context st" "digest_offset st' = digest_offset st"
      "storage_zxid st' = storage_zxid st" "uncommitted_transactions st' = uncommitted_transactions st @ [i]"
      "pending st' = pending st @ pre @ ds"
    using us(2) st1(3) by (simp_all add: st'_def st1(1) digest_offset_def committed_tree_def)
  have step: "tx_step (digestEnabled (keeper_context st)) (digest_offset st)
      \<lparr>tx_req = req, tx_deltas = pre @ ds\<rparr> i (last_zxid (storage_zxid st) (uncommitted_transactions st))
      (view st) t"
    using z zx tx dg st1(4) ds(1,2) by (auto simp: tx_step_def getNextZXID_last i_def)
  have same: "?st2\<lparr>ephemerals := e1\<rparr> = ?st2" by (simp add: st1(1))
  have "finish_preprocess z log_idx (st1, dg1, ds) = add_deltas ds ?st2"
    by (simp add: finish_preprocess_def st1(1) i_def Let_def split del: if_split)
  then have "finish_preprocess z log_idx (st1, dg1, ds) = Inr st'"
    using us(1) unfolding same st'_def by simp
  moreover have "keeper_inv st' (xs @ [\<lparr>tx_req = req, tx_deltas = pre @ ds\<rparr>])"
    unfolding keeper_inv_def fr txs_ok_snoc using k us(3-5) step by (auto simp: st'_def [symmetric])
  ultimately show ?thesis using us(5) fr(2) by (auto simp: st'_def [symmetric])
qed

text \<open>The processor's result, as \<open>finish_preprocess\<close> needs it.\<close>

definition prepared :: "KeeperStorage \<Rightarrow> zxid \<Rightarrow> ZooKeeperRequest \<Rightarrow> KeeperStorage \<times> u64 \<times> Delta list \<Rightarrow> bool" where
  "prepared st z req r \<longleftrightarrow>
     (case r of (st1, dg1, ds) \<Rightarrow>
        \<exists>us1 e1 pre t. st1 = st\<lparr>uncommitted_state := us1, ephemerals := e1\<rparr> \<and> pending_inv st1 \<and>
          us_deltas us1 = pending st @ pre \<and> tree_run pre (view st) = Some (view st1) \<and>
          tree_run ds (view st1) = Some t \<and> tree_inv t \<and> eph_ok e1 t \<and>
          (\<forall>d\<in>set (pre @ ds). d_zxid d = z) \<and> tx_ok z req (pre @ ds) (view st) t \<and>
          (digestEnabled (keeper_context st) \<longrightarrow> dg1 = digest_offset st + tree_digest t))"

lemma outcome_prepared:
  assumes "keeper_inv st xs" and "outcome st z (body req) (dg_value (getNodesDigest st False)) r"
    and "\<And>ty rs. body req \<noteq> MultiRequest ty rs"
  shows "prepared st z req r"
proof -
  obtain e t st1 dg1 ds where o: "r = (st1, dg1, ds)" "st1 = st\<lparr>ephemerals := e\<rparr>"
      "tree_run ds (view st) = Some t" "tree_inv t" "eph_ok e t" "block_for z (body req) ds t"
      "dg1 = dg_value (getNodesDigest st False) + digest_add st (tree_digest t - tree_digest (view st))"
    using assms(2) by (cases r) (auto simp: outcome_def)
  have "tx_ok z req ds (view st) t"
    using o(6) assms(3) by (cases "body req") (auto simp: tx_ok_def)
  moreover have "digestEnabled (keeper_context st) \<longrightarrow> dg1 = digest_offset st + tree_digest t"
    using o(7) digest_of_view [OF assms(1)] by (simp add: digest_add_def)
  ultimately show ?thesis
    using o block_for_zxid [OF o(6)] keeper_invD(2) [OF assms(1)] unfolding prepared_def
    by (auto intro!: exI [of _ "uncommitted_state st"] exI [of _ e] exI [of _ "[]"])
qed

lemma checkAuth_silent: "silent (body req) \<Longrightarrow> checkAuth_simple st req sid l = Inr True"
  by (cases "body req") (simp_all add: checkAuth_simple_def)

lemma noauth_prepared:
  assumes "keeper_inv st xs" and "getNextZXID st \<le> z" and "checkAuth st req sid False = Inr False"
  shows "prepared st z req (push_noauth z st, dg_value (getNodesDigest st False), [])"
proof -
  let ?d = "mkError z ZNOAUTH"
  let ?us = "(uncommitted_state st)\<lparr>us_deltas := pending st @ [?d]\<rparr>"
  have "tree_step ?d (view st) = Some (view st)" by (simp add: tree_step_def op_step_def)
  moreover have "\<forall>d\<in>set (pending st). d_zxid d \<le> d_zxid ?d"
    using pending_zxids(2) [OF assms(1)] assms(2) by fastforce
  moreover have "addDelta (container st) (uncommitted_state st) ?d = Inr ?us"
    by (simp add: addDelta_def Let_def)
  ultimately have us: "pending_inv (st\<lparr>uncommitted_state := ?us\<rparr>)"
      "view (st\<lparr>uncommitted_state := ?us\<rparr>) = view st"
    using addDelta_inv [OF keeper_invD(2) [OF assms(1)], of ?d "view st"] by auto
  have "tx_ok z req [?d] (view st) (view st)"
  proof (cases "\<exists>ty rs. body req = MultiRequest ty rs")
    case False
    then have "checkAuth st req sid False = checkAuth_simple st req sid False"
      by (cases "body req") (simp_all add: checkAuth_def)
    then have "\<not> silent (body req)" using assms(3) checkAuth_silent by fastforce
    with False show ?thesis
      by (cases "body req") (auto simp: tx_ok_def block_for_def error_block_def)
  qed (auto simp: tx_ok_def)
  moreover have "digestEnabled (keeper_context st) \<Longrightarrow>
      dg_value (getNodesDigest st False) = digest_offset st + tree_digest (view st)"
    using digest_of_view [OF assms(1)] by simp
  ultimately show ?thesis
    using us keeper_invD(3) [OF assms(1)] unfolding prepared_def push_noauth_def
    by (auto simp: sound_def tree_step_def op_step_def
        intro!: exI [of _ ?us] exI [of _ "ephemerals st"] exI [of _ "[?d]"])
qed

lemma multi_prepared:
  assumes "keeper_inv st xs" and "getNextZXID st \<le> z" and "sid \<noteq> 0" and b: "body req = MultiRequest ty rs"
    and "multi_preprocess op z sid time (dg_value (getNodesDigest st False)) st
      (dg_value (getNodesDigest st False)) [] rs = Inr r"
  shows "prepared st z req r"
proof -
  note k = keeper_invD [OF assms(1)]
  let ?dg = "dg_value (getNodesDigest st False)"
  have "tree_run (pending st) (committed_tree st) = Some (view st)" using view_run [OF k(2)] .
  moreover have "\<forall>d\<in>set (pending st). d_zxid d < z" using pending_zxids(2) [OF assms(1)] assms(2) by fastforce
  ultimately have m: "moved st (fst r)"
      "multi_done z rs st ?dg r \<or> multi_undone z (length rs) (pending st) (view st) ?dg r"
    using multi_preprocess_ok [OF k(2,3), where keep = "pending st" and acc = "[]" and ?t0.0 = "view st" and op = op
        and time = time and ?dg0.0 = ?dg and dg = ?dg and errs = "[]" and rs = rs and z = z and sid = sid]
      k(3) assms(3,5) by (auto simp: sound_def)
  obtain st1 dg1 ds where r: "r = (st1, dg1, ds)" by (cases r)
  obtain us1 e1 where st1: "st1 = st\<lparr>uncommitted_state := us1, ephemerals := e1\<rparr>" "pending_inv st1" "sound st1"
    using m(1) r by (auto elim: movedE)
  then have eph: "tree_inv (view st1)" "eph_ok e1 (view st1)" by (auto simp: sound_def)
  have dg: "digestEnabled (keeper_context st) \<Longrightarrow> ?dg = digest_offset st + tree_digest (view st)"
    using digest_of_view [OF assms(1)] by simp
  from m(2) show ?thesis
  proof
    assume "multi_done z rs st ?dg r"
    then obtain new where new: "ds = []" "us_deltas us1 = pending st @ new" "sub_blocks z rs new (view st)"
        "\<forall>d\<in>set new. d_zxid d = z" "tree_run new (view st) = Some (view st1)"
        "dg1 = ?dg + digest_add st (tree_digest (view st1) - tree_digest (view st))"
      using r st1(1) by (auto simp: multi_done_def)
    then have "digestEnabled (keeper_context st) \<longrightarrow> dg1 = digest_offset st + tree_digest (view st1)"
      using dg by (simp add: digest_add_def)
    with new st1 eph b show ?thesis unfolding r prepared_def
      by (auto simp: tx_ok_def intro!: exI [of _ us1] exI [of _ e1] exI [of _ new])
  next
    assume "multi_undone z (length rs) (pending st) (view st) ?dg r"
    then have un: "failed_multi z (length rs) ds" "us_deltas us1 = pending st" "view st1 = view st" "dg1 = ?dg"
      using r st1(1) by (auto simp: multi_undone_def)
    then obtain errs where ds: "ds = [mkDelta [] z (FailedMultiDelta errs)]" by (auto simp: failed_multi_def)
    then have "tree_run ds (view st1) = Some (view st1)" by (simp add: tree_step_def op_step_def)
    with un ds st1 eph b dg show ?thesis unfolding r prepared_def
      by (auto simp: tx_ok_def intro!: exI [of _ us1] exI [of _ e1] exI [of _ "[]"])
  qed
qed

lemma preprocess_prepared:
  fixes st :: KeeperStorage
  defines "dg \<equiv> dg_value (getNodesDigest st False)"
  assumes "keeper_inv st xs" and "getNextZXID st \<le> z" and "sid \<noteq> 0"
    and r: "(if getOpNum req = OpClose then close_preprocess st z sid dg
      else rbind (if check_acl then checkAuth st req sid False else Inr True) (\<lambda>authorised.
             if authorised then preprocess st z sid time dg req
             else Inr (push_noauth z st, dg, []))) = Inr r"
  shows "prepared st z req r"
proof (cases "getOpNum req = OpClose")
  case True
  then have b: "body req = CloseRequest"
    by (cases "body req") (auto simp: getOpNum_def split: if_splits)
  have "outcome st z (body req) dg r"
    using r True b close_outcome [OF keeper_invD(3) [OF assms(2)] assms(4), of z dg] by simp
  then show ?thesis using b by (intro outcome_prepared [OF assms(2)]) (simp_all add: dg_def)
next
  case False
  show ?thesis
  proof (cases "preprocess st z sid time dg req = Inr r")
    case True
    show ?thesis
    proof (cases "\<exists>ty rs. body req = MultiRequest ty rs")
      case multi: True
      with True show ?thesis
        by (auto simp: preprocess_def dg_def intro: multi_prepared [OF assms(2-4)])
    next
      case single: False
      then have "preprocess_simple st z sid time dg req = Inr r"
        using True by (cases "body req") (auto simp: preprocess_def)
      from preprocess_simple_outcome [OF keeper_invD(3) [OF assms(2)] assms(4) this] single
      show ?thesis by (intro outcome_prepared [OF assms(2)]) (auto simp: dg_def)
    qed
  next
    case other: False
    with False r have "r = (push_noauth z st, dg, [])" "checkAuth st req sid False = Inr False"
      by (auto split: if_splits)
    then show ?thesis using noauth_prepared [OF assms(2,3)] by (simp add: dg_def)
  qed
qed

lemma prepared_finish:
  assumes "keeper_inv st xs" and "getNextZXID st \<le> z" and "prepared st z req r"
  shows "\<exists>ds st'. finish_preprocess z log_idx r = Inr st' \<and>
    keeper_inv st' (xs @ [\<lparr>tx_req = req, tx_deltas = ds\<rparr>]) \<and> committed_tree st' = committed_tree st"
proof -
  obtain st1 dg1 ds us1 e1 pre t where p: "r = (st1, dg1, ds)"
      "st1 = st\<lparr>uncommitted_state := us1, ephemerals := e1\<rparr>" "pending_inv st1"
      "us_deltas us1 = pending st @ pre" "tree_run pre (view st) = Some (view st1)"
      "tree_run ds (view st1) = Some t" "tree_inv t" "eph_ok e1 t"
      "\<forall>d\<in>set (pre @ ds). d_zxid d = z" "tx_ok z req (pre @ ds) (view st) t"
      "digestEnabled (keeper_context st) \<longrightarrow> dg1 = digest_offset st + tree_digest t"
    using assms(3) unfolding prepared_def by (cases r) blast
  from finish_preprocess_ok [OF assms(1,2) p(2-10), of dg1 log_idx] p(1,11) show ?thesis by auto
qed

lemma preprocess_new_ok:
  assumes "keeper_inv st xs" and "getNextZXID st \<le> z" and "sid \<noteq> 0"
    and "preprocess_new req sid time z check_acl log_idx st = Inr st'"
  shows "\<exists>ds. keeper_inv st' (xs @ [\<lparr>tx_req = req, tx_deltas = ds\<rparr>]) \<and> committed_tree st' = committed_tree st"
proof -
  let ?dg = "dg_value (getNodesDigest st False)"
  obtain r where r: "finish_preprocess z log_idx r = Inr st'"
    "(if getOpNum req = OpClose then close_preprocess st z sid ?dg
      else rbind (if check_acl then checkAuth st req sid False else Inr True) (\<lambda>authorised.
             if authorised then preprocess st z sid time ?dg req
             else Inr (push_noauth z st, ?dg, []))) = Inr r"
    using assms(4) by (auto simp: preprocess_new_def Let_def)
  from prepared_finish [OF assms(1,2) preprocess_prepared [OF assms(1-3) r(2)], of log_idx] r(1)
  show ?thesis by auto
qed

lemma txs_ok_log_idx:
  assumes "txs_ok en off xs (is @ [i]) z t t'"
  shows "txs_ok en off xs (is @ [i\<lparr>ti_log_idx := k\<rparr>]) z t t'"
proof (cases xs rule: rev_exhaust)
  case (snoc ys y)
  with assms show ?thesis by (auto simp: txs_ok_snoc tx_step_def)
qed (use assms in simp)

lemma set_last_log_idx_ok:
  assumes "keeper_inv st xs" and "uncommitted_transactions st \<noteq> []"
  shows "keeper_inv (set_last_log_idx k st) xs" "committed_tree (set_last_log_idx k st) = committed_tree st"
proof -
  obtain ts i where ts: "uncommitted_transactions st = ts @ [i]" using assms(2) by (meson rev_exhaust)
  have "digest_offset (set_last_log_idx k st) = digest_offset st"
    by (simp add: digest_offset_def set_last_log_idx_def)
  with assms(1) ts txs_ok_log_idx show "keeper_inv (set_last_log_idx k st) xs"
    by (auto simp: keeper_inv_def set_last_log_idx_def)
qed (simp add: set_last_log_idx_def)

text \<open>
  Preprocessing keeps the invariant: the request is appended to the pending ones, or it was
  preprocessed before (its zxid and digest are those of the last transaction).
\<close>

lemma preprocessRequest_ok:
  assumes "keeper_inv st xs" and "sid \<noteq> 0"
    and "storage_zxid st = old_snapshot_zxid st \<longrightarrow> storage_zxid st < z"
    and "preprocessRequest req sid time z check_acl digest log_idx st = Inr st'"
  shows "committed_tree st' = committed_tree st \<and>
    ((\<exists>ds. keeper_inv st' (xs @ [\<lparr>tx_req = req, tx_deltas = ds\<rparr>])) \<or>
     keeper_inv st' xs \<and> uncommitted_transactions st \<noteq> [] \<and>
       st' = set_last_log_idx log_idx st \<and> z = ti_zxid (last (uncommitted_transactions st)))"
proof (cases "preprocess_new req sid time z check_acl log_idx st = Inr st' \<and> getNextZXID st \<le> z")
  case True
  with preprocess_new_ok [OF assms(1) _ assms(2)] show ?thesis by blast
next
  case False
  have "uncommitted_transactions st \<noteq> [] \<and> st' = set_last_log_idx log_idx st \<and> z = getNextZXID st - 1"
  proof (cases "uncommitted_transactions st = []")
    case True
    then have "getNextZXID st = storage_zxid st + 1" by (simp add: getNextZXID_def)
    with False True assms(3,4) show ?thesis
      by (auto simp: preprocessRequest_def Let_def split: if_splits)
  next
    case ts: False
    with False assms(4) show ?thesis
      by (auto simp: preprocessRequest_def Let_def split: if_splits)
  qed
  then show ?thesis
    using set_last_log_idx_ok [OF assms(1)] by (simp add: getNextZXID_def)
qed

subsection \<open>Preprocessing returns\<close>

text \<open>
  A request that has a processor, whose paths have a slash, and that the access check does not
  reject with an exception, is preprocessed: the only other failure is an attempt to modify a system
  node during startup.
\<close>

definition has_slashes :: "ZooKeeperRequest \<Rightarrow> bool" where
  "has_slashes req =
     (case body req of
        MultiRequest ty rs \<Rightarrow> \<forall>r\<in>set rs. \<not> no_slash (body r)
      | b \<Rightarrow> \<not> no_slash b)"

lemma preprocess_returns:
  assumes "keeper_inv st xs" and "getNextZXID st \<le> z" and "sid \<noteq> 0" and "get_processor req = Inr op"
    and "handleSystemNodeModification (keeper_context st) = Inr ()" and "has_slashes req"
  shows "\<exists>r. preprocess st z sid time dg req = Inr r"
proof (cases "\<exists>ty rs. body req = MultiRequest ty rs")
  case True
  then obtain ty rs where b: "body req = MultiRequest ty rs" by blast
  note k = keeper_invD [OF assms(1)]
  let ?R = "multi_preprocess op z sid time dg st dg [] rs"
  have "\<forall>d\<in>set (pending st). d_zxid d < z" using pending_zxids(2) [OF assms(1)] assms(2) by fastforce
  then have "case ?R of
      Inl f \<Rightarrow> handleSystemNodeModification (keeper_context st) \<noteq> Inr () \<or> (\<exists>q\<in>set rs. no_slash (body q))
    | Inr r \<Rightarrow> moved st (fst r) \<and>
        (multi_done z rs st dg r \<or> multi_undone z (length ([] :: Error list) + length rs) (pending st) (view st) dg r)"
    using view_run [OF k(2)] k(3) assms(3)
    by (intro multi_preprocess_ok [OF k(2,3), where acc = "[]"]) (auto simp: sound_def)
  with assms(4-6) b show ?thesis by (cases ?R) (auto simp: preprocess_def has_slashes_def)
next
  case False
  then have "preprocess st z sid time dg req = preprocess_simple st z sid time dg req" "\<not> no_slash (body req)"
    using assms(6) by (cases "body req"; simp add: preprocess_def has_slashes_def)+
  with preprocess_simple_serves [OF keeper_invD(3) [OF assms(1)] assms(3), of z req dg time] assms(5)
  show ?thesis by (cases "preprocess_simple st z sid time dg req") auto
qed

lemma preprocess_new_returns:
  assumes "keeper_inv st xs" and "getNextZXID st \<le> z" and "sid \<noteq> 0" and "get_processor req = Inr op"
    and "handleSystemNodeModification (keeper_context st) = Inr ()" and "has_slashes req"
    and "check_acl \<Longrightarrow> \<exists>ok. checkAuth st req sid False = Inr ok"
  shows "\<exists>st'. preprocess_new req sid time z check_acl log_idx st = Inr st'"
proof -
  let ?dg = "dg_value (getNodesDigest st False)"
  let ?R = "if getOpNum req = OpClose then close_preprocess st z sid ?dg
      else rbind (if check_acl then checkAuth st req sid False else Inr True) (\<lambda>authorised.
             if authorised then preprocess st z sid time ?dg req
             else Inr (push_noauth z st, ?dg, []))"
  have "\<exists>r. ?R = Inr r"
  proof (cases "getOpNum req = OpClose")
    case True
    with close_outcome [OF keeper_invD(3) [OF assms(1)] assms(3), of z ?dg] assms(5) show ?thesis
      by (cases "close_preprocess st z sid ?dg") (auto simp: no_slash_def)
  next
    case False
    obtain ok where "(if check_acl then checkAuth st req sid False else Inr True) = Inr ok"
      using assms(7) by (cases check_acl) auto
    with False preprocess_returns [OF assms(1-6), of time ?dg] show ?thesis by (cases ok) auto
  qed
  then obtain r where r: "?R = Inr r" by blast
  have "prepared st z req r" by (rule preprocess_prepared [OF assms(1-3) r])
  from prepared_finish [OF assms(1,2) this, of log_idx] r assms(4) show ?thesis
    by (auto simp: preprocess_new_def Let_def)
qed

lemma preprocessRequest_returns:
  assumes "keeper_inv st xs" and "getNextZXID st \<le> z" and "sid \<noteq> 0" and "get_processor req = Inr op"
    and "handleSystemNodeModification (keeper_context st) = Inr ()" and "has_slashes req"
    and "check_acl \<Longrightarrow> \<exists>ok. checkAuth st req sid False = Inr ok"
  shows "\<exists>st'. preprocessRequest req sid time z check_acl digest log_idx st = Inr st'"
  using preprocess_new_returns [OF assms] keeper_invD(1) [OF assms(1)] assms(2)
  by (auto simp: preprocessRequest_def Let_def)

end
