(* ===== verification/KeeperContents.thy ===== *)
theory KeeperContents
  imports KeeperTransactions
begin

text \<open>
  What the committed container holds beyond the tree: the sets of child names, which the list
  requests return, and the interned access control lists. Both are kept by every commit; the names
  as long as the created paths are canonical, the lists as long as neither the ids nor the usage
  counters run out.
\<close>

subsection \<open>What a commit does to the container\<close>

lemma createNode_contents:
  assumes "createNode p new_data stat acls st = Inr (True, st')"
  obtains q parent m a n where "parentNodePath p = Some q" and "container st q = Some parent"
    and "container st p = None" and "convertACLs (acl_map st) acls = (m, a)"
    and "acl_map st' = addUsage m a" and "n_acl_id n = a" and "n_children n = []"
    and "container st' = (container st)(p \<mapsto> n, q \<mapsto> addChild (getBaseNodeName p) parent)"
proof -
  obtain q parent where q: "parentNodePath p = Some q" "container st q = Some parent" "container st p = None"
    using assms by (auto simp: createNode_def split: option.splits if_splits)
  then have "q \<noteq> p" by auto
  obtain m a where m: "convertACLs (acl_map st) acls = (m, a)" by fastforce
  define n where "n = setData new_data (copyStats stat (Node_default\<lparr>n_acl_id := a\<rparr>))"
  have "n_acl_id n = a" "n_children n = []"
    by (simp_all add: n_def setData_def copyStats_def Node_default_def Let_def setNumChildren_def
        setEphemeralOwner_def)
  moreover have "acl_map st' = addUsage m a"
    "container st' = (container st)(p \<mapsto> n, q \<mapsto> addChild (getBaseNodeName p) parent)"
    using assms q m \<open>q \<noteq> p\<close>
    by (auto simp: createNode_def n_def updateValue_def addDigest_def Let_def split: if_splits)
  ultimately show ?thesis using that q m by blast
qed

lemma removeNode_contents:
  assumes "removeNode p ver st = Inr (True, st')"
  obtains n q parent where "container st p = Some n" and "parentNodePath p = Some q"
    and "container st q = Some parent" and "acl_map st' = removeUsage (acl_map st) (n_acl_id n)"
    and "container st' = (container st)(q \<mapsto> removeChild (getBaseNodeName p) parent, p := None)"
proof -
  obtain n where n: "container st p = Some n" using assms by (cases "container st p") (simp_all add: removeNode_def)
  obtain q where q: "parentNodePath p = Some q"
    using assms n by (cases "parentNodePath p") (simp_all add: removeNode_def split: if_splits)
  obtain parent where parent: "container st q = Some parent"
    using assms n q by (cases "container st q") (simp_all add: removeNode_def updateValue_def split: if_splits)
  have "acl_map st' = removeUsage (acl_map st) (n_acl_id n)"
    "container st' = (container st)(q \<mapsto> removeChild (getBaseNodeName p) parent, p := None)"
    using assms n q parent by (auto simp: removeNode_def updateValue_def removeDigest_def split: if_splits)
  with n q parent show ?thesis by (rule that)
qed

lemma setacl_contents:
  assumes "commit_delta d st = Inr (e, f, st')" and "d_operation d = SetACLDelta acls ver"
  obtains n m a where "container st (d_path d) = Some n"
    and "convertACLs (removeUsage (acl_map st) (n_acl_id n)) acls = (m, a)"
    and "acl_map st' = addUsage m a"
    and "container st' = (container st)(d_path d \<mapsto> n\<lparr>n_acl_id := a\<rparr>)"
proof -
  obtain n where n: "container st (d_path d) = Some n"
    using assms by (cases "container st (d_path d)") (simp_all add: commit_delta_def)
  obtain m a where m: "convertACLs (removeUsage (acl_map st) (n_acl_id n)) acls = (m, a)" by fastforce
  have "acl_map st' = addUsage m a" "container st' = (container st)(d_path d \<mapsto> n\<lparr>n_acl_id := a\<rparr>)"
    using assms n m by (auto simp: commit_delta_def updateValue_def split: if_splits)
  with n m show ?thesis by (rule that)
qed

lemma update_contents:
  assumes "commit_delta d st = Inr (e, f, st')" and "d_operation d = UpdateNodeDelta g ver"
  obtains n where "container st (d_path d) = Some n" and "acl_map st' = acl_map st"
    and "container st' = (container st)(d_path d \<mapsto> update_fn g n)"
proof -
  obtain n where n: "container st (d_path d) = Some n"
    using assms by (cases "container st (d_path d)") (simp_all add: commit_delta_def)
  have "acl_map st' = acl_map st" "container st' = (container st)(d_path d \<mapsto> update_fn g n)"
    using assms n
    by (auto simp: commit_delta_def updateValue_def addDigest_def removeDigest_def split: if_splits)
  with n show ?thesis by (rule that)
qed

lemma other_contents:
  assumes "commit_delta d st = Inr (e, f, st')" and "\<not> is_node_op (d_operation d)"
  shows "container st' = container st \<and> acl_map st' = acl_map st"
proof (cases "d_operation d")
  case (AddAuthDelta s a)
  then show ?thesis using assms(1) by (auto simp: commit_delta_def)
next
  case (ErrorDelta x)
  then show ?thesis using assms(1) by (auto simp: commit_delta_def)
next
  case SubDeltaEnd
  then show ?thesis using assms(1) by (auto simp: commit_delta_def)
next
  case (FailedMultiDelta x)
  then show ?thesis using assms(1) by (auto simp: commit_delta_def)
qed (use assms(2) in simp_all)

text \<open>The same by cases on the operation, for a delta that the specification accepts.\<close>

lemma commit_delta_contents:
  assumes "commit_delta d st = Inr (e, f, st')"
  obtains (create) q parent m a n stat acls new_data where "d_operation d = CreateNodeDelta stat acls new_data"
      "parentNodePath (d_path d) = Some q" "container st q = Some parent" "container st (d_path d) = None"
      "convertACLs (acl_map st) acls = (m, a)" "acl_map st' = addUsage m a" "n_acl_id n = a"
      "n_children n = []"
      "container st' = (container st)(d_path d \<mapsto> n, q \<mapsto> addChild (getBaseNodeName (d_path d)) parent)"
  | (remove) n q parent ver ow where "d_operation d = RemoveNodeDelta ver ow" "container st (d_path d) = Some n"
      "parentNodePath (d_path d) = Some q" "container st q = Some parent"
      "acl_map st' = removeUsage (acl_map st) (n_acl_id n)"
      "container st' = (container st)(q \<mapsto> removeChild (getBaseNodeName (d_path d)) parent, d_path d := None)"
  | (setacl) n m a acls ver where "d_operation d = SetACLDelta acls ver" "container st (d_path d) = Some n"
      "convertACLs (removeUsage (acl_map st) (n_acl_id n)) acls = (m, a)" "acl_map st' = addUsage m a"
      "container st' = (container st)(d_path d \<mapsto> n\<lparr>n_acl_id := a\<rparr>)"
  | (same) n' where "acl_map st' = acl_map st" "container st' = (container st)(d_path d := n')"
      "map_option n_acl_id n' = map_option n_acl_id (container st (d_path d))"
      "map_option n_children n' = map_option n_children (container st (d_path d))"
proof -
  have other: thesis if "\<not> is_node_op (d_operation d)"
    using other_contents [OF assms that] by (intro same [of "container st (d_path d)"]) simp_all
  show thesis
  proof (cases "d_operation d")
    case (CreateNodeDelta stat acls new_data)
    then have "createNode (d_path d) new_data stat acls st = Inr (True, st')"
      using assms by (auto simp: commit_delta_def split: if_splits)
    with CreateNodeDelta show ?thesis by (elim createNode_contents) (rule create)
  next
    case (RemoveNodeDelta ver ow)
    then have "removeNode (d_path d) ver st = Inr (True, st')"
      using assms by (auto simp: commit_delta_def split: if_splits)
    with RemoveNodeDelta show ?thesis by (elim removeNode_contents) (rule remove)
  next
    case (SetACLDelta acls ver)
    show ?thesis by (rule setacl_contents [OF assms SetACLDelta]) (rule setacl [OF SetACLDelta])
  next
    case (UpdateNodeDelta g ver)
    show ?thesis by (rule update_contents [OF assms UpdateNodeDelta]) (rule same, auto)
  qed (use other in simp_all)
qed

text \<open>A property of the storage that every committed delta keeps holds after the whole block.\<close>

lemma storage_commit_keeps:
  assumes step: "\<And>d st st' e f k t. d \<in> D \<Longrightarrow> Q (Suc k) st \<Longrightarrow> tree_step d (committed_tree st) = Some t \<Longrightarrow>
      commit_delta d st = Inr (e, f, st') \<Longrightarrow> Q k st'"
    and tail: "\<And>s. storage_commit_loop z tail s = Inr (ZOK, s)"
  shows "set ds \<subseteq> D \<Longrightarrow> Q (length ds) st \<Longrightarrow> tree_run ds (committed_tree st) = Some t \<Longrightarrow>
    \<forall>d\<in>set ds. plain_op (d_operation d) \<and> d_zxid d \<le> z \<Longrightarrow>
    storage_commit_loop z (ds @ tail) st = Inr (e, st1) \<Longrightarrow> Q 0 st1"
proof (induction ds arbitrary: st)
  case Nil
  then show ?case using tail by simp
next
  case (Cons d ds)
  obtain t1 where t1: "tree_step d (committed_tree st) = Some t1" "tree_run ds t1 = Some t"
    using Cons.prems(3) by (auto simp: bind_eq_Some_conv)
  have plain: "plain_op (d_operation d)" "\<not> z < d_zxid d" using Cons.prems(4) by auto
  obtain st2 where st2: "commit_delta d st = Inr (ZOK, False, st2)" "committed_tree st2 = t1"
    using commit_delta_refines [OF t1(1)] plain_op_simps [OF plain(1)] by auto
  have "Q (length ds) st2" using step [OF _ _ t1(1) st2(1)] Cons.prems(1,2) by simp
  moreover have "storage_commit_loop z (ds @ tail) st2 = Inr (e, st1)"
    using Cons.prems(5) st2(1) plain(2) by simp
  ultimately show ?case
    using Cons.prems(1,4) t1(2) st2(2) by (intro Cons.IH [of st2]) simp_all
qed

subsection \<open>Interned access control lists\<close>

definition acl_users :: "container \<Rightarrow> u64 \<Rightarrow> nat" where
  "acl_users c a = card {p. map_option n_acl_id (c p) = Some a}"

definition acl_ok :: "KeeperStorage \<Rightarrow> bool" where
  "acl_ok st \<longleftrightarrow>
     finite (dom (container st)) \<and> acl_inv (acl_map st) \<and>
     acl_counts (acl_map st) (acl_users (container st))"

definition acl_capacity :: "nat \<Rightarrow> KeeperStorage \<Rightarrow> bool" where
  "acl_capacity k st \<longleftrightarrow> acl_room (acl_map st) k \<and> card (dom (container st)) + k < 2 ^ 64"

lemma acl_users_finite: "finite (dom c) \<Longrightarrow> finite {p. map_option n_acl_id (c p) = Some a}"
  by (rule finite_subset [of _ "dom c"]) auto

lemma acl_users_le: "finite (dom c) \<Longrightarrow> acl_users c a \<le> card (dom c)"
  unfolding acl_users_def by (rule card_mono) auto

lemma acl_users_upd:
  assumes "finite (dom c)"
  shows "acl_users (c(p := v)) a =
    acl_users c a - (if map_option n_acl_id (c p) = Some a then 1 else 0) +
    (if map_option n_acl_id v = Some a then 1 else 0)"
proof -
  define S where "S = {q. map_option n_acl_id (c q) = Some a}"
  have S: "finite S" "p \<in> S \<longleftrightarrow> map_option n_acl_id (c p) = Some a"
    using acl_users_finite [OF assms] by (simp_all add: S_def)
  have "{q. map_option n_acl_id ((c(p := v)) q) = Some a} =
      (if map_option n_acl_id v = Some a then insert p (S - {p}) else S - {p})"
    by (auto simp: S_def)
  moreover have "card (insert p (S - {p})) = card (S - {p}) + 1"
    using card_insert_disjoint [of "S - {p}" p] S(1) by simp
  moreover have "card (S - {p}) = card S - (if p \<in> S then 1 else 0)"
    using S(1) by (simp add: card_Diff_singleton_if)
  ultimately show ?thesis
    unfolding acl_users_def S_def [symmetric] S(2) [symmetric] by simp
qed

lemma acl_users_same:
  assumes "map_option n_acl_id v = map_option n_acl_id (c p)"
  shows "acl_users (c(p := v)) = acl_users c"
proof -
  have "map_option n_acl_id ((c(p := v)) q) = map_option n_acl_id (c q)" for q using assms by simp
  then show ?thesis unfolding acl_users_def by presburger
qed

lemma acl_users_pos:
  assumes "finite (dom c)" and "c p = Some n"
  shows "0 < acl_users c (n_acl_id n)"
proof -
  have "p \<in> {q. map_option n_acl_id (c q) = Some (n_acl_id n)}" using assms(2) by simp
  then show ?thesis
    unfolding acl_users_def using acl_users_finite [OF assms(1)] card_gt_0_iff by blast
qed

lemma acl_resolves:
  assumes "acl_ok st" and "container st p = Some n"
  shows "\<exists>acls. convertNumber (acl_map st) (n_acl_id n) = Inr acls"
  using acl_users_pos [of "container st" p n] assms
  by (auto simp: acl_ok_def acl_counts_def convertNumber_def split: option.splits)

lemma addUsage_max [simp]: "max_acl_id (addUsage m n) = max_acl_id m"
  by (simp add: addUsage_def)

lemma acl_intern_step:
  assumes "acl_inv m" and "acl_counts m f" and "acl_room m (Suc k)" and "convertACLs m acls = (m', a)"
    and "f a + 1 < 2 ^ 64"
  shows "acl_inv (addUsage m' a)" "acl_counts (addUsage m' a) (f(a := f a + 1))"
    "acl_room (addUsage m' a) k"
proof -
  show "acl_inv (addUsage m' a)"
    using convertACLs_inv [OF assms(1,4) acl_room_Suc [OF assms(3)]] by simp
  show "acl_counts (addUsage m' a) (f(a := f a + 1))" by (rule acl_counts_add [OF assms(1,2,4,5)])
  have "acl_room m' k" using acl_intern.intern_room [OF assms(1,3), of acls] assms(4) by simp
  then show "acl_room (addUsage m' a) k" by (simp add: acl_room_def)
qed

lemma commit_delta_acl:
  assumes "acl_ok st" and "acl_capacity (Suc k) st" and "commit_delta d st = Inr (e, f, st')"
  shows "acl_ok st' \<and> acl_capacity k st'"
proof -
  let ?c = "container st"
  have c: "finite (dom ?c)" "acl_inv (acl_map st)" "acl_counts (acl_map st) (acl_users ?c)"
      "acl_room (acl_map st) (Suc k)" "card (dom ?c) + Suc k < 2 ^ 64"
    using assms(1,2) by (simp_all add: acl_ok_def acl_capacity_def)
  have room: "acl_users ?c a + 1 < 2 ^ 64" for a using acl_users_le [OF c(1), of a] c(5) by simp
  from assms(3) show ?thesis
  proof (cases rule: commit_delta_contents)
    case (create q parent m a n stat acls new_data)
    have "acl_users (container st') = acl_users (?c(d_path d \<mapsto> n))"
      using create(3,4) unfolding create(9) by (intro acl_users_same) (auto simp: addChild_def)
    then have "acl_users (container st') = (acl_users ?c)(a := acl_users ?c a + 1)"
      using create(4,7) c(1) by (auto simp: fun_eq_iff acl_users_upd)
    moreover have "card (dom (container st')) \<le> Suc (card (dom ?c))"
      using create(3,9) c(1) by (simp add: insert_absorb domI card_insert_if)
    ultimately show ?thesis
      using acl_intern_step [OF c(2,3,4) create(5) room] create(6,9) c(1,5)
      by (simp add: acl_ok_def acl_capacity_def)
  next
    case (remove n q parent ver ow)
    let ?a = "n_acl_id n" and ?c1 = "?c(q \<mapsto> removeChild (getBaseNodeName (d_path d)) parent)"
    have "acl_users ?c1 = acl_users ?c"
      using remove(4) by (intro acl_users_same) (simp add: removeChild_def)
    moreover have "map_option n_acl_id (?c1 (d_path d)) = Some ?a"
      using remove(2,4) by (auto simp: removeChild_def)
    moreover have "finite (dom ?c1)" using c(1) by simp
    ultimately have "acl_users (container st') = (acl_users ?c)(?a := acl_users ?c ?a - 1)"
      unfolding remove(6) by (auto simp: fun_eq_iff acl_users_upd [of ?c1])
    moreover have "card (dom (container st')) \<le> card (dom ?c)"
      using remove(2,4,6) c(1) by (intro card_mono) auto
    ultimately show ?thesis
      using acl_counts_remove [OF c(3), of ?a] acl_users_pos [OF c(1) remove(2)]
        removeUsage_inv [OF c(2), of ?a] c(1,4,5) remove(5,6)
      by (simp add: acl_ok_def acl_capacity_def acl_room_def)
  next
    case (setacl n m a acls ver)
    let ?b = "n_acl_id n" and ?f = "(acl_users ?c)(n_acl_id n := acl_users ?c (n_acl_id n) - 1)"
    have "acl_users (container st') = ?f(a := ?f a + 1)"
      unfolding setacl(5) using setacl(2) c(1) by (simp add: fun_eq_iff acl_users_upd)
    moreover have "dom (container st') = dom ?c" using setacl(2,5) by auto
    moreover have "acl_counts (removeUsage (acl_map st) ?b) ?f" "acl_inv (removeUsage (acl_map st) ?b)"
      using acl_counts_remove [OF c(3), of ?b] acl_users_pos [OF c(1) setacl(2)]
        removeUsage_inv [OF c(2)] by simp_all
    moreover have "?f a + 1 < 2 ^ 64" using room [of a] by auto
    moreover have "acl_room (removeUsage (acl_map st) ?b) (Suc k)" using c(4) by (simp add: acl_room_def)
    ultimately show ?thesis
      using acl_intern_step [of "removeUsage (acl_map st) ?b" ?f k acls m a] setacl(3,4) c(1,5)
      by (simp add: acl_ok_def acl_capacity_def)
  next
    case (same n')
    have "acl_users (container st') = acl_users ?c"
      unfolding same(2) using same(3) by (intro acl_users_same)
    moreover have "dom (container st') = dom ?c"
      using same(2,3) by (cases n'; cases "?c (d_path d)") auto
    ultimately show ?thesis
      using c same(1) by (simp add: acl_ok_def acl_capacity_def acl_room_def)
  qed
qed

subsection \<open>Child names\<close>

definition child_at :: "container \<Rightarrow> path \<Rightarrow> string \<Rightarrow> bool" where
  "child_at c p b \<longleftrightarrow> (\<exists>q. q \<noteq> p \<and> parentNodePath q = Some p \<and> getBaseNodeName q = b \<and> c q \<noteq> None)"

definition kids_ok :: "container \<Rightarrow> bool" where
  "kids_ok c \<longleftrightarrow>
     (\<forall>p. c p \<noteq> None \<longrightarrow> canonical p \<and> (\<forall>q. parentNodePath p = Some q \<longrightarrow> c q \<noteq> None)) \<and>
     (\<forall>p n. c p = Some n \<longrightarrow>
        distinct (n_children n) \<and> (\<forall>b. b \<in> set (n_children n) \<longleftrightarrow> child_at c p b))"

lemma kids_okD:
  assumes "kids_ok c"
  shows "c p \<noteq> None \<Longrightarrow> canonical p" "c p \<noteq> None \<Longrightarrow> parentNodePath p = Some q \<Longrightarrow> c q \<noteq> None"
    "c p = Some n \<Longrightarrow> distinct (n_children n)"
    "c p = Some n \<Longrightarrow> b \<in> set (n_children n) \<longleftrightarrow> child_at c p b"
  using assms unfolding kids_ok_def by blast+

lemma canonical_join:
  assumes "canonical q" and "parentNodePath q = Some p" and "q \<noteq> p"
  shows "fs_join p (getBaseNodeName q) = q"
proof -
  have "q \<noteq> ''/''" using assms(2,3) parent_self by force
  then show ?thesis using canonical_parent_base [OF assms(1)] assms(2) by auto
qed

lemma child_join:
  assumes "kids_ok c" and "child_at c p b"
  shows "c (fs_join p b) \<noteq> None"
proof -
  obtain q where q: "q \<noteq> p" "parentNodePath q = Some p" "getBaseNodeName q = b" "c q \<noteq> None"
    using assms(2) by (auto simp: child_at_def)
  then show ?thesis using canonical_join [OF kids_okD(1) [OF assms(1) q(4)] q(2,1)] by simp
qed

text \<open>A container that has the same names, but for one child of one node.\<close>

lemma kids_okI:
  assumes "\<And>p. c p \<noteq> None \<Longrightarrow> canonical p" and "\<And>p q. c p \<noteq> None \<Longrightarrow> parentNodePath p = Some q \<Longrightarrow> c q \<noteq> None"
    and "\<And>p n. c p = Some n \<Longrightarrow> distinct (n_children n)"
    and "\<And>p n b. c p = Some n \<Longrightarrow> b \<in> set (n_children n) \<longleftrightarrow> child_at c p b"
  shows "kids_ok c"
  using assms unfolding kids_ok_def by blast

lemma kids_ok_same:
  assumes k: "kids_ok c" and "map_option n_children v = map_option n_children (c p)"
  shows "kids_ok (c(p := v))"
proof -
  define c' where "c' = c(p := v)"
  have none: "c' q = None \<longleftrightarrow> c q = None" for q
    using assms(2) by (cases v; cases "c p") (auto simp: c'_def)
  have child: "child_at c' q b = child_at c q b" for q b unfolding child_at_def none ..
  have node: "\<exists>m. c q = Some m \<and> n_children m = n_children n" if "c' q = Some n" for q n
    using assms(2) that by (cases "q = p"; cases "c p") (auto simp: c'_def)
  have "kids_ok c'"
  proof (rule kids_okI)
    fix q n b
    assume "c' q = Some n"
    from node [OF this] show "distinct (n_children n)" "b \<in> set (n_children n) \<longleftrightarrow> child_at c' q b"
      using kids_okD(3,4) [OF k] child by metis+
  next
    fix q r
    assume "c' q \<noteq> None"
    then have q: "c q \<noteq> None" by (simp add: none)
    show "canonical q" by (rule kids_okD(1) [OF k q])
    assume "parentNodePath q = Some r"
    then show "c' r \<noteq> None" unfolding none by (rule kids_okD(2) [OF k q])
  qed
  then show ?thesis by (simp add: c'_def)
qed

lemma kids_ok_create:
  assumes k: "kids_ok c" and p: "parentNodePath p = Some q" "c q = Some parent" "c p = None" "canonical p"
    and n: "n_children n = []"
  shows "kids_ok (c(p \<mapsto> n, q \<mapsto> addChild (getBaseNodeName p) parent))"
proof -
  define c' where "c' = c(p \<mapsto> n, q \<mapsto> addChild (getBaseNodeName p) parent)"
  have ne: "q \<noteq> p" using p(2,3) by auto
  have none: "c' r = None \<longleftrightarrow> c r = None \<and> r \<noteq> p" for r using p(2) by (auto simp: c'_def)
  have orphan: "c r = None" if "parentNodePath r = Some p" for r using kids_okD(2) [OF k _ that] p(3) by blast
  have child: "child_at c' r b \<longleftrightarrow> child_at c r b \<or> r = q \<and> b = getBaseNodeName p" for r b
  proof
    assume "child_at c' r b"
    then obtain s where "s \<noteq> r" "parentNodePath s = Some r" "getBaseNodeName s = b" "c s \<noteq> None \<or> s = p"
      unfolding child_at_def none by blast
    then show "child_at c r b \<or> r = q \<and> b = getBaseNodeName p"
      using p(1) by (cases "s = p") (auto simp: child_at_def)
  next
    assume "child_at c r b \<or> r = q \<and> b = getBaseNodeName p"
    then show "child_at c' r b"
    proof
      assume "child_at c r b"
      then show ?thesis using p(3) unfolding child_at_def none by metis
    next
      assume "r = q \<and> b = getBaseNodeName p"
      then show ?thesis unfolding child_at_def none using p(1) ne by (intro exI [of _ p]) simp
    qed
  qed
  have node: "distinct (n_children m) \<and> (b \<in> set (n_children m) \<longleftrightarrow> child_at c' r b)" if m: "c' r = Some m" for r m b
  proof -
    have "r = q \<and> m = addChild (getBaseNodeName p) parent \<or> r \<noteq> q \<and> (r = p \<and> m = n \<or> c r = Some m)"
      using m by (simp add: c'_def split: if_splits)
    then consider "r = p" "m = n" | "r = q" "m = addChild (getBaseNodeName p) parent" | "r \<noteq> q" "c r = Some m"
      by blast
    then show ?thesis
    proof cases
      case 1
      have "\<not> child_at c p b" using orphan by (auto simp: child_at_def)
      with 1 show ?thesis using n ne by (simp add: child)
    next
      case 2
      then show ?thesis using kids_okD(3,4) [OF k p(2)] by (auto simp: addChild_def child)
    next
      case 3
      then show ?thesis using kids_okD(3,4) [OF k 3(2)] by (simp add: child)
    qed
  qed
  have "kids_ok c'"
  proof (rule kids_okI)
    fix r s
    assume r: "c' r \<noteq> None"
    then show "canonical r" using kids_okD(1) [OF k, of r] p(4) by (cases "r = p") (simp_all add: none)
    assume "parentNodePath r = Some s"
    then show "c' s \<noteq> None"
      using r p(1,2) kids_okD(2) [OF k, of r s] by (cases "r = p") (auto simp: none)
  qed (use node in blast)+
  then show ?thesis by (simp add: c'_def)
qed

lemma kids_ok_remove:
  assumes k: "kids_ok c" and p: "parentNodePath p = Some q" "c q = Some parent" "c p \<noteq> None"
    and leaf: "\<And>r. parentNodePath r = Some p \<Longrightarrow> c r = None"
  shows "kids_ok (c(q \<mapsto> removeChild (getBaseNodeName p) parent, p := None))"
proof -
  define c' where "c' = c(q \<mapsto> removeChild (getBaseNodeName p) parent, p := None)"
  have ne: "q \<noteq> p" using leaf [of p] p(1,3) by auto
  have none: "c' r = None \<longleftrightarrow> c r = None \<or> r = p" for r using p(2) by (auto simp: c'_def)
  have inj: "r = p" if "r \<noteq> q" "parentNodePath r = Some q" "getBaseNodeName r = getBaseNodeName p" "c r \<noteq> None" for r
    using canonical_join [OF kids_okD(1) [OF k that(4)] that(2,1)]
      canonical_join [OF kids_okD(1) [OF k p(3)] p(1)] that(3) ne by metis
  have child: "child_at c' r b \<longleftrightarrow> child_at c r b \<and> \<not> (r = q \<and> b = getBaseNodeName p)" for r b
  proof
    assume "child_at c' r b"
    then obtain s where s: "s \<noteq> r" "parentNodePath s = Some r" "getBaseNodeName s = b" "c s \<noteq> None" "s \<noteq> p"
      unfolding child_at_def none by blast
    then show "child_at c r b \<and> \<not> (r = q \<and> b = getBaseNodeName p)"
      using inj [of s] by (auto simp: child_at_def)
  next
    assume r: "child_at c r b \<and> \<not> (r = q \<and> b = getBaseNodeName p)"
    then obtain s where "s \<noteq> r" "parentNodePath s = Some r" "getBaseNodeName s = b" "c s \<noteq> None"
      unfolding child_at_def by blast
    moreover from this r p(1) have "s \<noteq> p" by auto
    ultimately show "child_at c' r b" unfolding child_at_def none by (intro exI [of _ s]) simp
  qed
  have node: "distinct (n_children m) \<and> (b \<in> set (n_children m) \<longleftrightarrow> child_at c' r b)" if m: "c' r = Some m" for r m b
  proof -
    have "r = q \<and> m = removeChild (getBaseNodeName p) parent \<or> r \<noteq> q \<and> c r = Some m"
      using m by (simp add: c'_def split: if_splits)
    then consider "r = q" "m = removeChild (getBaseNodeName p) parent" | "r \<noteq> q" "c r = Some m"
      by blast
    then show ?thesis
    proof cases
      case 1
      then show ?thesis using kids_okD(3,4) [OF k p(2)] by (auto simp: removeChild_def child)
    next
      case 2
      then show ?thesis using kids_okD(3,4) [OF k 2(2)] by (simp add: child)
    qed
  qed
  have "kids_ok c'"
  proof (rule kids_okI)
    fix r s
    assume r: "c' r \<noteq> None"
    then show "canonical r" using kids_okD(1) [OF k, of r] by (simp add: none)
    assume "parentNodePath r = Some s"
    then show "c' s \<noteq> None"
      using r leaf [of r] kids_okD(2) [OF k, of r s] by (auto simp: none)
  qed (use node in blast)+
  then show ?thesis by (simp add: c'_def)
qed

lemma commit_delta_kids:
  assumes "kids_ok (container st)" and "tree_step d (committed_tree st) = Some t"
    and "is_create_op (d_operation d) \<Longrightarrow> canonical (d_path d)" and "commit_delta d st = Inr (e, f, st')"
  shows "kids_ok (container st')"
  using assms(4)
proof (cases rule: commit_delta_contents)
  case (create q parent m a n stat acls new_data)
  then show ?thesis using assms(3) kids_ok_create [OF assms(1) create(2-4)] by (simp add: is_create_op_def)
next
  case (remove n q parent ver ow)
  have "container st r = None" if "parentNodePath r = Some (d_path d)" for r
    using assms(2) remove(1,2) that
    by (auto simp: tree_step_def op_step_def committed_tree_def core_tree_apply split: if_splits)
  then show ?thesis unfolding remove(6) using remove(2) by (intro kids_ok_remove [OF assms(1) remove(3,4)]) auto
next
  case (setacl n m a acls ver)
  then show ?thesis using kids_ok_same [OF assms(1), of "Some (n\<lparr>n_acl_id := a\<rparr>)" "d_path d"] by simp
next
  case (same n')
  then show ?thesis using kids_ok_same [OF assms(1)] by simp
qed

subsection \<open>A whole block\<close>

definition contents_ok :: "KeeperStorage \<Rightarrow> bool" where
  "contents_ok st \<longleftrightarrow> acl_ok st \<and> kids_ok (container st)"

definition canonical_creates :: "Delta list \<Rightarrow> bool" where
  "canonical_creates ds \<longleftrightarrow> (\<forall>d\<in>set ds. is_create_op (d_operation d) \<longrightarrow> canonical (d_path d))"

lemma canonical_creates_append [simp]:
  "canonical_creates (ds @ es) \<longleftrightarrow> canonical_creates ds \<and> canonical_creates es"
  by (auto simp: canonical_creates_def)

lemma block_end_stops:
  assumes "block_end z tail rest"
  shows "storage_commit_loop z tail s = Inr (ZOK, s)"
proof (cases tail)
  case (Cons d ds)
  then have "z < d_zxid d \<or> d_operation d = SubDeltaEnd" using assms by (auto simp: block_end_def)
  moreover have "d_operation d = SubDeltaEnd \<Longrightarrow> commit_delta d s = Inr (ZOK, True, s)"
    by (simp add: commit_delta_def)
  ultimately show ?thesis using Cons by (cases "z < d_zxid d") simp_all
qed simp

lemma commit_block_contents:
  assumes "contents_ok st" and "acl_capacity (length b + k) st" and "canonical_creates b"
    and "tree_run b (committed_tree st) = Some t" and "pending st = b @ tail" and "block_end z tail rest"
    and "run_block z b" and "storage_commit z st = Inr (e, st1)"
  shows "contents_ok st1 \<and> acl_capacity k st1"
proof -
  define Q where "Q i s \<longleftrightarrow> contents_ok s \<and> acl_capacity (i + k) s" for i s
  have "Q 0 st1"
  proof (rule storage_commit_keeps [where D = "set b" and Q = Q and tail = tail and ds = b and st = st])
    fix d s s' e f i t
    assume d: "d \<in> set b" and q: "Q (Suc i) s" and run: "tree_step d (committed_tree s) = Some t"
      and c: "commit_delta d s = Inr (e, f, s')"
    have "is_create_op (d_operation d) \<Longrightarrow> canonical (d_path d)"
      using assms(3) d by (simp add: canonical_creates_def)
    from commit_delta_kids [OF _ run this c] commit_delta_acl [OF _ _ c, of "i + k"] q
    show "Q i s'" by (simp add: Q_def contents_ok_def)
  next
    show "storage_commit_loop z tail s = Inr (ZOK, s)" for s by (rule block_end_stops [OF assms(6)])
    show "Q (length b) st" using assms(1,2) by (simp add: Q_def)
    show "tree_run b (committed_tree st) = Some t" by (rule assms(4))
    show "\<forall>d\<in>set b. plain_op (d_operation d) \<and> d_zxid d \<le> z" using assms(7) by (simp add: run_block_def)
    show "storage_commit_loop z (b @ tail) st = Inr (e, st1)" using assms(5,8) by (simp add: storage_commit_def)
  qed simp
  then show ?thesis by (simp add: Q_def)
qed

text \<open>What committing the deltas \<open>b\<close> keeps, with room for \<open>k\<close> more deltas.\<close>

definition keeps_contents :: "Delta list \<Rightarrow> KeeperStorage \<Rightarrow> KeeperStorage \<Rightarrow> bool" where
  "keeps_contents b st st' \<longleftrightarrow>
     (\<forall>k. contents_ok st \<and> acl_capacity (length b + k) st \<and> canonical_creates b \<longrightarrow>
        contents_ok st' \<and> acl_capacity k st')"

lemma contents_cong:
  assumes "container st' = container st" and "acl_map st' = acl_map st"
  shows "contents_ok st' = contents_ok st" "acl_capacity k st' = acl_capacity k st"
  using assms by (simp_all add: contents_ok_def acl_ok_def acl_capacity_def)

lemma acl_capacity_mono: "acl_capacity k st \<Longrightarrow> i \<le> k \<Longrightarrow> acl_capacity i st"
  by (simp add: acl_capacity_def acl_room_def)

lemma keeps_contentsD:
  assumes "keeps_contents b st st'" and "contents_ok st" and "acl_capacity (length b + k) st"
    and "canonical_creates b"
  shows "contents_ok st' \<and> acl_capacity k st'"
  using assms unfolding keeps_contents_def by blast

lemma keeps_contents_same:
  assumes "container st' = container st" and "acl_map st' = acl_map st"
  shows "keeps_contents b st st'"
  using acl_capacity_mono [of "length b + k" st k for k]
  by (auto simp: keeps_contents_def contents_cong [OF assms])

lemma keeps_contents_cong:
  assumes "container st' = container st" and "acl_map st' = acl_map st"
  shows "keeps_contents b st' = keeps_contents b st"
    and "keeps_contents b s st' = keeps_contents b s st"
  by (simp_all add: keeps_contents_def contents_cong [OF assms] fun_eq_iff)

lemma keeps_contents_trans:
  assumes "keeps_contents b1 st st1" and "keeps_contents b2 st1 st2"
  shows "keeps_contents (b1 @ b2) st st2"
  unfolding keeps_contents_def
proof (intro allI impI)
  fix k
  assume a: "contents_ok st \<and> acl_capacity (length (b1 @ b2) + k) st \<and> canonical_creates (b1 @ b2)"
  then have "contents_ok st1 \<and> acl_capacity (length b2 + k) st1"
    using keeps_contentsD [OF assms(1), of "length b2 + k"] by (simp add: add.assoc)
  with a show "contents_ok st2 \<and> acl_capacity k st2" using keeps_contentsD [OF assms(2), of k] by simp
qed

lemma keeps_contents_more:
  assumes "keeps_contents (b1 @ b2) st st'"
  shows "keeps_contents (b1 @ d # b2) st st'"
  unfolding keeps_contents_def
proof (intro allI impI)
  fix k
  assume a: "contents_ok st \<and> acl_capacity (length (b1 @ d # b2) + k) st \<and> canonical_creates (b1 @ d # b2)"
  then have "acl_capacity (length (b1 @ b2) + k) st" "canonical_creates (b1 @ b2)"
    using acl_capacity_mono [of "length (b1 @ d # b2) + k" st "length (b1 @ b2) + k"]
    by (simp_all add: canonical_creates_def)
  with a show "contents_ok st' \<and> acl_capacity k st'" using keeps_contentsD [OF assms] by blast
qed

lemma keeps_contents_block:
  assumes "tree_run b (committed_tree st) = Some t" and "pending st = b @ tail" and "block_end z tail rest"
    and "run_block z b" and "storage_commit z st = Inr (e, st1)"
  shows "keeps_contents b st st1"
  using commit_block_contents [OF _ _ _ assms] by (auto simp: keeps_contents_def)

end
