(* ===== verification/KeeperCommit.thy ===== *)
theory KeeperCommit
  imports KeeperContents
begin

text \<open>
  Committing a request: \<open>processRequest\<close> applies the deltas of the first pending transaction to the
  container and forgets them; what clients see through the uncommitted state does not change. The
  first part is about the state, the second one shows that the reply exists.
\<close>

subsection \<open>Frames\<close>

text \<open>What the bookkeeping of watches, sessions and authentications changes.\<close>

definition side :: "KeeperStorage \<Rightarrow> KeeperStorage \<Rightarrow> bool" where
  "side st st' \<longleftrightarrow>
     st' = st\<lparr>watches := watches st', list_watches := list_watches st',
       sessions_and_watchers := sessions_and_watchers st', session_expiry_queue := session_expiry_queue st',
       session_and_timeout := session_and_timeout st', session_and_auth := session_and_auth st'\<rparr>"

lemma sideI:
  "st' = st\<lparr>watches := a, list_watches := b, sessions_and_watchers := c, session_expiry_queue := d,
     session_and_timeout := e, session_and_auth := f\<rparr> \<Longrightarrow> side st st'"
  by (simp add: side_def)

lemma sideE:
  assumes "side st st'"
  obtains a b c d e f where
    "st' = st\<lparr>watches := a, list_watches := b, sessions_and_watchers := c, session_expiry_queue := d,
       session_and_timeout := e, session_and_auth := f\<rparr>"
  using assms that unfolding side_def by blast

lemma side_refl: "side st st"
  by (simp add: side_def)

lemma side_trans: "side st st1 \<Longrightarrow> side st1 st2 \<Longrightarrow> side st st2"
  by (elim sideE) (rule sideI, simp)

lemma side_frame:
  assumes "side st st'"
  shows "container st' = container st" "uncommitted_state st' = uncommitted_state st"
    "ephemerals st' = ephemerals st" "uncommitted_transactions st' = uncommitted_transactions st"
    "keeper_context st' = keeper_context st" "storage_zxid st' = storage_zxid st"
    "nodes_digest st' = nodes_digest st" "initialized st' = initialized st"
    "old_snapshot_zxid st' = old_snapshot_zxid st" "acl_map st' = acl_map st"
    "committed_tree st' = committed_tree st" "view st' = view st" "pending_inv st' = pending_inv st"
    "digest_add st' w = digest_add st w"
  using assms by (elim sideE; simp add: committed_tree_def view_def pending_inv_def digest_add_def)+

text \<open>What the processing of watches changes.\<close>

definition watching :: "KeeperStorage \<Rightarrow> KeeperStorage \<Rightarrow> bool" where
  "watching st st' \<longleftrightarrow>
     st' = st\<lparr>watches := watches st', list_watches := list_watches st',
       sessions_and_watchers := sessions_and_watchers st'\<rparr>"

lemma watchingE:
  assumes "watching st st'"
  obtains a b c where "st' = st\<lparr>watches := a, list_watches := b, sessions_and_watchers := c\<rparr>"
  using assms that unfolding watching_def by blast

lemma watching_side: "watching st st' \<Longrightarrow> side st st'"
  by (elim watchingE) (simp add: side_def)

lemma watching_refl [simp]: "watching st st"
  by (simp add: watching_def)

lemma watching_trans: "watching st st1 \<Longrightarrow> watching st1 st2 \<Longrightarrow> watching st st2"
  by (elim watchingE) (simp add: watching_def)

lemma watching_frame:
  assumes "watching st st'"
  shows "session_expiry_queue st' = session_expiry_queue st" "session_and_timeout st' = session_and_timeout st"
    "session_id_counter st' = session_id_counter st" "storage_zxid st' = storage_zxid st"
    "uncommitted_state st' = uncommitted_state st"
  using assms by (elim watchingE; simp)+

text \<open>The state after the deltas \<open>b\<close> at the front of the pending ones are committed.\<close>

definition same_control :: "KeeperStorage \<Rightarrow> KeeperStorage \<Rightarrow> bool" where
  "same_control st st' \<longleftrightarrow>
     ephemerals st' = ephemerals st \<and> uncommitted_transactions st' = uncommitted_transactions st \<and>
     keeper_context st' = keeper_context st \<and> storage_zxid st' = storage_zxid st \<and>
     initialized st' = initialized st \<and> old_snapshot_zxid st' = old_snapshot_zxid st"

definition advanced :: "KeeperStorage \<Rightarrow> Delta list \<Rightarrow> Delta list \<Rightarrow> KeeperStorage \<Rightarrow> bool" where
  "advanced st b rest st' \<longleftrightarrow>
     pending_inv st' \<and> view st' = view st \<and> pending st' = rest \<and> same_control st st' \<and>
     tree_run b (committed_tree st) = Some (committed_tree st') \<and>
     nodes_digest st' = nodes_digest st +
       digest_add st (tree_digest (committed_tree st') - tree_digest (committed_tree st)) \<and>
     keeps_contents b st st'"

lemma advanced_same:
  "pending_inv st \<Longrightarrow> pending st = rest \<Longrightarrow> advanced st [] rest st"
  by (simp add: advanced_def same_control_def keeps_contents_same)

lemma advanced_side:
  "advanced st b rest st1 \<Longrightarrow> side st1 st2 \<Longrightarrow> advanced st b rest st2"
  "side st st1 \<Longrightarrow> advanced st1 b rest st2 \<Longrightarrow> advanced st b rest st2"
  by (auto simp: advanced_def same_control_def side_frame keeps_contents_cong [OF side_frame(1,10)])

lemma advanced_trans:
  assumes "advanced st b1 rest1 st1" and "advanced st1 b2 rest2 st2"
  shows "advanced st (b1 @ b2) rest2 st2"
  using assms by (auto simp: advanced_def same_control_def digest_add_def intro: keeps_contents_trans)

lemma same_frame_control: "same_frame st st' \<Longrightarrow> same_control st st'"
  by (simp add: same_frame_def same_control_def)

subsection \<open>One block\<close>

lemma storage_commit_empty:
  assumes "pending st = tail" and "block_end z tail rest"
  shows "storage_commit z st = Inr (ZOK, st)"
proof (cases tail)
  case (Cons d ds)
  then have "z < d_zxid d \<or> d_operation d = SubDeltaEnd" using assms(2) by (auto simp: block_end_def)
  moreover have "d_operation d = SubDeltaEnd \<Longrightarrow> commit_delta d st = Inr (ZOK, True, st)"
    by (simp add: commit_delta_def)
  ultimately show ?thesis
    using Cons assms(1) by (cases "z < d_zxid d") (simp_all add: storage_commit_def)
qed (simp add: storage_commit_def assms(1))

lemma commit_run_block:
  assumes "pending_inv st" and "finite (dom (committed_tree st))" and "pending st = b @ tail"
    and "block_end z tail rest" and "run_block z b"
  obtains st1 st2 where "storage_commit z st = Inr (ZOK, st1)"
    and "commit_uncommitted z st1 = Inr st2" and "advanced st b rest st2"
    and "container st2 = container st1" and "acl_map st2 = acl_map st1" and "same_frame st st1"
proof -
  obtain st1 us where c: "storage_commit z st = Inr (ZOK, st1)"
      "commit_uncommitted z st1 = Inr (st1\<lparr>uncommitted_state := us\<rparr>)" "us_deltas us = rest"
      "pending_inv (st1\<lparr>uncommitted_state := us\<rparr>)" "view (st1\<lparr>uncommitted_state := us\<rparr>) = view st"
      "tree_run b (committed_tree st) = Some (committed_tree st1)" "same_frame st st1"
      "nodes_digest st1 = nodes_digest st +
        digest_add st (tree_digest (committed_tree st1) - tree_digest (committed_tree st))"
    using commit_block [OF assms(1-4)] assms(5)
    unfolding run_block_def by metis
  have "keeps_contents b st (st1\<lparr>uncommitted_state := us\<rparr>)"
    using keeps_contents_block [OF c(6) assms(3-5) c(1)]
    by (simp add: keeps_contents_cong(2) [of "st1\<lparr>uncommitted_state := us\<rparr>" st1])
  with c have "advanced st b rest (st1\<lparr>uncommitted_state := us\<rparr>)"
    by (simp add: advanced_def same_control_def same_frame_def)
  with c(1,2,7) show ?thesis using that by simp
qed

lemma commit_error:
  assumes "pending_inv st" and "pending st = b @ tail" and "block_end z tail rest" and "error_block z b"
  obtains e st2 where "e \<noteq> ZOK" and "storage_commit z st = Inr (e, st)"
    and "commit_uncommitted z st = Inr st2" and "advanced st b rest st2"
proof -
  obtain e where e: "e \<noteq> ZOK" "b = [mkError z e]" using assms(4) by (auto simp: error_block_def)
  obtain us where c: "storage_commit z st = Inr (e, st)"
      "commit_uncommitted z st = Inr (st\<lparr>uncommitted_state := us\<rparr>)" "us_deltas us = rest"
      "pending_inv (st\<lparr>uncommitted_state := us\<rparr>)" "view (st\<lparr>uncommitted_state := us\<rparr>) = view st"
    using commit_error_block [OF assms(1) _ assms(3), of "mkError z e" e] assms(2) e by auto
  have "advanced st b rest (st\<lparr>uncommitted_state := us\<rparr>)"
    using c e(2) by (simp add: advanced_def same_control_def tree_step_def op_step_def keeps_contents_same)
  with e(1) c(1,2) show ?thesis by (rule that)
qed

lemma commit_again:
  assumes "pending_inv st" and "finite (dom (committed_tree st))" and "\<forall>d\<in>set (pending st). z < d_zxid d"
  obtains st2 where "commit_uncommitted z st = Inr st2" and "advanced st [] (pending st) st2"
proof -
  have be: "block_end z (pending st) (pending st)" using assms(3) by (simp add: block_end_def)
  obtain st1 st2 where c: "storage_commit z st = Inr (ZOK, st1)" "commit_uncommitted z st1 = Inr st2"
      "advanced st [] (pending st) st2"
    by (rule commit_run_block [OF assms(1,2) _ be, of "[]"]) (simp_all add: run_block_def)
  moreover have "st1 = st" using c(1) storage_commit_empty [OF refl be] by simp
  ultimately show ?thesis using that by simp
qed

subsection \<open>Single requests\<close>

text \<open>A processor changes the storage by \<open>KeeperStorage::commit\<close> or not at all.\<close>

lemma commit_then_state:
  assumes "commit_then False st z b0 k = Inr (resp, st1)"
    and "\<And>st' r st''. k st' = Inr (r, st'') \<Longrightarrow> st'' = st'"
  shows "\<exists>e. storage_commit z st = Inr (e, st1)"
proof -
  obtain e st' where "storage_commit z st = Inr (e, st')"
      "(if e \<noteq> ZOK then Inr (with_error e (fresh_response b0), st') else k st') = Inr (resp, st1)"
    using assms(1) by (auto simp: commit_then_def)
  then show ?thesis using assms(2) [of st' resp st1] by (cases "e = ZOK") auto
qed

lemma read_error_state: "read_error l st b e = Inr (r, st') \<Longrightarrow> st' = st"
  by (simp add: read_error_def split: if_splits)

lemma processImpl_state:
  "get_processImpl False st z p = Inr (resp, st1) \<Longrightarrow> \<exists>e. storage_commit z st = Inr (e, st1)"
  "exists_processImpl False st z p = Inr (resp, st1) \<Longrightarrow> \<exists>e. storage_commit z st = Inr (e, st1)"
  "list_processImpl False st z mk p ty = Inr (resp, st1) \<Longrightarrow> \<exists>e. storage_commit z st = Inr (e, st1)"
  "check_processImpl False st z ck = Inr (resp, st1) \<Longrightarrow> \<exists>e. storage_commit z st = Inr (e, st1)"
  "getacl_processImpl False st z p = Inr (resp, st1) \<Longrightarrow> \<exists>e. storage_commit z st = Inr (e, st1)"
  "stat_process st z mk2 p = Inr (resp, st1) \<Longrightarrow> \<exists>e. storage_commit z st = Inr (e, st1)"
  unfolding get_processImpl_def exists_processImpl_def list_processImpl_def check_processImpl_def
    getacl_processImpl_def stat_process_def Let_def
  by (erule commit_then_state; auto split: option.splits if_splits dest: read_error_state)+

lemma process_simple_state:
  assumes "process_simple st z req = Inr (resp, st1)"
  shows "(\<exists>e. storage_commit z st = Inr (e, st1)) \<or>
    st1 = st \<and> (silent (body req) \<or> (\<exists>d ds. pending st = d # ds \<and> d_zxid d \<noteq> z))"
proof (cases "body req")
  case (CreateRequest c)
  then show ?thesis
    using assms by (auto simp: process_simple_def read_process_def create_process_def
        split: list.splits if_splits option.splits)
qed (use assms in \<open>auto simp: process_simple_def read_process_def remove_process_def auth_process_def
    dest: processImpl_state\<close>)

lemma process_block:
  assumes "pending_inv st" and "finite (dom (committed_tree st))" and "pending st = b @ tail"
    and "block_end z tail rest"
    and "run_block z b \<and> (silent (body req) \<longrightarrow> b = []) \<or> error_block z b"
    and "process_simple st z req = Inr (resp, st1)"
  obtains st2 where "commit_uncommitted z st1 = Inr st2" and "advanced st b rest st2"
proof (cases "error_block z b")
  case True
  then obtain e st2 where c: "storage_commit z st = Inr (e, st)" "commit_uncommitted z st = Inr st2"
      "advanced st b rest st2"
    using commit_error [OF assms(1,3,4)] by blast
  then have "st1 = st" using process_simple_state [OF assms(6)] by auto
  with c that show ?thesis by blast
next
  case False
  then have run: "run_block z b" "silent (body req) \<Longrightarrow> b = []" using assms(5) by blast+
  obtain s1 st2 where c: "storage_commit z st = Inr (ZOK, s1)" "commit_uncommitted z s1 = Inr st2"
      "advanced st b rest st2"
    using commit_run_block [OF assms(1-4) run(1)] by blast
  have "st1 = s1"
  proof (cases "\<exists>e. storage_commit z st = Inr (e, st1)")
    case False
    then have st1: "st1 = st" "silent (body req) \<or> (\<exists>d ds. pending st = d # ds \<and> d_zxid d \<noteq> z)"
      using process_simple_state [OF assms(6)] by blast+
    then have "b = []" using run assms(3) by (cases b) (auto simp: run_block_def)
    then show ?thesis using storage_commit_empty [OF _ assms(4)] assms(3) c(1) st1(1) by simp
  qed (use c(1) in auto)
  with c(2,3) that show ?thesis by blast
qed

lemma block_for_shape:
  assumes "block_for z (body req) b t" and "body req \<noteq> CloseRequest"
  shows "run_block z b \<and> (silent (body req) \<longrightarrow> b = []) \<or> error_block z b"
  using assms by (auto simp: block_for_def)

lemma advanced_finite:
  assumes "advanced st b rest st'" and "finite (dom (committed_tree st))"
  shows "finite (dom (committed_tree st'))"
  using assms tree_run_finite by (auto simp: advanced_def)

subsection \<open>Multi requests\<close>

lemma process_simple_close: "body req = CloseRequest \<Longrightarrow> process_simple st z req = Inl Logical_error"
  by (simp add: process_simple_def read_process_def)

lemma multi_process_blocks:
  "multi_process st z rs = Inr (resps, st') \<Longrightarrow> pending_inv st \<Longrightarrow> finite (dom (committed_tree st)) \<Longrightarrow>
   pending st = ds @ rest \<Longrightarrow> \<forall>d\<in>set rest. z < d_zxid d \<Longrightarrow> sub_blocks z rs ds (committed_tree st) \<Longrightarrow>
   advanced st ds rest st'"
proof (induction rs arbitrary: st ds resps)
  case Nil
  then show ?case by (simp add: advanced_same)
next
  case (Cons r rs)
  obtain resp st1 st2 resps' where p: "process_simple st z r = Inr (resp, st1)"
      "commit_uncommitted z st1 = Inr st2" "multi_process st2 z rs = Inr (resps', st')"
    using Cons.prems(1) by auto
  obtain b ds' t1 where b: "ds = b @ mkDelta [] z SubDeltaEnd # ds'" "tree_run b (committed_tree st) = Some t1"
      "block_for z (body r) b t1" "sub_blocks z rs ds' t1"
    using Cons.prems(6) by auto
  have close: "body r \<noteq> CloseRequest" using p(1) process_simple_close by fastforce
  have be: "block_end z (mkDelta [] z SubDeltaEnd # ds' @ rest) (ds' @ rest)" by (simp add: block_end_def)
  have pend: "pending st = b @ mkDelta [] z SubDeltaEnd # ds' @ rest" using Cons.prems(4) b(1) by simp
  have adv: "advanced st b (ds' @ rest) st2"
    using process_block [OF Cons.prems(2,3) pend be block_for_shape [OF b(3) close] p(1)] p(2) by auto
  have "committed_tree st2 = t1" using adv b(2) by (simp add: advanced_def)
  then have "advanced st2 ds' rest st'"
    using adv b(4) Cons.prems(5) advanced_finite [OF adv Cons.prems(3)]
    by (intro Cons.IH [OF p(3)]) (simp_all add: advanced_def)
  from advanced_trans [OF adv this] show ?case
    using b(1) keeps_contents_more
    by (simp add: advanced_def tree_step_def op_step_def bind_eq_Some_conv)
qed

lemma multi_process_nothing:
  "multi_process st z rs = Inr (resps, st') \<Longrightarrow> pending_inv st \<Longrightarrow> finite (dom (committed_tree st)) \<Longrightarrow>
   \<forall>d\<in>set (pending st). z < d_zxid d \<Longrightarrow> advanced st [] (pending st) st'"
proof (induction rs arbitrary: st resps)
  case Nil
  then show ?case by (simp add: advanced_same)
next
  case (Cons r rs)
  obtain resp st1 st2 resps' where p: "process_simple st z r = Inr (resp, st1)"
      "commit_uncommitted z st1 = Inr st2" "multi_process st2 z rs = Inr (resps', st')"
    using Cons.prems(1) by auto
  have be: "block_end z (pending st) (pending st)" using Cons.prems(4) by (simp add: block_end_def)
  have adv: "advanced st [] (pending st) st2"
    using process_block [OF Cons.prems(2,3) _ be _ p(1), of "[]"] p(2) by (auto simp: run_block_def)
  then have "advanced st2 [] (pending st2) st'"
    using Cons.prems(4) advanced_finite [OF adv Cons.prems(3)]
    by (intro Cons.IH [OF p(3)]) (simp_all add: advanced_def)
  from advanced_trans [OF adv this] show ?case using adv by (simp add: advanced_def)
qed

lemma multi_process_error:
  assumes "multi_process st z rs = Inr (resps, st')" and "pending_inv st"
    and "finite (dom (committed_tree st))" and "pending st = b @ rest" and "\<forall>d\<in>set rest. z < d_zxid d"
    and "error_block z b" and "rs \<noteq> []"
  shows "advanced st b rest st'"
proof -
  obtain r rs' where rs: "rs = r # rs'" using assms(7) by (cases rs) auto
  obtain resp st1 st2 resps' where p: "process_simple st z r = Inr (resp, st1)"
      "commit_uncommitted z st1 = Inr st2" "multi_process st2 z rs' = Inr (resps', st')"
    using assms(1) rs by auto
  have be: "block_end z rest rest" using assms(5) by (simp add: block_end_def)
  have adv: "advanced st b rest st2"
    using process_block [OF assms(2-4) be _ p(1)] p(2) assms(6) by auto
  then have "advanced st2 [] rest st'"
    using multi_process_nothing [OF p(3)] advanced_finite [OF adv assms(3)] assms(5)
    by (simp add: advanced_def)
  from advanced_trans [OF adv this] show ?thesis by simp
qed

lemma commit_failed_multi:
  assumes "pending_inv st" and "pending st = ds @ rest" and "\<forall>d\<in>set rest. z < d_zxid d"
    and "failed_multi z n ds"
  obtains st2 where "commit_uncommitted z st = Inr st2" and "advanced st ds rest st2"
proof -
  obtain errs where ds: "ds = [mkDelta [] z (FailedMultiDelta errs)]" using assms(4) by (auto simp: failed_multi_def)
  have nop: "tree_run (ds @ es) t = tree_run es t" for es t by (simp add: ds tree_step_def op_step_def)
  have inv: "index_inv (uncommitted_state st)" "cache_inv (container st) (uncommitted_state st)"
      "sorted (map d_zxid (pending st))" "tree_run rest (committed_tree st) \<noteq> None"
    using assms(1,2) nop by (simp_all add: pending_inv_def)
  obtain us where us: "commit_uncommitted z st = Inr (st\<lparr>uncommitted_state := us\<rparr>)" "us_deltas us = rest"
      "pending_inv (st\<lparr>uncommitted_state := us\<rparr>)"
    using commit_uncommitted_block [OF inv(1-3) assms(2), of z rest] inv(4) assms(3) nop [of "[]"]
    by (auto simp: block_end_def ds committed_tree_def)
  have "view (st\<lparr>uncommitted_state := us\<rparr>) = view st"
    using view_run [OF assms(1)] view_run [OF us(3)] us(2) assms(2) nop by simp
  then have "advanced st ds rest (st\<lparr>uncommitted_state := us\<rparr>)"
    using us nop [of "[]"] by (simp add: advanced_def same_control_def keeps_contents_same)
  with us(1) show ?thesis by (rule that)
qed

text \<open>The second \<open>uncommitted_state.commit\<close>, of \<open>processRequest\<close>, finds nothing left.\<close>

lemma advanced_commit_again:
  assumes "advanced st ds rest st1" and "finite (dom (committed_tree st))" and "\<forall>d\<in>set rest. z < d_zxid d"
  shows "\<exists>st2. commit_uncommitted z st1 = Inr st2 \<and> advanced st ds rest st2"
proof -
  have "pending st1 = rest" "pending_inv st1" using assms(1) by (simp_all add: advanced_def)
  with commit_again [OF _ advanced_finite [OF assms(1,2)]] assms(3) obtain st2 where
    "commit_uncommitted z st1 = Inr st2" "advanced st1 [] rest st2" by metis
  with advanced_trans [OF assms(1)] show ?thesis by force
qed

lemma sub_blocks_hd:
  assumes "sub_blocks z rs ds t" and "ds = d # ds'"
  shows "\<not> is_failed_multi (d_operation d)"
proof -
  obtain r rs' where "rs = r # rs'" using assms by (cases rs) auto
  then obtain b rest t1 where b: "d # ds' = b @ mkDelta [] z SubDeltaEnd # rest" "block_for z (body r) b t1"
    using assms by auto
  show ?thesis
  proof (cases b)
    case Nil
    with b(1) show ?thesis by (simp add: is_failed_multi_def)
  next
    case (Cons x xs)
    with b have "plain_op (d_operation d) \<or> (\<exists>e. d_operation d = ErrorDelta e)"
      by (auto simp: block_for_def run_block_def error_block_def)
    then show ?thesis using plain_op_simps(3) by (auto simp: is_failed_multi_def)
  qed
qed

lemma process_multi_ok:
  assumes inv: "pending_inv st" "finite (dom (committed_tree st))"
    and ds: "pending st = ds @ rest" "\<forall>d\<in>set rest. z < d_zxid d"
    and b: "body req = MultiRequest ty rs" and tx: "tx_ok z req ds (committed_tree st) t1"
    and p: "process st z req = Inr (resp, st1)"
  shows "\<exists>st2. commit_uncommitted z st1 = Inr st2 \<and> advanced st ds rest st2"
proof -
  obtain d ds0 where d: "pending st = d # ds0" using p b by (cases "pending st") (auto simp: process_def)
  have multi: "\<exists>resps. multi_process st z rs = Inr (resps, st1)" if "\<not> is_failed_multi (d_operation d)"
    using p b d that by (auto simp: process_def is_failed_multi_def split: Operation.splits)
  have undone: "commit_uncommitted z st = Inr st1" if "is_failed_multi (d_operation d)"
    using p b d that by (auto simp: process_def is_failed_multi_def split: Operation.splits if_splits)
  have be: "block_end z rest rest" using ds(2) by (simp add: block_end_def)
  consider (blocks) "sub_blocks z rs ds (committed_tree st)" | (failed) "failed_multi z (length rs) ds"
    | (error) "error_block z ds" using tx b by (auto simp: tx_ok_def error_block_def)
  then show ?thesis
  proof cases
    case blocks
    show ?thesis
    proof (cases "is_failed_multi (d_operation d)")
      case True
      then have "ds = []" using sub_blocks_hd [OF blocks] ds(1) d by (cases ds) auto
      moreover have "advanced st [] (pending st) st1"
        using commit_again [OF inv] ds undone [OF True] \<open>ds = []\<close> by fastforce
      ultimately show ?thesis using advanced_commit_again inv(2) ds by fastforce
    next
      case False
      with multi have "advanced st ds rest st1" using multi_process_blocks inv ds blocks by blast
      then show ?thesis using advanced_commit_again inv(2) ds(2) by blast
    qed
  next
    case failed
    then have "is_failed_multi (d_operation d)" using ds(1) d by (auto simp: failed_multi_def is_failed_multi_def)
    from undone [OF this] have "advanced st ds rest st1" using commit_failed_multi [OF inv(1) ds failed] by force
    then show ?thesis using advanced_commit_again inv(2) ds(2) by blast
  next
    case error
    then have "\<not> is_failed_multi (d_operation d)" using ds(1) d by (auto simp: error_block_def is_failed_multi_def)
    from multi [OF this] obtain resps where m: "multi_process st z rs = Inr (resps, st1)" by blast
    show ?thesis
    proof (cases "rs = []")
      case True
      then have "st1 = st" using m by simp
      then show ?thesis using commit_error [OF inv(1) ds(1) be error] by blast
    next
      case False
      then have "advanced st ds rest st1" using multi_process_error [OF m inv ds error] by blast
      then show ?thesis using advanced_commit_again inv(2) ds(2) by blast
    qed
  qed
qed

subsection \<open>The whole request\<close>

lemma process_ok:
  assumes inv: "pending_inv st" "finite (dom (committed_tree st))"
    and ds: "pending st = ds @ rest" "\<forall>d\<in>set rest. z < d_zxid d"
    and "body req \<noteq> CloseRequest" and tx: "tx_ok z req ds (committed_tree st) t1"
    and p: "process st z req = Inr (resp, st1)"
  shows "\<exists>st2. commit_uncommitted z st1 = Inr st2 \<and> advanced st ds rest st2"
proof (cases "\<exists>ty rs. body req = MultiRequest ty rs")
  case True
  then show ?thesis using process_multi_ok [OF inv ds _ tx p] by blast
next
  case False
  then have "block_for z (body req) ds t1" "process_simple st z req = Inr (resp, st1)"
    using tx p by (cases "body req"; auto simp: tx_ok_def process_def)+
  moreover have "block_end z rest rest" using ds(2) by (simp add: block_end_def)
  ultimately show ?thesis
    using process_block [OF inv ds(1) _ block_for_shape] assms(5) by metis
qed

lemma register_watch_watching: "watching st (register_watch req sid e st)"
  unfolding register_watch_def add_watch_def Let_def
  by (auto simp: watching_def)

lemma watches_watching:
  assumes "rbind (processWatchesImpl p (watches st) (list_watches st) ev)
      (\<lambda>(rs, ws, lws). Inr (rs, st\<lparr>watches := ws, list_watches := lws\<rparr>)) = Inr (rs, st')"
  shows "watching st st'"
  using assms by (auto simp: watching_def)

lemma processWatches_simple_watching: "processWatches_simple st req = Inr (rs, st') \<Longrightarrow> watching st st'"
  unfolding processWatches_simple_def Let_def
  by (cases "body req") (auto simp: watching_def)

lemma multi_processWatches_watching: "multi_processWatches st reqs = Inr (rs, st') \<Longrightarrow> watching st st'"
proof (induction reqs arbitrary: st rs)
  case (Cons r reqs)
  then obtain rs1 st1 rs2 where "processWatches_simple st r = Inr (rs1, st1)"
      "multi_processWatches st1 reqs = Inr (rs2, st')" by auto
  with Cons.IH show ?case using processWatches_simple_watching watching_trans by blast
qed (simp)

lemma processWatches_watching: "processWatches st req = Inr (rs, st') \<Longrightarrow> watching st st'"
  by (cases "body req")
    (auto simp: processWatches_def dest: processWatches_simple_watching multi_processWatches_watching)

lemma process_normal_ok:
  assumes inv: "pending_inv st" "finite (dom (committed_tree st))"
    and ds: "pending st = ds @ rest" "\<forall>d\<in>set rest. storage_zxid st < d_zxid d"
    and "body req \<noteq> CloseRequest" and tx: "tx_ok (storage_zxid st) req ds (committed_tree st) t1"
    and p: "process_normal req sid check_acl False st = Inr (out, st')"
  shows "advanced st ds rest st'"
proof -
  obtain resp st1 st2 where 1: "process st (storage_zxid st) req = Inr (resp, st1)"
      "commit_uncommitted (storage_zxid st) st1 = Inr st2"
    and w: "\<exists>ws. (if resp_error resp = ZOK
        then processWatches (register_watch req sid (resp_error resp) st2) req
        else Inr ([], register_watch req sid (resp_error resp) st2)) = Inr (ws, st')"
    using p by (auto simp: process_normal_def Let_def)
  have "advanced st ds rest st2" using process_ok [OF inv ds assms(5) tx 1(1)] 1(2) by auto
  moreover have "side (register_watch req sid (resp_error resp) st2) st'"
    using w processWatches_watching watching_side side_refl by (auto split: if_splits)
  ultimately show ?thesis using watching_side [OF register_watch_watching] side_trans advanced_side(1) by blast
qed

lemma close_watches_watching: "close_watches z ds st = Inr (rs, st') \<Longrightarrow> watching st st'"
proof (induction ds arbitrary: st rs)
  case (Cons d ds)
  show ?case
  proof (cases "z < d_zxid d")
    case False
    then obtain rs1 st1 rs2 where 1: "(case d_operation d of
             RemoveNodeDelta ver ow \<Rightarrow>
               rbind (processWatchesImpl (d_path d) (watches st) (list_watches st) DELETED)
                 (\<lambda>(rs, ws, lws). Inr (rs, st\<lparr>watches := ws, list_watches := lws\<rparr>))
           | _ \<Rightarrow> Inr ([], st)) = Inr (rs1, st1)" "close_watches z ds st1 = Inr (rs2, st')"
      using Cons.prems by auto
    have "watching st st1" using 1(1) watches_watching by (cases "d_operation d") (auto simp: watching_refl)
    then show ?thesis using Cons.IH [OF 1(2)] by (rule watching_trans)
  qed (use Cons.prems watching_refl in auto)
qed (simp add: watching_refl)

lemma clearDeadWatches_watching: "watching st (clearDeadWatches sid st)"
  by (auto simp: clearDeadWatches_def watching_def split: option.splits)

lemma commit_uncommitted_side:
  assumes "side st st1" and "commit_uncommitted z st = Inr st2"
  shows "\<exists>st3. commit_uncommitted z st1 = Inr st3 \<and> side st2 st3"
  using assms by (elim sideE) (auto simp: commit_uncommitted_def side_def)

lemma process_close_ok:
  assumes inv: "pending_inv st" "finite (dom (committed_tree st))"
    and ds: "pending st = ds @ rest" "\<forall>d\<in>set rest. storage_zxid st < d_zxid d"
    and run: "run_block (storage_zxid st) ds"
    and p: "process_close req sid st = Inr (out, st')"
  shows "advanced st ds rest st'"
proof -
  let ?z = "storage_zxid st"
  have be: "block_end ?z rest rest" using ds(2) by (simp add: block_end_def)
  obtain st1 st2 where c: "storage_commit ?z st = Inr (ZOK, st1)" "commit_uncommitted ?z st1 = Inr st2"
      "advanced st ds rest st2"
    using commit_run_block [OF inv ds(1) be run] by blast
  obtain rs st1' st3 q b where 1: "close_watches ?z (pending st1) st1 = Inr (rs, st1')"
      "commit_uncommitted ?z st1' = Inr st3"
      "st' = (clearDeadWatches sid st3)\<lparr>session_and_auth := (session_and_auth (clearDeadWatches sid st3))(sid := None),
         session_expiry_queue := q,
         session_and_timeout := (session_and_timeout (clearDeadWatches sid st3))(sid := None)\<rparr>"
    using p c(1) by (auto simp: process_close_def Let_def)
  have "side st2 st3" using commit_uncommitted_side [OF watching_side [OF close_watches_watching [OF 1(1)]] c(2)] 1(2) by auto
  moreover have "side (clearDeadWatches sid st3) st'" unfolding 1(3) by (simp add: side_def)
  ultimately show ?thesis
    using c(3) watching_side [OF clearDeadWatches_watching] side_trans advanced_side(1) by blast
qed

lemma txs_ok_disabled: "txs_ok False off xs is z t t' = txs_ok False off' xs is z t t'"
  by (induction xs arbitrary: "is" z t) (simp_all add: tx_step_def)

lemma keeper_inv_commit:
  assumes inv: "keeper_inv st (x # xs)" and i: "uncommitted_transactions st = i # is"
    and adv: "advanced (st\<lparr>storage_zxid := ti_zxid i, uncommitted_transactions := is\<rparr>)
      (tx_deltas x) (concat (map tx_deltas xs)) st'"
  shows "keeper_inv st' xs" and "view st' = view st"
    and "tree_run (tx_deltas x) (committed_tree st) = Some (committed_tree st')"
    and "getNodesDigest st' True = ti_nodes_digest i"
proof -
  let ?en = "digestEnabled (keeper_context st)"
  note k = keeper_invD [OF inv]
  obtain t1 where t1: "tx_step ?en (digest_offset st) x i (storage_zxid st) (committed_tree st) t1"
      "txs_ok ?en (digest_offset st) xs is (ti_zxid i) t1 (view st)"
    using k(6) i by auto
  have a: "pending_inv st'" "view st' = view st" "pending st' = concat (map tx_deltas xs)"
      "ephemerals st' = ephemerals st" "uncommitted_transactions st' = is" "keeper_context st' = keeper_context st"
      "storage_zxid st' = ti_zxid i" "initialized st' = initialized st"
      "tree_run (tx_deltas x) (committed_tree st) = Some (committed_tree st')"
      "nodes_digest st' = nodes_digest st +
        digest_add st (tree_digest (committed_tree st') - tree_digest (committed_tree st))"
    using adv by (simp_all add: advanced_def same_control_def view_def committed_tree_def digest_add_def)
  have "committed_tree st' = t1" using t1(1) a(9) by (simp add: tx_step_def)
  then have "tree_inv (committed_tree st')" using t1(1) by (simp add: tx_step_def)
  have "?en \<Longrightarrow> digest_offset st' = digest_offset st"
    using a(10) by (simp add: digest_offset_def digest_add_def)
  then have "txs_ok ?en (digest_offset st') xs is (ti_zxid i) (committed_tree st') (view st)"
    using t1(2) \<open>committed_tree st' = t1\<close> txs_ok_disabled [of "digest_offset st" _ _ _ _ _ "digest_offset st'"]
    by (cases ?en) auto
  with k a \<open>tree_inv (committed_tree st')\<close> show "keeper_inv st' xs"
    by (simp add: keeper_inv_def sound_def)
  show "getNodesDigest st' True = ti_nodes_digest i"
    using t1(1) a(6,10) \<open>committed_tree st' = t1\<close>
    by (auto simp: tx_step_def getNodesDigest_def digest_offset_def digest_add_def)
  show "view st' = view st" "tree_run (tx_deltas x) (committed_tree st) = Some (committed_tree st')"
    by (rule a)+
qed

lemma touch_session_side: "touch_session now sid st = Inr st' \<Longrightarrow> side st st'"
  by (auto simp: touch_session_def side_def Let_def)

lemma processRequest_advanced:
  assumes inv: "keeper_inv st (x # xs)" and req: "tx_req x = req"
    and i: "uncommitted_transactions st = i # is"
    and p: "processRequest now req sid (Some z) check_acl False st = Inr (out, st')"
  shows "z = ti_zxid i \<and> advanced (st\<lparr>storage_zxid := z, uncommitted_transactions := is\<rparr>)
    (tx_deltas x) (concat (map tx_deltas xs)) st'"
proof -
  let ?st0 = "st\<lparr>storage_zxid := z, uncommitted_transactions := is\<rparr>" and ?rest = "concat (map tx_deltas xs)"
  note k = keeper_invD [OF inv]
  have z: "z = ti_zxid i" using p i by (auto simp: processRequest_def begin_commit_def split: if_splits)
  obtain st1 where st1: "touch_session now sid ?st0 = Inr st1"
      "(if getOpNum req = OpClose then process_close req sid st1
        else if getOpNum req = OpHeartbeat then
          Inr ([\<lparr>rs_session_id = sid,
                 rs_response = with_ids (xid req) (storage_zxid st1) (makeResponse req)\<rparr>], st1)
        else process_normal req sid check_acl False st1) = Inr (out, st')"
    using p i by (auto simp: processRequest_def begin_commit_def split: if_splits)
  note sd = touch_session_side [OF st1(1)]
  obtain t1 where t1: "tx_ok z req (tx_deltas x) (committed_tree st) t1"
      "txs_ok (digestEnabled (keeper_context st)) (digest_offset st) xs is z t1 (view st)"
    using k(6) i req z by (auto simp: tx_step_def)
  have s: "pending_inv st1" "finite (dom (committed_tree st1))" "pending st1 = tx_deltas x @ ?rest"
      "storage_zxid st1 = z" "committed_tree st1 = committed_tree st"
    using k(2,5) tree_invD(1) [OF k(4)] side_frame [OF sd]
    by (simp_all add: pending_inv_def committed_tree_def)
  have gt: "\<forall>d\<in>set ?rest. storage_zxid st1 < d_zxid d" using txs_ok_zxids [OF t1(2)] s(4) by fastforce
  have tx: "tx_ok (storage_zxid st1) req (tx_deltas x) (committed_tree st1) t1" using t1(1) s by simp
  consider "body req = CloseRequest" | "body req = HeartbeatRequest"
    | "body req \<noteq> CloseRequest" "body req \<noteq> HeartbeatRequest" by blast
  then have "advanced st1 (tx_deltas x) ?rest st'"
  proof cases
    case 1
    then have "run_block (storage_zxid st1) (tx_deltas x)" using tx by (auto simp: tx_ok_def block_for_def)
    with 1 st1(2) show ?thesis by (intro process_close_ok [OF s(1-3) gt]) (auto simp: getOpNum_def)
  next
    case 2
    then have "st' = st1" "tx_deltas x = []"
      using st1(2) tx by (auto simp: getOpNum_def tx_ok_def block_for_def)
    with s(1,3) show ?thesis by (simp add: advanced_same)
  next
    case 3
    then have "process_normal req sid check_acl False st1 = Inr (out, st')"
      using st1(2) by (cases "body req") (auto simp: getOpNum_def split: if_splits)
    then show ?thesis using process_normal_ok [OF s(1-3) gt 3(1) tx] by blast
  qed
  then show ?thesis using z advanced_side(2) [OF sd] by blast
qed

subsection \<open>Rolling back\<close>

lemma rollbackRequest_ok:
  assumes inv: "keeper_inv st (xs @ [x])" and z: "z = ti_zxid (last (uncommitted_transactions st))"
  shows "\<exists>st'. rollbackRequest z allow_missing st = Inr st' \<and> keeper_inv st' xs \<and>
    committed_tree st' = committed_tree st \<and> tree_run (tx_deltas x) (view st') = Some (view st)"
proof -
  let ?en = "digestEnabled (keeper_context st)"
  note k = keeper_invD [OF inv]
  obtain ts i t0 where t: "uncommitted_transactions st = ts @ [i]"
      "txs_ok ?en (digest_offset st) xs ts (storage_zxid st) (committed_tree st) t0"
      "tx_step ?en (digest_offset st) x i (last_zxid (storage_zxid st) ts) t0 (view st)"
    using k(6) by (auto simp: txs_ok_snoc)
  let ?st = "st\<lparr>uncommitted_transactions := ts\<rparr>" and ?keep = "concat (map tx_deltas xs)"
  have zi: "z = ti_zxid i" using z t(1) by simp
  have keep: "\<forall>d\<in>set ?keep. d_zxid d < z"
    using txs_ok_zxids [OF t(2)] t(3) zi by (fastforce simp: tx_step_def)
  have drp: "\<forall>d\<in>set (tx_deltas x). d_zxid d = z" "tree_run (tx_deltas x) t0 = Some (view st)"
    using t(3) zi by (simp_all add: tx_step_def)
  have "\<exists>us e. rollback z ?st = Inr (?st\<lparr>uncommitted_state := us, ephemerals := e\<rparr>) \<and>
      us_deltas us = ?keep \<and> eph_ok e t0 \<and>
      pending_inv (?st\<lparr>uncommitted_state := us, ephemerals := e\<rparr>) \<and>
      view (?st\<lparr>uncommitted_state := us, ephemerals := e\<rparr>) = t0"
    using k(2,3,5) txs_ok_run [OF t(2)] drp keep
    by (intro rollback_ok [where drp = "tx_deltas x" and t' = "view st"]) (simp_all add: sound_def)
  then obtain us e where rb: "rollback z ?st = Inr (?st\<lparr>uncommitted_state := us, ephemerals := e\<rparr>)"
      "us_deltas us = ?keep" "eph_ok e t0" "pending_inv (?st\<lparr>uncommitted_state := us, ephemerals := e\<rparr>)"
      "view (?st\<lparr>uncommitted_state := us, ephemerals := e\<rparr>) = t0" by blast
  define st' where "st' = ?st\<lparr>uncommitted_state := us, ephemerals := e\<rparr>"
  have "rollbackRequest z allow_missing st = Inr st'"
    using rb(1) t(1) zi by (simp add: rollbackRequest_def st'_def Let_def)
  moreover have fr: "committed_tree st' = committed_tree st" "digest_offset st' = digest_offset st"
    by (simp_all add: st'_def committed_tree_def digest_offset_def)
  have "keeper_inv st' xs"
    using rb k t(2) txs_ok_inv [OF t(2) k(4)] fr unfolding keeper_inv_def sound_def
    by (simp add: st'_def [symmetric]) (simp add: st'_def)
  ultimately show ?thesis using fr(1) rb(5) drp(2) by (auto simp: st'_def [symmetric])
qed

end
