(* ===== verification/KeeperFrames.thy ===== *)
theory KeeperFrames
  imports KeeperCommit
begin

text \<open>
  What committing leaves alone: the deltas change nodes, interned lists, the digest and the
  authentications, the watches are changed by the processing of watches only, and the sessions by
  the session operations only.
\<close>

definition commits :: "KeeperStorage \<Rightarrow> KeeperStorage \<Rightarrow> bool" where
  "commits st st' \<longleftrightarrow>
     st' = st\<lparr>container := container st', acl_map := acl_map st', nodes_digest := nodes_digest st',
       session_and_auth := session_and_auth st', uncommitted_state := uncommitted_state st'\<rparr>"

lemma commitsI:
  "st' = st\<lparr>container := a, acl_map := b, nodes_digest := c, session_and_auth := d, uncommitted_state := e\<rparr> \<Longrightarrow>
   commits st st'"
  by (simp add: commits_def)

lemma commitsE:
  assumes "commits st st'"
  obtains a b c d e where
    "st' = st\<lparr>container := a, acl_map := b, nodes_digest := c, session_and_auth := d, uncommitted_state := e\<rparr>"
  using assms that unfolding commits_def by blast

lemma commits_refl [simp]: "commits st st"
  by (simp add: commits_def)

lemma commits_trans [trans]: "commits st st1 \<Longrightarrow> commits st1 st2 \<Longrightarrow> commits st st2"
  by (elim commitsE) (rule commitsI, simp)

lemma commits_frame:
  assumes "commits st st'"
  shows "session_expiry_queue st' = session_expiry_queue st" "session_and_timeout st' = session_and_timeout st"
    "session_id_counter st' = session_id_counter st" "watches st' = watches st"
    "list_watches st' = list_watches st" "sessions_and_watchers st' = sessions_and_watchers st"
    "ephemerals st' = ephemerals st" "storage_zxid st' = storage_zxid st"
    "keeper_context st' = keeper_context st"
  using assms by (elim commitsE; simp)+

lemma commits_digest [simp]:
  "commits st (addDigest p n st)" "commits st (removeDigest p n st)"
  by (simp_all add: commits_def addDigest_def removeDigest_def)

lemma commits_updateValue: "updateValue p f st = Inr st' \<Longrightarrow> commits st st'"
  by (auto simp: updateValue_def commits_def split: option.splits)

lemma commits_createNode:
  assumes "createNode p new_data stat acls st = Inr (ok, st')"
  shows "commits st st'"
proof (cases "st' = st")
  case False
  then obtain q m a n st1 where 1: "convertACLs (acl_map st) acls = (m, a)"
      "updateValue q (addChild (getBaseNodeName p))
        (st\<lparr>acl_map := addUsage m a, container := (container st)(p \<mapsto> n)\<rparr>) = Inr st1" "st' = addDigest p n st1"
    using assms by (auto simp: createNode_def Let_def split: option.splits if_splits prod.splits)
  have "commits st (st\<lparr>acl_map := addUsage m a, container := (container st)(p \<mapsto> n)\<rparr>)" by (simp add: commits_def)
  also have "commits \<dots> st1" by (rule commits_updateValue [OF 1(2)])
  also have "commits st1 st'" unfolding 1(3) by simp
  finally show ?thesis .
qed simp

lemma commits_removeNode:
  assumes "removeNode p ver st = Inr (ok, st')"
  shows "commits st st'"
proof (cases "st' = st")
  case False
  then obtain n q st1 where 1: "updateValue q (removeChild (getBaseNodeName p))
        (st\<lparr>acl_map := removeUsage (acl_map st) (n_acl_id n)\<rparr>) = Inr st1"
      "st' = removeDigest p (shallowCopy n) (st1\<lparr>container := (container st1)(p := None)\<rparr>)"
    using assms by (auto simp: removeNode_def split: option.splits if_splits)
  have "commits st (st\<lparr>acl_map := removeUsage (acl_map st) (n_acl_id n)\<rparr>)" by (simp add: commits_def)
  also have "commits \<dots> st1" by (rule commits_updateValue [OF 1(1)])
  also have "commits st1 (st1\<lparr>container := (container st1)(p := None)\<rparr>)" by (simp add: commits_def)
  also have "commits \<dots> st'" unfolding 1(2) by simp
  finally show ?thesis .
qed simp

lemma commits_commit_delta:
  assumes "commit_delta d st = Inr (e, f, st')"
  shows "commits st st'"
proof (cases "d_operation d")
  case (CreateNodeDelta stat acls new_data)
  then show ?thesis using assms commits_createNode by (auto simp: commit_delta_def split: if_splits)
next
  case (RemoveNodeDelta ver ow)
  then show ?thesis using assms commits_removeNode by (auto simp: commit_delta_def split: if_splits)
next
  case (UpdateNodeDelta g ver)
  then obtain n st1 where 1: "updateValue (d_path d) (update_fn g) (removeDigest (d_path d) n st) = Inr st1"
      "st' = addDigest (d_path d) (update_fn g n) st1"
    using assms by (auto simp: commit_delta_def split: option.splits if_splits)
  have "commits st (removeDigest (d_path d) n st)" by simp
  also have "commits \<dots> st1" by (rule commits_updateValue [OF 1(1)])
  also have "commits st1 st'" unfolding 1(2) by simp
  finally show ?thesis .
next
  case (SetACLDelta acls ver)
  then obtain m f where 1: "updateValue (d_path d) f (st\<lparr>acl_map := m\<rparr>) = Inr st'"
    using assms by (auto simp: commit_delta_def split: option.splits if_splits prod.splits)
  have "commits st (st\<lparr>acl_map := m\<rparr>)" by (simp add: commits_def)
  also have "commits \<dots> st'" by (rule commits_updateValue [OF 1])
  finally show ?thesis .
next
  case (AddAuthDelta sid auth)
  then have "st' = st\<lparr>session_and_auth := (session_and_auth st)(sid \<mapsto> bucket (session_and_auth st) sid @ [auth])\<rparr>"
    using assms by (simp add: commit_delta_def)
  then show ?thesis by (simp add: commits_def)
qed (use assms in \<open>simp_all add: commit_delta_def\<close>)

lemma commits_loop: "storage_commit_loop z ds st = Inr (e, st') \<Longrightarrow> commits st st'"
proof (induction ds arbitrary: st)
  case (Cons d ds)
  show ?case
  proof (cases "z < d_zxid d")
    case False
    then obtain e1 f1 st1 where 1: "commit_delta d st = Inr (e1, f1, st1)"
        "st' = st1 \<or> storage_commit_loop z ds st1 = Inr (e, st')"
      using Cons.prems by (auto split: if_splits)
    then show ?thesis using commits_commit_delta [OF 1(1)] Cons.IH commits_trans by blast
  qed (use Cons.prems in simp)
qed simp

lemma commits_storage_commit: "storage_commit z st = Inr (e, st') \<Longrightarrow> commits st st'"
  by (simp add: storage_commit_def commits_loop)

lemma commits_commit_uncommitted: "commit_uncommitted z st = Inr st' \<Longrightarrow> commits st st'"
  by (auto simp: commit_uncommitted_def commits_def)

lemma commits_process_simple: "process_simple st z req = Inr (resp, st') \<Longrightarrow> commits st st'"
  using process_simple_state commits_storage_commit by fastforce

lemma commits_multi_process: "multi_process st z rs = Inr (resps, st') \<Longrightarrow> commits st st'"
proof (induction rs arbitrary: st resps)
  case (Cons r rs)
  then obtain resp st1 st2 resps' where "process_simple st z r = Inr (resp, st1)"
      "commit_uncommitted z st1 = Inr st2" "multi_process st2 z rs = Inr (resps', st')" by auto
  with Cons.IH show ?case using commits_process_simple commits_commit_uncommitted commits_trans by meson
qed simp

lemma commits_process:
  assumes "process st z req = Inr (resp, st')"
  shows "commits st st'"
proof (cases "\<exists>ty rs. body req = MultiRequest ty rs")
  case True
  then show ?thesis
    using assms commits_multi_process commits_commit_uncommitted
    by (auto simp: process_def split: list.splits Operation.splits if_splits)
next
  case False
  then have "process st z req = process_simple st z req" by (cases "body req") (auto simp: process_def)
  with assms commits_process_simple show ?thesis by metis
qed

end
