(* ===== verification/KeeperReply.thy ===== *)
theory KeeperReply
  imports KeeperFrames
begin

text \<open>
  Committing a request always produces its reply: no processor finds the storage inconsistent, no
  access control list is missing, and no list request meets a child that is not there. The requests
  for which this fails (\<open>regular\<close> excludes them) are those that \<open>preprocess\<close> lets through without the
  node that \<open>process\<close> needs, and the paths without a slash.
\<close>

subsection \<open>List requests\<close>

definition wanted :: "ListRequestType \<Rightarrow> Node \<Rightarrow> bool" where
  "wanted ty n \<longleftrightarrow>
     ty = LIST_ALL \<or> isEphemeral n \<and> ty = EPHEMERAL_ONLY \<or> \<not> isEphemeral n \<and> ty = PERSISTENT_ONLY"

lemma list_names_filter:
  "\<forall>b\<in>set cs. c (fs_join p b) \<noteq> None \<Longrightarrow>
   list_names c p ty cs = Inr (filter (\<lambda>b. wanted ty (the (c (fs_join p b)))) cs)"
  by (induction cs) (auto simp: add_child_def wanted_def split: option.splits)

lemma list_names_children:
  assumes "kids_ok c" and "c p = Some n"
  shows "list_names c p ty (n_children n) =
    Inr (filter (\<lambda>b. wanted ty (the (c (fs_join p b)))) (n_children n))"
proof (rule list_names_filter, rule ballI)
  fix b
  assume "b \<in> set (n_children n)"
  then have "child_at c p b" by (simp add: kids_okD(4) [OF assms])
  then show "c (fs_join p b) \<noteq> None" by (rule child_join [OF assms(1)])
qed

subsection \<open>Replies of single requests\<close>

fun regular_body :: "'r request_class \<Rightarrow> bool" where
  "regular_body (CreateRequest c) \<longleftrightarrow> \<not> cr_not_exists c \<and> CHR ''/'' \<in> set (cr_path c)"
| "regular_body (RemoveRequest p ver) \<longleftrightarrow> CHR ''/'' \<in> set p"
| "regular_body (SetRequest p new_data ver) \<longleftrightarrow> CHR ''/'' \<in> set p"
| "regular_body (GetRequest p) \<longleftrightarrow>
     p \<noteq> keeper_api_feature_flags_path \<and> p \<noteq> keeper_availability_zone_path"
| "regular_body CloseRequest \<longleftrightarrow> False"
| "regular_body (MultiRequest ty rs) \<longleftrightarrow> False"
| "regular_body (ReconfigRequest j l n v) \<longleftrightarrow> False"
| "regular_body (SessionIDRequest i ty s) \<longleftrightarrow> False"
| "regular_body _ \<longleftrightarrow> True"

lemma regular_not_let_through: "regular_body b \<Longrightarrow> \<not> let_through b ds t"
  by (cases b) (auto simp: let_through_def)

lemma commit_then_ZOK:
  "storage_commit z st = Inr (ZOK, s) \<Longrightarrow> commit_then False st z b0 k = k s"
  by (simp add: commit_then_def)

lemma commit_then_error:
  "storage_commit z st = Inr (e, s) \<Longrightarrow> e \<noteq> ZOK \<Longrightarrow>
   commit_then False st z b0 k = Inr (with_error e (fresh_response b0), s)"
  by (simp add: commit_then_def)

lemma processors_error:
  assumes "storage_commit z st = Inr (e, s)" and "e \<noteq> ZOK"
  shows "get_processImpl False st z p = Inr (with_error e (fresh_response (GetResponse [] Stat_default)), s)"
    "exists_processImpl False st z p = Inr (with_error e (fresh_response (ExistsResponse Stat_default)), s)"
    "list_processImpl False st z mk p ty = Inr (with_error e (fresh_response (mk [] Stat_default)), s)"
    "check_processImpl False st z ck = Inr (with_error e (fresh_response
       (if ck_not_exists ck then CheckNotExistsResponse else CheckResponse)), s)"
    "getacl_processImpl False st z p = Inr (with_error e (fresh_response (GetACLResponse [] Stat_default)), s)"
    "stat_process st z mk2 p = Inr (with_error e (fresh_response (mk2 Stat_default)), s)"
  unfolding get_processImpl_def exists_processImpl_def list_processImpl_def check_processImpl_def
    getacl_processImpl_def stat_process_def Let_def commit_then_error [OF assms] by (rule refl)+

lemma process_simple_error:
  assumes "storage_commit z st = Inr (e, s)" and "e \<noteq> ZOK" and "pending st = d # ds" and "d_zxid d = z"
    and "\<not> silent (body req)"
  shows "\<exists>resp. process_simple st z req = Inr (resp, s) \<and> resp_error resp = e"
  using assms(5)
  by (cases "body req")
    (simp_all add: process_simple_def read_process_def create_process_def create_response_def
      remove_process_def auth_process_def assms(1-4) processors_error [OF assms(1,2)])

lemma committed_node:
  "committed_tree s p = map_option core (container s p)"
  by (simp add: committed_tree_def core_tree_apply)

lemma reads_answer:
  assumes "storage_commit z st = Inr (ZOK, s)" and "contents_ok s"
  shows "p = keeper_config_path \<or> container s p \<noteq> None \<Longrightarrow>
      \<exists>resp. get_processImpl False st z p = Inr (resp, s) \<and> resp_error resp = ZOK"
    "container s p \<noteq> None \<Longrightarrow>
      \<exists>resp. exists_processImpl False st z p = Inr (resp, s) \<and> resp_error resp = ZOK"
    "container s p \<noteq> None \<Longrightarrow> p \<noteq> [] \<Longrightarrow>
      \<exists>resp. list_processImpl False st z mk p ty = Inr (resp, s) \<and> resp_error resp = ZOK"
    "container s p \<noteq> None \<Longrightarrow>
      \<exists>resp. getacl_processImpl False st z p = Inr (resp, s) \<and> resp_error resp = ZOK"
    "container s p \<noteq> None \<Longrightarrow>
      \<exists>resp. stat_process st z mk2 p = Inr (resp, s) \<and> resp_error resp = ZOK"
proof -
  note c = commit_then_ZOK [OF assms(1)]
  have kids: "kids_ok (container s)" and acl: "acl_ok s" using assms(2) by (simp_all add: contents_ok_def)
  show "p = keeper_config_path \<or> container s p \<noteq> None \<Longrightarrow>
      \<exists>resp. get_processImpl False st z p = Inr (resp, s) \<and> resp_error resp = ZOK"
    by (cases "p = keeper_config_path") (auto simp: get_processImpl_def c Let_def fresh_response_def)
  show "container s p \<noteq> None \<Longrightarrow>
      \<exists>resp. exists_processImpl False st z p = Inr (resp, s) \<and> resp_error resp = ZOK"
    by (auto simp: exists_processImpl_def c Let_def fresh_response_def)
  show "container s p \<noteq> None \<Longrightarrow> p \<noteq> [] \<Longrightarrow>
      \<exists>resp. list_processImpl False st z mk p ty = Inr (resp, s) \<and> resp_error resp = ZOK"
    by (auto simp: list_processImpl_def c Let_def fresh_response_def list_names_children [OF kids])
  show "container s p \<noteq> None \<Longrightarrow>
      \<exists>resp. getacl_processImpl False st z p = Inr (resp, s) \<and> resp_error resp = ZOK"
    using acl_resolves [OF acl, of p] by (auto simp: getacl_processImpl_def c Let_def fresh_response_def)
  show "container s p \<noteq> None \<Longrightarrow>
      \<exists>resp. stat_process st z mk2 p = Inr (resp, s) \<and> resp_error resp = ZOK"
    by (auto simp: stat_process_def c Let_def fresh_response_def)
qed

lemma check_answer:
  assumes "storage_commit z st = Inr (ZOK, s)" and "check_holds ck (committed_tree s (ck_path ck))"
  shows "\<exists>resp. check_processImpl False st z ck = Inr (resp, s) \<and> resp_error resp = ZOK"
  using assms(2)
  by (cases "container s (ck_path ck)")
    (auto simp: check_processImpl_def commit_then_ZOK [OF assms(1)] Let_def fresh_response_def
      check_holds_def committed_node version_ok_def)

lemma create_answer:
  assumes "storage_commit z st = Inr (ZOK, s)" and "uncommitted_state s = uncommitted_state st"
    and "pending st = b @ tail" and "run_block z b" and "\<exists>d\<in>set b. is_create_op (d_operation d)"
  shows "\<exists>resp. create_process st z c = Inr (resp, s) \<and> resp_error resp = ZOK"
proof -
  obtain d ds where d: "pending st = d # ds" "d_zxid d = z"
    using assms(3-5) by (cases b) (auto simp: run_block_def)
  have "\<exists>d\<in>set (pending st). is_create_delta z d"
    using assms(3-5) by (auto simp: run_block_def is_create_delta_def is_create_op_def)
  then obtain d' where "find (is_create_delta z) (pending st) = Some d'"
    by (metis find_None_iff option.exhaust)
  then show ?thesis using d assms(1,2) by (simp add: create_process_def create_response_def)
qed

lemma process_simple_answer:
  assumes c: "storage_commit z st = Inr (ZOK, s)" and us: "uncommitted_state s = uncommitted_state st"
    and b: "pending st = b @ tail" "run_block z b"
    and ans: "answerable (body req) b (committed_tree s)"
    and ok: "contents_ok s" "container s [] = None"
    and body: "body req \<noteq> CloseRequest" "silent (body req) \<Longrightarrow> s = st"
  shows "\<exists>resp. process_simple st z req = Inr (resp, s) \<and> resp_error resp = ZOK"
proof -
  have lst: "container s p \<noteq> None \<Longrightarrow>
      \<exists>resp. list_processImpl False st z mk p ty = Inr (resp, s) \<and> resp_error resp = ZOK" for mk p ty
    using reads_answer(3) [OF c ok(1)] ok(2) by (cases "p = []") simp_all
  show ?thesis
  proof (cases "body req")
    case (CreateRequest x)
    then show ?thesis
      using create_answer [OF c us b] ans by (simp add: process_simple_def read_process_def answerable_def)
  next
    case (CheckRequest ck)
    then show ?thesis
      using check_answer [OF c] ans by (simp add: process_simple_def read_process_def answerable_def)
  next
    case (RemoveRequest p ver)
    then show ?thesis using c by (simp add: process_simple_def read_process_def remove_process_def)
  next
    case (AuthRequest ty sch dat)
    then show ?thesis using c by (simp add: process_simple_def read_process_def auth_process_def)
  next
    case (ListRequest p)
    then show ?thesis using lst ans
      by (simp add: process_simple_def read_process_def answerable_def committed_node)
  next
    case (SimpleListRequest p)
    then show ?thesis using lst ans
      by (simp add: process_simple_def read_process_def answerable_def committed_node)
  next
    case (FilteredListRequest p ty)
    then show ?thesis using lst ans
      by (simp add: process_simple_def read_process_def answerable_def committed_node)
  qed (use reads_answer(1,2,4,5) [OF c ok(1)] ans body in
    \<open>auto simp: process_simple_def read_process_def answerable_def committed_node fresh_response_def\<close>)
qed

subsection \<open>Replies of blocks and multi requests\<close>

text \<open>The state in which the next block of deltas can be committed and answered.\<close>

definition ready :: "nat \<Rightarrow> Delta list \<Rightarrow> KeeperStorage \<Rightarrow> bool" where
  "ready k b st \<longleftrightarrow>
     pending_inv st \<and> finite (dom (committed_tree st)) \<and> committed_tree st [] = None \<and>
     contents_ok st \<and> acl_capacity (length b + k) st \<and> canonical_creates b"

lemma ready_advanced:
  assumes "ready k (b @ b') st" and "advanced st b rest st'"
  shows "ready k b' st'"
proof -
  have "contents_ok st' \<and> acl_capacity (length b' + k) st'"
    using keeps_contentsD [of b st st' "length b' + k"] assms
    by (simp add: ready_def advanced_def add.assoc)
  then show ?thesis
    using assms advanced_finite [OF assms(2)] tree_run_root [of b "committed_tree st" "committed_tree st'"]
    by (simp add: ready_def advanced_def)
qed

lemma process_block_reply:
  assumes r: "ready k b st" and b: "pending st = b @ tail" "block_end z tail rest"
    and bf: "block_for z (body req) b t1" "tree_run b (committed_tree st) = Some t1"
    and reg: "regular_body (body req)"
  shows "\<exists>resp st1 st2. process_simple st z req = Inr (resp, st1) \<and>
    commit_uncommitted z st1 = Inr st2 \<and> advanced st b rest st2"
proof -
  have inv: "pending_inv st" "finite (dom (committed_tree st))" using r by (simp_all add: ready_def)
  have close: "body req \<noteq> CloseRequest" using reg by auto
  have reply: "\<exists>resp st1. process_simple st z req = Inr (resp, st1)"
  proof (cases "error_block z b")
    case True
    then obtain e where e: "e \<noteq> ZOK" "storage_commit z st = Inr (e, st)"
      using commit_error [OF inv(1) b] by blast
    have "\<not> silent (body req)"
      using True bf(1) by (auto simp: block_for_def error_block_def run_block_def plain_op_def)
    moreover obtain e0 where "pending st = mkError z e0 # tail"
      using True b(1) by (auto simp: error_block_def)
    ultimately show ?thesis using process_simple_error [OF e(2,1)] mkError_simps by blast
  next
    case False
    then have run: "run_block z b" "silent (body req) \<Longrightarrow> b = []" "answerable (body req) b t1"
      using bf(1) close regular_not_let_through [OF reg] by (auto simp: block_for_def)
    obtain s st2 where c: "storage_commit z st = Inr (ZOK, s)" "advanced st b rest st2"
        "container st2 = container s" "acl_map st2 = acl_map s" "same_frame st s"
      using commit_run_block [OF inv b run(1)] by metis
    have "ready k [] st2" using ready_advanced [of k b "[]"] r c(2) by simp
    then have ok: "contents_ok s" "container s [] = None"
      using contents_cong [OF c(3,4)] c(3) by (simp_all add: ready_def committed_node)
    have "committed_tree s = t1"
      using c(2,3) bf(2) by (simp add: advanced_def committed_tree_def)
    moreover have "silent (body req) \<Longrightarrow> s = st"
      using storage_commit_empty [OF _ b(2)] b(1) run(2) c(1) by simp
    ultimately show ?thesis
      using process_simple_answer [OF c(1) _ b(1) run(1) _ ok close] run(3) c(5)
      by (auto simp: same_frame_def)
  qed
  then obtain resp st1 where p: "process_simple st z req = Inr (resp, st1)" by blast
  from process_block [OF inv b block_for_shape [OF bf(1) close] p] p show ?thesis by blast
qed

lemma multi_process_reply:
  "ready k ds st \<Longrightarrow> pending st = ds @ rest \<Longrightarrow> sub_blocks z rs ds (committed_tree st) \<Longrightarrow>
   \<forall>r\<in>set rs. regular_body (body r) \<Longrightarrow>
   \<exists>resps st'. multi_process st z rs = Inr (resps, st') \<and> length resps = length rs"
proof (induction rs arbitrary: st ds)
  case (Cons r rs)
  obtain b ds' t1 where b: "ds = b @ mkDelta [] z SubDeltaEnd # ds'" "tree_run b (committed_tree st) = Some t1"
      "block_for z (body r) b t1" "sub_blocks z rs ds' t1"
    using Cons.prems(3) by auto
  have be: "block_end z (mkDelta [] z SubDeltaEnd # ds' @ rest) (ds' @ rest)" by (simp add: block_end_def)
  have pend: "pending st = b @ mkDelta [] z SubDeltaEnd # ds' @ rest" using Cons.prems(2) b(1) by simp
  have reg: "regular_body (body r)" using Cons.prems(4) by simp
  have r: "ready k (b @ ds') st"
    using Cons.prems(1) b(1) acl_capacity_mono [of "length ds + k" st "length (b @ ds') + k"]
    by (simp add: ready_def canonical_creates_def)
  then have r1: "ready (length ds' + k) b st" by (simp add: ready_def add.assoc)
  obtain resp st1 st2 where p: "process_simple st z r = Inr (resp, st1)" "commit_uncommitted z st1 = Inr st2"
      "advanced st b (ds' @ rest) st2"
    using process_block_reply [OF r1 pend be b(3,2) reg] by blast
  have "committed_tree st2 = t1" "pending st2 = ds' @ rest" using p(3) b(2) by (simp_all add: advanced_def)
  then have "\<exists>resps st'. multi_process st2 z rs = Inr (resps, st') \<and> length resps = length rs"
    using b(4) Cons.prems(4) by (intro Cons.IH [OF ready_advanced [OF r p(3)]]) simp_all
  with p(1,2) show ?case by auto
qed simp

subsection \<open>The whole request\<close>

definition regular :: "ZooKeeperRequest \<Rightarrow> bool" where
  "regular req \<longleftrightarrow>
     \<not> isl (get_processor req) \<and>
     (case body req of
        MultiRequest ty rs \<Rightarrow> rs \<noteq> [] \<and> (\<forall>r\<in>set rs. regular_body (body r))
      | CloseRequest \<Rightarrow> True
      | b \<Rightarrow> regular_body b)"

text \<open>
  A multi request that is refused by the access check has a single error delta, which its processor
  does not expect; it is excluded here.
\<close>

definition refused_multi :: "tx \<Rightarrow> bool" where
  "refused_multi x \<longleftrightarrow>
     (\<exists>ty rs z. body (tx_req x) = MultiRequest ty rs \<and> tx_deltas x = [mkError z ZNOAUTH])"

lemma process_multi_reply:
  assumes r: "ready k ds st" and ds: "pending st = ds @ rest" "\<forall>d\<in>set rest. z < d_zxid d"
    and b: "body req = MultiRequest ty rs" "rs \<noteq> []" "\<forall>r\<in>set rs. regular_body (body r)"
    and tx: "tx_ok z req ds (committed_tree st) t1" "ds \<noteq> [mkError z ZNOAUTH]"
  shows "\<exists>resp st1. process st z req = Inr (resp, st1)"
proof (cases "failed_multi z (length rs) ds")
  case True
  then obtain errs where errs: "pending st = mkDelta [] z (FailedMultiDelta errs) # rest" "length errs = length rs"
    using ds(1) by (auto simp: failed_multi_def)
  obtain st2 where "commit_uncommitted z st = Inr st2"
    using commit_failed_multi [OF _ ds True] r by (auto simp: ready_def)
  with errs b(1) show ?thesis by (simp add: process_def)
next
  case False
  then have blocks: "sub_blocks z rs ds (committed_tree st)" using tx b(1) by (simp add: tx_ok_def)
  then obtain d ds' where d: "ds = d # ds'" using b(2) by (cases ds; cases rs) auto
  from multi_process_reply [OF r ds(1) blocks b(3)]
  obtain resps st' where "multi_process st z rs = Inr (resps, st')" by blast
  moreover have "\<not> is_failed_multi (d_operation d)" by (rule sub_blocks_hd [OF blocks d])
  ultimately show ?thesis
    using b(1) ds(1) d by (cases "d_operation d") (simp_all add: process_def is_failed_multi_def)
qed

lemma process_reply:
  assumes r: "ready k ds st" and ds: "pending st = ds @ rest" "\<forall>d\<in>set rest. z < d_zxid d"
    and tx: "tx_ok z req ds (committed_tree st) t1" "tree_run ds (committed_tree st) = Some t1"
    and reg: "regular req" "body req \<noteq> CloseRequest"
    and ref: "\<And>ty rs. body req = MultiRequest ty rs \<Longrightarrow> ds \<noteq> [mkError z ZNOAUTH]"
  shows "\<exists>resp st1. process st z req = Inr (resp, st1)"
proof (cases "\<exists>ty rs. body req = MultiRequest ty rs")
  case True
  then obtain ty rs where b: "body req = MultiRequest ty rs" by blast
  then have "rs \<noteq> []" "\<forall>r\<in>set rs. regular_body (body r)" using reg(1) by (simp_all add: regular_def)
  then show ?thesis by (rule process_multi_reply [OF r ds b _ _ tx(1) ref [OF b]])
next
  case False
  then have "block_for z (body req) ds t1" "process st z req = process_simple st z req"
      "regular_body (body req)"
    using tx(1) reg by (cases "body req"; auto simp: tx_ok_def process_def regular_def)+
  moreover have "block_end z rest rest" using ds(2) by (simp add: block_end_def)
  ultimately show ?thesis using process_block_reply [OF r ds(1) _ _ tx(2)] by metis
qed

lemma processWatchesImpl_returns:
  assumes "CHR ''/'' \<in> set p"
  shows "\<exists>rs ws' lws'. processWatchesImpl p ws lws ev = Inr (rs, ws', lws')"
proof -
  obtain q where "parentNodePath p = Some q" using assms parentNodePath_None by fastforce
  then show ?thesis by (simp add: processWatchesImpl_def split: prod.splits)
qed

lemma processWatches_simple_returns:
  assumes "regular_body (body req)"
  shows "\<exists>rs st'. processWatches_simple st req = Inr (rs, st')"
proof (cases "body req")
  case (CreateRequest c)
  then show ?thesis
    using processWatchesImpl_returns [of "cr_path c" "watches st" "list_watches st" CREATED] assms
    by (auto simp: processWatches_simple_def getPath_def)
next
  case (RemoveRequest p ver)
  then show ?thesis
    using processWatchesImpl_returns [of p "watches st" "list_watches st" DELETED] assms
    by (auto simp: processWatches_simple_def getPath_def)
next
  case (SetRequest p new_data ver)
  then show ?thesis
    using processWatchesImpl_returns [of p "watches st" "list_watches st" CHANGED] assms
    by (auto simp: processWatches_simple_def getPath_def)
qed (simp_all add: processWatches_simple_def Let_def)

lemma multi_processWatches_returns:
  "\<forall>r\<in>set reqs. regular_body (body r) \<Longrightarrow> \<exists>rs st'. multi_processWatches st reqs = Inr (rs, st')"
proof (induction reqs arbitrary: st)
  case (Cons r reqs)
  obtain rs st' where 1: "processWatches_simple st r = Inr (rs, st')"
    using processWatches_simple_returns Cons.prems by fastforce
  obtain rs' st'' where "multi_processWatches st' reqs = Inr (rs', st'')"
    using Cons.IH [of st'] Cons.prems by auto
  with 1 show ?case by simp
qed simp

lemma processWatches_returns:
  assumes "regular req" and "body req \<noteq> CloseRequest"
  shows "\<exists>rs st'. processWatches st req = Inr (rs, st')"
proof (cases "\<exists>ty rs. body req = MultiRequest ty rs")
  case True
  then show ?thesis
    using assms(1) multi_processWatches_returns by (auto simp: processWatches_def regular_def)
next
  case False
  then have "processWatches st req = processWatches_simple st req" "regular_body (body req)"
    using assms by (cases "body req"; auto simp: processWatches_def regular_def)+
  then show ?thesis using processWatches_simple_returns by metis
qed

definition reply_to :: "ZooKeeperRequest \<Rightarrow> session \<Rightarrow> zxid \<Rightarrow> ResponseForSession list \<Rightarrow> bool" where
  "reply_to req sid z out \<longleftrightarrow>
     out \<noteq> [] \<and> rs_session_id (last out) = sid \<and> resp_xid (rs_response (last out)) = xid req \<and>
     resp_zxid (rs_response (last out)) = z"

lemma reply_toI [simp]:
  "reply_to req sid z (ws @ [\<lparr>rs_session_id = sid, rs_response = with_ids (xid req) z resp\<rparr>])"
  "reply_to req sid z [\<lparr>rs_session_id = sid, rs_response = with_ids (xid req) z resp\<rparr>]"
  by (simp_all add: reply_to_def)

lemma process_normal_reply:
  assumes r: "ready k ds st" and ds: "pending st = ds @ rest" "\<forall>d\<in>set rest. storage_zxid st < d_zxid d"
    and tx: "tx_ok (storage_zxid st) req ds (committed_tree st) t1" "tree_run ds (committed_tree st) = Some t1"
    and reg: "regular req" "body req \<noteq> CloseRequest"
    and ref: "\<And>ty rs. body req = MultiRequest ty rs \<Longrightarrow> ds \<noteq> [mkError (storage_zxid st) ZNOAUTH]"
  shows "\<exists>out st'. process_normal req sid check_acl False st = Inr (out, st') \<and>
    reply_to req sid (storage_zxid st) out \<and> session_expiry_queue st' = session_expiry_queue st"
proof -
  let ?z = "storage_zxid st"
  have inv: "pending_inv st" "finite (dom (committed_tree st))" using r by (simp_all add: ready_def)
  obtain resp st1 where p: "process st ?z req = Inr (resp, st1)"
    using process_reply [OF r ds tx reg] ref by blast
  obtain st2 where c: "commit_uncommitted ?z st1 = Inr st2"
    using process_ok [OF inv ds reg(2) tx(1) p] by blast
  have fr: "commits st st2" using commits_trans [OF commits_process [OF p] commits_commit_uncommitted [OF c]] .
  define st3 where "st3 = register_watch req sid (resp_error resp) st2"
  have "watching st2 st3" unfolding st3_def by (rule register_watch_watching)
  obtain ws st' where w: "(if resp_error resp = ZOK then processWatches st3 req else Inr ([], st3)) = Inr (ws, st')"
    using processWatches_returns [OF reg, of st3] by (cases "resp_error resp = ZOK") auto
  then have "watching st3 st'" using processWatches_watching by (cases "resp_error resp = ZOK") auto
  then have "watching st2 st'" using \<open>watching st2 st3\<close> watching_trans by blast
  then have "storage_zxid st' = ?z" "session_expiry_queue st' = session_expiry_queue st"
    using commits_frame [OF fr] watching_frame by auto
  moreover obtain pt where "get_processor req = Inr pt" using reg(1) by (cases "get_processor req") (auto simp: regular_def)
  then have "process_normal req sid check_acl False st =
      Inr (ws @ [\<lparr>rs_session_id = sid, rs_response = with_ids (xid req) (storage_zxid st') resp\<rparr>], st')"
    using p c w [unfolded st3_def] by (simp add: process_normal_def Let_def split del: if_split)
  ultimately show ?thesis by simp
qed

lemma tree_run_remove_path:
  "tree_run ds t = Some t' \<Longrightarrow> d \<in> set ds \<Longrightarrow> d_operation d = RemoveNodeDelta ver ow \<Longrightarrow>
   parentNodePath (d_path d) \<noteq> None"
  by (induction ds arbitrary: t)
    (auto simp: bind_eq_Some_conv tree_step_def op_step_def split: option.splits if_splits)

lemma close_watches_returns:
  "\<forall>d\<in>set ds. \<forall>ver ow. d_operation d = RemoveNodeDelta ver ow \<longrightarrow> CHR ''/'' \<in> set (d_path d) \<Longrightarrow>
   \<forall>d\<in>set rest. z < d_zxid d \<Longrightarrow> \<exists>rs st'. close_watches z (ds @ rest) st = Inr (rs, st')"
proof (induction ds arbitrary: st)
  case Nil
  then show ?case by (cases rest) simp_all
next
  case (Cons d ds)
  define ev where "ev = (case d_operation d of
      RemoveNodeDelta ver ow \<Rightarrow>
        rbind (processWatchesImpl (d_path d) (watches st) (list_watches st) DELETED)
          (\<lambda>(rs, ws, lws). Inr (rs, st\<lparr>watches := ws, list_watches := lws\<rparr>))
    | _ \<Rightarrow> Inr ([], st))"
  have "\<exists>rs st1. ev = Inr (rs, st1)"
  proof (cases "d_operation d")
    case (RemoveNodeDelta ver ow)
    then have "CHR ''/'' \<in> set (d_path d)" using Cons.prems(1) by simp
    from processWatchesImpl_returns [OF this, of "watches st" "list_watches st" DELETED] RemoveNodeDelta
    show ?thesis by (auto simp: ev_def)
  qed (simp_all add: ev_def)
  then obtain rs st1 where 1: "ev = Inr (rs, st1)" by blast
  obtain rs' st' where "close_watches z (ds @ rest) st1 = Inr (rs', st')"
    using Cons.IH [of st1] Cons.prems by auto
  with 1 show ?case by (simp add: ev_def)
qed

lemma clearDeadWatches_queue [simp]:
  "session_expiry_queue (clearDeadWatches sid st) = session_expiry_queue st"
  "storage_zxid (clearDeadWatches sid st) = storage_zxid st"
  using watching_frame [OF clearDeadWatches_watching] by simp_all

lemma process_close_reply:
  assumes r: "ready k ds st" and ds: "pending st = ds @ rest" "\<forall>d\<in>set rest. storage_zxid st < d_zxid d"
    and run: "run_block (storage_zxid st) ds" and q: "expiry_inv (session_expiry_queue st)"
  shows "\<exists>out st'. process_close req sid st = Inr (out, st') \<and> reply_to req sid (storage_zxid st) out \<and>
    expiry_inv (session_expiry_queue st')"
proof -
  let ?z = "storage_zxid st"
  have inv: "pending_inv st" "finite (dom (committed_tree st))" using r by (simp_all add: ready_def)
  have be: "block_end ?z rest rest" using ds(2) by (simp add: block_end_def)
  obtain st1 st2 where c: "storage_commit ?z st = Inr (ZOK, st1)" "commit_uncommitted ?z st1 = Inr st2"
      "advanced st ds rest st2" "same_frame st st1"
    using commit_run_block [OF inv ds(1) be run] by metis
  have "CHR ''/'' \<in> set (d_path d)" if "d \<in> set ds" "d_operation d = RemoveNodeDelta ver ow" for d ver ow
    using tree_run_remove_path [OF _ that] c(3) parentNodePath_None by (force simp: advanced_def)
  moreover have pend: "pending st1 = ds @ rest" using c(4) ds(1) by (simp add: same_frame_def)
  ultimately obtain rs st3 where w: "close_watches ?z (pending st1) st1 = Inr (rs, st3)"
    using close_watches_returns [of ds rest ?z st1] ds(2) by auto
  note w3 = close_watches_watching [OF w]
  obtain st4 where c4: "commit_uncommitted ?z st3 = Inr st4"
    using commit_uncommitted_side [OF watching_side [OF w3] c(2)] by blast
  have fr: "session_expiry_queue st4 = session_expiry_queue st" "storage_zxid st4 = ?z"
    using commits_frame [OF commits_storage_commit [OF c(1)]] watching_frame [OF w3]
      commits_frame [OF commits_commit_uncommitted [OF c4]] by simp_all
  obtain q' b where "remove (session_expiry_queue st) sid = Inr (q', b)" "expiry_inv q'"
    using remove_correct [OF q, of sid] by blast
  then show ?thesis
    using c(1) w c4 fr by (simp add: process_close_def Let_def)
qed

lemma touch_session_returns:
  assumes "expiry_inv (session_expiry_queue st)"
  shows "\<exists>st'. touch_session now sid st = Inr st' \<and> expiry_inv (session_expiry_queue st')"
proof -
  obtain q where "addNewSessionOrUpdate (session_expiry_queue st) now sid
      (case session_and_timeout st sid of None \<Rightarrow> 0 | Some t \<Rightarrow> t) = Inr q" "expiry_inv q"
    using addNewSessionOrUpdate_correct [OF assms, of now sid] by blast
  then show ?thesis by (simp add: touch_session_def Let_def)
qed

lemma processRequest_reply:
  assumes inv: "keeper_inv st (x # xs)" and i: "uncommitted_transactions st = i # is"
    and cont: "contents_ok st" "acl_capacity (length (tx_deltas x)) st" "canonical_creates (tx_deltas x)"
    and q: "expiry_inv (session_expiry_queue st)"
    and reg: "regular (tx_req x)" "\<not> refused_multi x"
  shows "\<exists>out st'. processRequest now (tx_req x) sid (Some (ti_zxid i)) check_acl False st = Inr (out, st') \<and>
    reply_to (tx_req x) sid (ti_zxid i) out \<and> expiry_inv (session_expiry_queue st')"
proof -
  let ?z = "ti_zxid i" and ?rest = "concat (map tx_deltas xs)" and ?req = "tx_req x"
  let ?st0 = "st\<lparr>storage_zxid := ?z, uncommitted_transactions := is\<rparr>"
  note k = keeper_invD [OF inv]
  obtain st1 where st1: "touch_session now sid ?st0 = Inr st1" "expiry_inv (session_expiry_queue st1)"
    using touch_session_returns [of ?st0] q by auto
  note fr = side_frame [OF touch_session_side [OF st1(1)]]
  obtain t1 where t1: "tx_ok ?z ?req (tx_deltas x) (committed_tree st) t1"
      "tree_run (tx_deltas x) (committed_tree st) = Some t1"
      "txs_ok (digestEnabled (keeper_context st)) (digest_offset st) xs is ?z t1 (view st)"
    using k(6) i by (auto simp: tx_step_def)
  have s: "storage_zxid st1 = ?z" "committed_tree st1 = committed_tree st"
      "pending st1 = tx_deltas x @ ?rest" "initialized st"
    using fr k(1,5) by (simp_all add: committed_tree_def)
  have "ready 0 (tx_deltas x) st1"
    using k(2) tree_invD(1,2) [OF k(4)] cont fr contents_cong [of st1 st]
    by (simp add: ready_def pending_inv_def committed_tree_def)
  moreover have gt: "\<forall>d\<in>set ?rest. storage_zxid st1 < d_zxid d" using txs_ok_zxids [OF t1(3)] s(1) by fastforce
  moreover have tx: "tx_ok (storage_zxid st1) ?req (tx_deltas x) (committed_tree st1) t1"
      "tree_run (tx_deltas x) (committed_tree st1) = Some t1" using t1 s by simp_all
  ultimately have parts: "body ?req = CloseRequest \<Longrightarrow> run_block ?z (tx_deltas x) \<Longrightarrow>
      \<exists>out st'. process_close ?req sid st1 = Inr (out, st') \<and> reply_to ?req sid ?z out \<and>
        expiry_inv (session_expiry_queue st')"
    "body ?req \<noteq> CloseRequest \<Longrightarrow>
      \<exists>out st'. process_normal ?req sid check_acl False st1 = Inr (out, st') \<and> reply_to ?req sid ?z out \<and>
        session_expiry_queue st' = session_expiry_queue st1"
    using process_close_reply [OF _ s(3) _ _ st1(2)] process_normal_reply [OF _ s(3) _ _ _ reg(1)]
      reg(2) s(1) by (auto simp: refused_multi_def)
  have start: "begin_commit (Some ?z) st = Inr ?st0" using i by (simp add: begin_commit_def)
  consider (close) "body ?req = CloseRequest" | (beat) "body ?req = HeartbeatRequest"
    | (normal) "getOpNum ?req \<noteq> OpClose" "getOpNum ?req \<noteq> OpHeartbeat" "body ?req \<noteq> CloseRequest"
    by (cases "body ?req") (auto simp: getOpNum_def)
  then show ?thesis
  proof cases
    case close
    then have "run_block ?z (tx_deltas x)" using t1(1) by (auto simp: tx_ok_def block_for_def)
    then show ?thesis
      using parts(1) [OF close] close st1 start s(4) by (auto simp: processRequest_def getOpNum_def)
  next
    case beat
    then show ?thesis using st1 start s(1,4) by (auto simp: processRequest_def getOpNum_def)
  next
    case normal
    then show ?thesis
      using parts(2) [OF normal(3)] st1 start s(4) by (auto simp: processRequest_def)
  qed
qed

end
