(* ===== verification/KeeperInitial.thy ===== *)
theory KeeperInitial
  imports KeeperReply KeeperFlags
begin

text \<open>
  The storage that the constructor of \<open>KeeperStorage\<close> builds, with the system nodes inserted, meets
  all invariants.
\<close>

definition fresh_node :: "path \<Rightarrow> Node \<Rightarrow> bool" where
  "fresh_node p n \<longleftrightarrow>
     n_acl_id n = 0 \<and> \<not> isEphemeral n \<and>
     (p = ''/'' \<or> p = keeper_system_path \<or>
      parentNodePath p = Some keeper_system_path \<and> numChildren n = 0)"

definition fresh_container :: "container \<Rightarrow> bool" where
  "fresh_container c \<longleftrightarrow>
     finite (dom c) \<and> (\<exists>r. c ''/'' = Some r \<and> numChildren r = 1) \<and> c keeper_system_path \<noteq> None \<and>
     (\<forall>p n. c p = Some n \<longrightarrow> fresh_node p n) \<and> kids_ok c"

lemma fresh_containerD:
  assumes "fresh_container c"
  shows "finite (dom c)" "\<exists>r. c ''/'' = Some r \<and> numChildren r = 1" "c keeper_system_path \<noteq> None"
    "c p = Some n \<Longrightarrow> n_acl_id n = 0" "c p = Some n \<Longrightarrow> \<not> isEphemeral n"
    "c p = Some n \<Longrightarrow> p = ''/'' \<or> p = keeper_system_path \<or>
       parentNodePath p = Some keeper_system_path \<and> numChildren n = 0"
    "kids_ok c" "c p = Some n \<Longrightarrow> fresh_node p n"
  using assms unfolding fresh_container_def fresh_node_def by blast+

lemma fresh_container_upd:
  assumes "fresh_container c" and "fresh_node p n" and "p \<noteq> ''/''" and "kids_ok (c(p \<mapsto> n))"
  shows "fresh_container (c(p \<mapsto> n))"
  using assms fresh_containerD(8) [OF assms(1)] unfolding fresh_container_def by (auto split: if_splits)

lemma fresh_node_addChild [simp]: "fresh_node p (addChild b n) = fresh_node p n"
  by (simp add: fresh_node_def addChild_def isEphemeral_def numChildren_def)

lemma parent_root: "parentNodePath ''/'' = Some ''/''"
  using parent_self by blast

lemma system_child:
  "parentNodePath p = Some keeper_system_path \<Longrightarrow> p \<noteq> ''/'' \<and> p \<noteq> keeper_system_path"
  using parent_root parent_of_system system_not_root by auto

lemma fresh_tree_inv:
  assumes "fresh_container c"
  shows "tree_inv (core_tree c)"
proof -
  note f = fresh_containerD [OF assms]
  obtain r k where r: "c ''/'' = Some r" "numChildren r = 1" and k: "c keeper_system_path = Some k"
    using f(2,3) by auto
  have none: "core_tree c p = None \<longleftrightarrow> c p = None" for p by simp
  have root: "children_of (core_tree c) ''/'' = {keeper_system_path}"
  proof -
    have "p = keeper_system_path" if "p \<noteq> ''/''" "parentNodePath p = Some ''/''" "c p \<noteq> None" for p
      using f(6) that system_not_root by fastforce
    then show ?thesis
      using parent_of_system system_not_root k unfolding children_of_def none by auto
  qed
  have leaf: "children_of (core_tree c) p = {}" if p: "parentNodePath p = Some keeper_system_path" for p
  proof -
    have "c q = None" if "parentNodePath q = Some p" for q
      using f(6) [of q] that system_child [OF p] parent_root parent_of_system by (cases "c q") auto
    then show ?thesis by (auto simp: children_of_def)
  qed
  have "node_ok (core_tree c) p (core n)" if n: "c p = Some n" for p n
  proof -
    have eph: "\<not> isEphemeral n" "ephemeralOwner n = 0" using f(5) [OF n] by (simp_all add: ephemeralOwner_def)
    have parent: "\<exists>q m. parentNodePath p = Some q \<and> core_tree c q = Some m \<and> \<not> isEphemeral m"
      using f(6) [OF n] r(1) k parent_root parent_of_system f(5) by (auto simp: core_tree_apply)
    have "p \<noteq> keeper_system_path \<Longrightarrow> numChildren n = int (card (children_of (core_tree c) p))"
      using f(6) [OF n] r n root leaf by auto
    with eph parent show ?thesis by (simp add: node_ok_def)
  qed
  moreover have "c [] = None" using kids_okD(1) [OF f(7), of "[]"] by (cases "c []") auto
  ultimately show ?thesis
    unfolding tree_inv_def using f(1,5) k by (auto simp: core_tree_apply core_tree_def dom_def)
qed

lemma fresh_acl_ok:
  assumes "fresh_container (container st)" and "acl_map st = ACLMap_init"
  shows "acl_ok st"
proof -
  have "{p. map_option n_acl_id (container st p) = Some a} = {}" if "a \<noteq> 0" for a
    using fresh_containerD(4) [OF assms(1)] that by auto
  then have "acl_users (container st) a = 0" if "a \<noteq> 0" for a
    using that unfolding acl_users_def by (metis card.empty)
  then have "acl_counts ACLMap_init (acl_users (container st))"
    by (simp add: acl_counts_def ACLMap_init_def)
  with assms acl_inv_init fresh_containerD(1) show ?thesis by (simp add: acl_ok_def)
qed

subsection \<open>The constructor\<close>

lemma insert_system_node_fresh:
  assumes f: "fresh_container (container st)" and p: "sys_nodes_ok [(p, d)]"
  shows "\<exists>c. insert_system_node st (p, d) = Inr (st\<lparr>container := c\<rparr>) \<and> fresh_container c"
proof -
  let ?c = "container st" and ?b = "getBaseNodeName p" and ?n = "setData d Node_default"
  have pp: "canonical p" "parentNodePath p = Some keeper_system_path" "p \<noteq> keeper_system_path" "p \<noteq> ''/''"
    using p system_child by (auto simp: sys_nodes_ok_def)
  note fr = fresh_containerD [OF f]
  obtain k where k: "?c keeper_system_path = Some k" using fr(3) by auto
  show ?thesis
  proof (cases "?c p")
    case None
    let ?c' = "?c(p \<mapsto> ?n, keeper_system_path \<mapsto> addChild ?b k)"
    have "insert_system_node st (p, d) = Inr (st\<lparr>container := ?c'\<rparr>)"
      using None k pp by (simp add: insert_system_node_def container_insert_def updateValue_def)
    moreover have "kids_ok ?c'"
      using kids_ok_create [OF fr(7) pp(2) k None pp(1), of ?n] by (simp add: setData_def Node_default_def)
    then have "fresh_container ?c'"
      using fr(1,2,8) k pp system_not_root by (auto simp: fresh_container_def fresh_node_def [of p]
          setData_def Node_default_def isEphemeral_def numChildren_def split: if_splits)
    ultimately show ?thesis by blast
  next
    case (Some m)
    let ?c' = "?c(keeper_system_path \<mapsto> addChild ?b k)"
    have "insert_system_node st (p, d) = Inr (st\<lparr>container := ?c'\<rparr>)"
      using Some k pp by (simp add: insert_system_node_def container_insert_def updateValue_def)
    moreover have "child_at ?c keeper_system_path ?b" using Some pp by (auto simp: child_at_def)
    then have "?b \<in> set (n_children k)" using kids_okD(4) [OF fr(7) k] by simp
    then have "kids_ok ?c'" using k by (intro kids_ok_same fr(7)) (simp add: addChild_def hs_insert_def)
    then have "fresh_container ?c'"
      using fr(8) k system_not_root by (intro fresh_container_upd [OF f]) simp_all
    ultimately show ?thesis by blast
  qed
qed

lemma insert_system_nodes_fresh:
  "fresh_container (container st) \<Longrightarrow> sys_nodes_ok ps \<Longrightarrow>
   \<exists>c. rfold insert_system_node st ps = Inr (st\<lparr>container := c\<rparr>) \<and> fresh_container c"
proof (induction ps arbitrary: st)
  case Nil
  then show ?case by (auto intro: exI [of _ "container st"])
next
  case (Cons pd ps)
  obtain c where c: "insert_system_node st pd = Inr (st\<lparr>container := c\<rparr>)" "fresh_container c"
    using insert_system_node_fresh [OF Cons.prems(1), of "fst pd" "snd pd"] Cons.prems(2)
    by (auto simp: sys_nodes_ok_def)
  with Cons.IH [of "st\<lparr>container := c\<rparr>"] Cons.prems(2) show ?case by (auto simp: sys_nodes_ok_def)
qed

lemma root_container_fresh:
  fixes k r :: Node
  assumes "k = Node_default" and "r = addChild ''keeper'' (increaseNumChildren Node_default)"
  shows "fresh_container [keeper_system_path \<mapsto> k, ''/'' \<mapsto> r]"
proof -
  have sys: "canonical keeper_system_path" "getBaseNodeName keeper_system_path = ''keeper''" by code_simp+
  have "kids_ok [''/'' \<mapsto> increaseNumChildren Node_default]"
    by (rule kids_okI)
      (auto simp: child_at_def parent_root increaseNumChildren_def Node_default_def split: if_splits)
  from kids_ok_create [OF this parent_of_system _ _ sys(1), of _ k] assms
  have "kids_ok [keeper_system_path \<mapsto> k, ''/'' \<mapsto> r]"
    using system_not_root by (simp add: sys(2) fun_upd_twist Node_default_def)
  then show ?thesis
    unfolding fresh_container_def fresh_node_def using assms system_not_root
    by (auto simp: Node_default_def addChild_def increaseNumChildren_def isEphemeral_def numChildren_def
        split: if_splits)
qed

subsection \<open>The initial storage\<close>

lemma no_pending:
  assumes "uncommitted_state st = UncommittedState_init"
  shows "pending_inv st" "view st = committed_tree st" "pending st = []"
  using assms by (simp_all add: pending_inv_def index_inv_def cache_inv_def entry_ok_def nonempty_def
      UncommittedState_init_def view_def committed_tree_def core_tree_apply uncommitted_getNode_def
      tryGetNodeFromStorage_def option.map_comp comp_def fun_eq_iff)

lemma fresh_keeper_inv:
  assumes "fresh_container (container st)" and "uncommitted_state st = UncommittedState_init"
    and "initialized st" and "ephemerals st = Map.empty" and "uncommitted_transactions st = []"
  shows "keeper_inv st []"
proof -
  note p = no_pending [OF assms(2)]
  have inv: "tree_inv (committed_tree st)" unfolding committed_tree_def by (rule fresh_tree_inv [OF assms(1)])
  have "eph_set (committed_tree st) sid = {}" if "sid \<noteq> 0" for sid
    using fresh_containerD(5) [OF assms(1)] that
    by (force simp: eph_set_def committed_node ephemeralOwner_def)
  then have "eph_ok (ephemerals st) (view st)" by (simp add: eph_ok_def eph_entry_def assms(4) p)
  with inv p assms show ?thesis by (simp add: keeper_inv_def sound_def)
qed

lemma digest_forms:
  "\<exists>dg. addDigest p n st = st\<lparr>nodes_digest := dg\<rparr>" "\<exists>dg. removeDigest p n st = st\<lparr>nodes_digest := dg\<rparr>"
  by (auto simp: addDigest_def removeDigest_def intro: exI [of _ "nodes_digest st"])

lemma insert_system_root_eq:
  assumes "container st keeper_system_path = None" and "container st ''/'' = Some root"
  shows "\<exists>dg. insert_system_root st = Inr (st\<lparr>container := (container st)(keeper_system_path \<mapsto> Node_default,
    ''/'' \<mapsto> addChild (getBaseNodeName keeper_system_path) (increaseNumChildren root)), nodes_digest := dg\<rparr>)"
proof -
  let ?root' = "addChild (getBaseNodeName keeper_system_path) (increaseNumChildren root)"
  let ?s1 = "st\<lparr>container := (container st)(keeper_system_path \<mapsto> Node_default)\<rparr>"
  obtain d1 where d1: "addDigest keeper_system_path Node_default ?s1 = ?s1\<lparr>nodes_digest := d1\<rparr>"
    using digest_forms(1) by blast
  obtain d2 where d2: "removeDigest ''/'' root (?s1\<lparr>nodes_digest := d1\<rparr>) = ?s1\<lparr>nodes_digest := d2\<rparr>"
    using digest_forms(2) [of "''/''" root "?s1\<lparr>nodes_digest := d1\<rparr>"] by auto
  let ?s2 = "?s1\<lparr>nodes_digest := d2, container := (container ?s1)(''/'' \<mapsto> ?root')\<rparr>"
  obtain d3 where d3: "addDigest ''/'' ?root' ?s2 = ?s2\<lparr>nodes_digest := d3\<rparr>"
    using digest_forms(1) by blast
  have "updateValue ''/'' (\<lambda>_. ?root') (?s1\<lparr>nodes_digest := d2\<rparr>) = Inr ?s2"
    using assms(2) system_not_root by (simp add: updateValue_def)
  then have "insert_system_root st = Inr (?s2\<lparr>nodes_digest := d3\<rparr>)"
    using assms d1 d2 d3 system_not_root by (simp add: insert_system_root_def container_insert_def Let_def)
  then show ?thesis by (intro exI [of _ d3]) simp
qed

lemma KeeperStorage_init_ok:
  assumes "sys_nodes_ok (systemNodesWithData kc)"
  shows "\<exists>st. KeeperStorage_init tick sd kc True = Inr st \<and> keeper_inv st [] \<and> contents_ok st \<and>
    expiry_inv (session_expiry_queue st) \<and>
    watch_inv (watches st) (list_watches st) (sessions_and_watchers st) \<and>
    keeper_context st = kc \<and> storage_zxid st = 0 \<and> old_snapshot_zxid st = 0 \<and>
    session_id_counter st = 1 \<and> session_and_timeout st = Map.empty \<and> \<not> finalized st \<and>
    (\<forall>s. session_to_expiration_time (session_expiry_queue st) s = None)"
proof -
  let ?k = "Node_default" and ?r = "addChild ''keeper'' (increaseNumChildren Node_default)"
  let ?f = "KeeperStorage_fields tick sd kc"
  define st0 where "st0 = addDigest ''/'' Node_default (container_insert ''/'' Node_default ?f)"
  have fields: "container ?f = Map.empty" "uncommitted_state ?f = UncommittedState_init" "initialized ?f = False"
      "ephemerals ?f = Map.empty" "uncommitted_transactions ?f = []" "acl_map ?f = ACLMap_init"
      "session_expiry_queue ?f = SessionExpiryQueue_init tick" "watches ?f = Map.empty"
      "list_watches ?f = Map.empty" "sessions_and_watchers ?f = Map.empty" "keeper_context ?f = kc"
      "storage_zxid ?f = 0" "old_snapshot_zxid ?f = 0" "session_id_counter ?f = 1" "session_and_timeout ?f = Map.empty"
      "finalized ?f = False"
    by (simp_all add: KeeperStorage_fields_def)
  have "getBaseNodeName keeper_system_path = ''keeper''" by code_simp
  moreover obtain d0 where st0: "st0 = ?f\<lparr>container := [''/'' \<mapsto> Node_default], nodes_digest := d0\<rparr>"
    using digest_forms(1) [of "''/''" Node_default "container_insert ''/'' Node_default ?f"]
    by (auto simp: st0_def container_insert_def fields)
  ultimately obtain dg where st1: "insert_system_root st0 =
      Inr (?f\<lparr>container := [keeper_system_path \<mapsto> ?k, ''/'' \<mapsto> ?r], nodes_digest := dg\<rparr>)"
    using insert_system_root_eq [of st0 Node_default] system_not_root by (auto simp: st0 fun_upd_twist)
  let ?st1 = "?f\<lparr>container := [keeper_system_path \<mapsto> ?k, ''/'' \<mapsto> ?r], nodes_digest := dg\<rparr>"
  have "fresh_container (container ?st1)" using root_container_fresh [OF refl refl] by simp
  then obtain c where c: "rfold insert_system_node ?st1 (systemNodesWithData kc) = Inr (?st1\<lparr>container := c\<rparr>)"
      "fresh_container c"
    using insert_system_nodes_fresh [OF _ assms] by blast
  define st where "st = ?f\<lparr>container := c, nodes_digest := dg, initialized := True\<rparr>"
  have "initialized st0 = False" by (simp add: st0 fields)
  then have init: "KeeperStorage_init tick sd kc True = Inr st"
    using st1 c(1) by (simp add: KeeperStorage_init_def initializeSystemNodes_def st0_def [symmetric] fields st_def)
  have st: "container st = c" "uncommitted_state st = UncommittedState_init" "initialized st"
      "ephemerals st = Map.empty" "uncommitted_transactions st = []" "acl_map st = ACLMap_init"
    by (simp_all add: st_def fields)
  have "keeper_inv st []" "contents_ok st"
    using fresh_keeper_inv [of st] fresh_acl_ok [of st] fresh_containerD(7) [OF c(2)] c(2) st
    by (simp_all add: contents_ok_def)
  moreover have "expiry_inv (session_expiry_queue st)" by (simp add: st_def fields expiry_inv_init)
  ultimately show ?thesis
    using init by (simp add: st_def fields watch_inv_def bucket_def SessionExpiryQueue_init_def)
qed

end
