(* ===== verification/RequestForm.thy ===== *)
theory RequestForm
  imports KeeperInitial
begin

text \<open>
  The form of requests that clients send: absolute paths without empty components. The server does
  not check it; what it guarantees about the contents of the storage depends on it. Requests of this
  form create canonical paths only, and their access check has an answer.
\<close>

fun well_formed_body :: "'r request_class \<Rightarrow> bool" where
  "well_formed_body (CreateRequest c) \<longleftrightarrow>
     canonical (cr_path c @ (if cr_is_sequential c then ''0'' else []))"
| "well_formed_body (RemoveRequest p ver) \<longleftrightarrow> CHR ''/'' \<in> set p"
| "well_formed_body (SetRequest p new_data ver) \<longleftrightarrow> CHR ''/'' \<in> set p"
| "well_formed_body (CheckRequest ck) \<longleftrightarrow> CHR ''/'' \<in> set (ck_path ck)"
| "well_formed_body _ \<longleftrightarrow> True"

definition well_formed :: "ZooKeeperRequest \<Rightarrow> bool" where
  "well_formed req =
     (case body req of
        MultiRequest ty rs \<Rightarrow> \<forall>r\<in>set rs. well_formed_body (body r)
      | b \<Rightarrow> well_formed_body b)"

subsection \<open>Created paths\<close>

lemma no_double_slash_append:
  "no_double_slash p \<Longrightarrow> CHR ''/'' \<notin> set s \<Longrightarrow> no_double_slash (p @ s)"
proof (induction p rule: no_double_slash.induct)
  case 1
  then show ?case by (induction s rule: no_double_slash.induct) auto
next
  case (2 a)
  then show ?case by (cases s; induction s rule: no_double_slash.induct) auto
qed simp

lemma no_double_slash_prefix: "no_double_slash (p @ s) \<Longrightarrow> no_double_slash p"
  by (induction p rule: no_double_slash.induct) auto

lemma decimal_not_Nil: "decimal n \<noteq> []"
  by (simp add: decimal.simps [of n])

lemma seq_num_str_not_Nil: "seq_num_str k \<noteq> []"
  by (simp add: seq_num_str_def print_int_def decimal_not_Nil Let_def)

lemma canonical_numbered:
  assumes "canonical (p @ ''0'')"
  shows "canonical (p @ seq_num_str k)"
proof -
  have c: "hd (p @ ''0'') = CHR ''/''" "no_double_slash (p @ ''0'')"
    using assms by (cases p; simp add: canonical_def)+
  have p: "p \<noteq> []" "hd p = CHR ''/''" using c(1) by (cases p; simp)+
  have nd: "no_double_slash p" by (rule no_double_slash_prefix [OF c(2)])
  have "last (p @ seq_num_str k) \<noteq> CHR ''/''"
    using seq_num_str_not_Nil [of k] seq_num_str_no_slash [of k] by (metis last_appendR last_in_set)
  then show ?thesis
    using p no_double_slash_append [OF nd seq_num_str_no_slash] by (simp add: canonical_def)
qed

lemma created_canonical:
  assumes "block_for z b ds t" and "well_formed_body b"
  shows "canonical_creates ds"
proof -
  consider "created_by b ds" | "error_block z ds" using assms(1) unfolding block_for_def by blast
  then show ?thesis
  proof cases
    case 1
    then show ?thesis
      unfolding canonical_creates_def created_by_def
      using assms(2) canonical_numbered by (fastforce split: if_splits)
  next
    case 2
    then show ?thesis by (auto simp: error_block_def canonical_creates_def mkError_def is_create_op_def)
  qed
qed

lemma sub_blocks_canonical:
  "sub_blocks z rs ds t \<Longrightarrow> \<forall>r\<in>set rs. well_formed_body (body r) \<Longrightarrow> canonical_creates ds"
proof (induction rs arbitrary: ds t)
  case Nil
  then show ?case by (simp add: canonical_creates_def)
next
  case (Cons r rs)
  then obtain b rest t1 where ds: "ds = b @ mkDelta [] z SubDeltaEnd # rest" "block_for z (body r) b t1"
      "sub_blocks z rs rest t1" by auto
  have "canonical_creates b" using created_canonical [OF ds(2)] Cons.prems(2) by simp
  moreover have "canonical_creates rest" using Cons.IH [OF ds(3)] Cons.prems(2) by simp
  ultimately show ?case
    unfolding ds(1) by (auto simp: canonical_creates_def mkDelta_def is_create_op_def)
qed

lemma tx_canonical:
  assumes "tx_ok z req ds t t1" and "well_formed req"
  shows "canonical_creates ds"
proof (cases "\<exists>ty rs. body req = MultiRequest ty rs")
  case True
  then obtain ty rs where b: "body req = MultiRequest ty rs" by blast
  with assms have "sub_blocks z rs ds t \<or> failed_multi z (length rs) ds \<or> ds = [mkError z ZNOAUTH]"
      "\<forall>r\<in>set rs. well_formed_body (body r)"
    by (simp_all add: tx_ok_def well_formed_def)
  then show ?thesis
    using sub_blocks_canonical [of z rs ds t]
    by (auto simp: failed_multi_def canonical_creates_def mkError_def mkDelta_def is_create_op_def)
next
  case False
  then have "block_for z (body req) ds t1" "well_formed_body (body req)"
    using assms by (cases "body req"; simp add: tx_ok_def well_formed_def)+
  then show ?thesis by (rule created_canonical)
qed

lemma well_formed_slashes: "well_formed req \<Longrightarrow> has_slashes req"
proof -
  have *: "well_formed_body b \<Longrightarrow> \<not> no_slash b" for b :: RequestBody
    by (cases b) (auto simp: no_slash_def dest: canonical_slash split: if_splits)
  show "well_formed req \<Longrightarrow> has_slashes req"
    using * [of "body req"] *
    by (cases "body req") (auto simp: well_formed_def has_slashes_def)
qed

subsection \<open>Access checks have an answer\<close>

lemma checkACL_returns:
  assumes "contents_ok st"
  shows "\<exists>ok. checkACL st p permission sid is_local = Inr ok"
proof -
  have "\<exists>acls. getNodeACLs st p is_local = Inr acls"
    using acl_resolves [of st p] assms
    by (auto simp: getNodeACLs_def uncommitted_getACLs_def contents_ok_def split: option.split)
  then show ?thesis by (auto simp: checkACL_def Let_def)
qed

lemma checkACL_parent_returns:
  assumes "contents_ok st" and "CHR ''/'' \<in> set p"
  shows "\<exists>ok. checkACL_parent st p permission sid is_local = Inr ok"
proof -
  obtain q where "parentNodePath p = Some q" using assms(2) parentNodePath_None [of p] by (cases "parentNodePath p") auto
  then show ?thesis using checkACL_returns [OF assms(1)] by (simp add: checkACL_parent_def)
qed

lemma checkAuth_simple_returns:
  assumes "contents_ok st" and "well_formed_body (body req)"
  shows "\<exists>ok. checkAuth_simple st req sid is_local = Inr ok"
proof -
  note returns = checkACL_returns [OF assms(1)] checkACL_parent_returns [OF assms(1)]
  show ?thesis
  proof (cases "body req")
    case (CreateRequest c)
    then have "CHR ''/'' \<in> set (cr_path c)"
      using assms(2) canonical_slash [of "cr_path c @ (if cr_is_sequential c then ''0'' else [])"]
      by (auto split: if_splits)
    then show ?thesis using returns(2) CreateRequest by (simp add: checkAuth_simple_def)
  qed (use assms(2) returns in \<open>auto simp: checkAuth_simple_def\<close>)
qed

lemma checkAuth_all_returns:
  assumes "contents_ok st" and "\<forall>r\<in>set rs. well_formed_body (body r)"
  shows "\<exists>ok. checkAuth_all st rs sid is_local = Inr ok"
  using assms(2)
proof (induction rs)
  case (Cons r rs)
  obtain ok where "checkAuth_simple st r sid is_local = Inr ok"
    using checkAuth_simple_returns [OF assms(1), of r sid is_local] Cons.prems by auto
  with Cons show ?case by (cases ok) auto
qed auto

lemma checkAuth_returns:
  assumes "contents_ok st" and "well_formed req"
  shows "\<exists>ok. checkAuth st req sid is_local = Inr ok"
  using checkAuth_all_returns [OF assms(1)] checkAuth_simple_returns [OF assms(1), of req] assms(2)
  by (cases "body req") (simp_all add: checkAuth_def well_formed_def)

end
