(* ===== verification/KeeperEffects.thy ===== *)
theory KeeperEffects
  imports RequestForm
begin

text \<open>
  The effects of the entry points on the rest of the storage: the watch index and the session queue
  stay consistent, preprocessing touches only the uncommitted part and the map of ephemeral nodes,
  and local reads change nothing but watches and sessions.
\<close>

subsection \<open>Sessions and watches\<close>

definition sessions_ok :: "KeeperStorage \<Rightarrow> bool" where
  "sessions_ok st \<longleftrightarrow>
     expiry_inv (session_expiry_queue st) \<and>
     watch_inv (watches st) (list_watches st) (sessions_and_watchers st)"

definition lasting :: "KeeperStorage \<Rightarrow> KeeperStorage \<Rightarrow> bool" where
  "lasting st st' \<longleftrightarrow>
     finalized st' = finalized st \<and> old_snapshot_zxid st' = old_snapshot_zxid st \<and>
     superdigest st' = superdigest st \<and> keeper_context st' = keeper_context st \<and>
     initialized st' = initialized st \<and> session_id_counter st' = session_id_counter st"

lemma lasting_refl [simp]: "lasting st st"
  by (simp add: lasting_def)

lemma lasting_trans: "lasting st st1 \<Longrightarrow> lasting st1 st2 \<Longrightarrow> lasting st st2"
  by (simp add: lasting_def)

lemma lasting_side: "side st st' \<Longrightarrow> lasting st st'"
  by (elim sideE) (simp add: lasting_def)

lemma lasting_commits: "commits st st' \<Longrightarrow> lasting st st'"
  by (elim commitsE) (simp add: lasting_def)

lemma commits_sessions: "commits st st' \<Longrightarrow> sessions_ok st' = sessions_ok st"
  by (simp add: sessions_ok_def commits_frame)

definition keeps_sessions :: "KeeperStorage \<Rightarrow> KeeperStorage \<Rightarrow> bool" where
  "keeps_sessions st st' \<longleftrightarrow> lasting st st' \<and> (sessions_ok st \<longrightarrow> sessions_ok st')"

lemma keeps_sessions_refl [simp]: "keeps_sessions st st"
  by (simp add: keeps_sessions_def)

lemma keeps_sessions_trans [trans]:
  "keeps_sessions st st1 \<Longrightarrow> keeps_sessions st1 st2 \<Longrightarrow> keeps_sessions st st2"
  unfolding keeps_sessions_def by (blast intro: lasting_trans)

lemma keeps_sessions_commits: "commits st st' \<Longrightarrow> keeps_sessions st st'"
  using lasting_commits [of st st'] commits_sessions [of st st'] by (simp add: keeps_sessions_def)

lemma keeps_sessions_watching:
  assumes "watching st st'"
    and "watch_inv (watches st) (list_watches st) (sessions_and_watchers st) \<Longrightarrow>
      watch_inv (watches st') (list_watches st') (sessions_and_watchers st')"
  shows "keeps_sessions st st'"
  using assms lasting_side [OF watching_side [OF assms(1)]] watching_frame(1) [OF assms(1)]
  by (simp add: keeps_sessions_def sessions_ok_def)

lemma register_watch_keeps: "keeps_sessions st (register_watch req sid e st)"
proof (rule keeps_sessions_watching [OF register_watch_watching])
  let ?p = "getPath req"
  obtain ws sw where d: "add_watch ?p sid (watches st, sessions_and_watchers st) = (ws, sw)" by fastforce
  obtain lws lsw where l: "add_watch ?p sid (list_watches st, sessions_and_watchers st) = (lws, lsw)" by fastforce
  assume "watch_inv (watches st) (list_watches st) (sessions_and_watchers st)"
  note w = watch_inv_add(1) [OF this d] watch_inv_add(2) [OF this l] this
  show "watch_inv (watches (register_watch req sid e st)) (list_watches (register_watch req sid e st))
      (sessions_and_watchers (register_watch req sid e st))"
    using w by (simp add: register_watch_def Let_def d l)
qed

lemma fire_keeps:
  assumes "rbind (processWatchesImpl p (watches st) (list_watches st) ev)
      (\<lambda>(rs, ws, lws). Inr (rs, st\<lparr>watches := ws, list_watches := lws\<rparr>)) = Inr (rs, st')"
  shows "keeps_sessions st st'"
proof (rule keeps_sessions_watching [OF watches_watching [OF assms]])
  obtain rs' ws lws where w: "processWatchesImpl p (watches st) (list_watches st) ev = Inr (rs', ws, lws)"
      "st' = st\<lparr>watches := ws, list_watches := lws\<rparr>"
    using assms by auto
  assume "watch_inv (watches st) (list_watches st) (sessions_and_watchers st)"
  then show "watch_inv (watches st') (list_watches st') (sessions_and_watchers st')"
    using processWatchesImpl_subset [OF w(1)] w(2) watch_inv_subset by simp
qed

lemma processWatches_simple_keeps: "processWatches_simple st req = Inr (rs, st') \<Longrightarrow> keeps_sessions st st'"
  by (cases "body req") (simp_all add: processWatches_simple_def Let_def fire_keeps)

lemma multi_processWatches_keeps: "multi_processWatches st reqs = Inr (rs, st') \<Longrightarrow> keeps_sessions st st'"
proof (induction reqs arbitrary: st rs)
  case (Cons r reqs)
  then obtain rs1 st1 rs2 where "processWatches_simple st r = Inr (rs1, st1)"
      "multi_processWatches st1 reqs = Inr (rs2, st')" by auto
  with Cons.IH show ?case using processWatches_simple_keeps keeps_sessions_trans by blast
qed simp

lemma processWatches_keeps: "processWatches st req = Inr (rs, st') \<Longrightarrow> keeps_sessions st st'"
  using multi_processWatches_keeps processWatches_simple_keeps
  by (cases "body req") (simp_all add: processWatches_def)

lemma close_watches_keeps: "close_watches z ds st = Inr (rs, st') \<Longrightarrow> keeps_sessions st st'"
proof (induction ds arbitrary: st rs)
  case (Cons d ds)
  show ?case
  proof (cases "z < d_zxid d")
    case False
    then obtain rs1 st1 rs2 where 1: "(case d_operation d of
             RemoveNodeDelta ver ow \<Rightarrow>
               rbind (processWatchesImpl (d_path d) (watches st) (list_watches st) DELETED)
                 (\<lambda>(rs, ws, lws). Inr (rs, st\<lparr>watches := ws, list_watches := lws\<rparr>))
           | _ \<Rightarrow> Inr ([], st)) = Inr (rs1, st1)" "close_watches z ds st1 = Inr (rs2, st')"
      using Cons.prems by auto
    have "keeps_sessions st st1" using 1(1) fire_keeps by (cases "d_operation d") auto
    with Cons.IH [OF 1(2)] show ?thesis using keeps_sessions_trans by blast
  qed (use Cons.prems in simp)
qed simp

lemma clearDeadWatches_keeps: "keeps_sessions st (clearDeadWatches sid st)"
  using keeps_sessions_watching [OF clearDeadWatches_watching] clearDeadWatches_clears
  by (metis (no_types, lifting))

lemma touch_session_keeps:
  assumes "touch_session now sid st = Inr st'"
  shows "keeps_sessions st st'"
proof -
  have "watches st' = watches st" "list_watches st' = list_watches st"
      "sessions_and_watchers st' = sessions_and_watchers st"
    using assms by (auto simp: touch_session_def Let_def)
  then show ?thesis
    using touch_session_returns [of st now sid] assms lasting_side [OF touch_session_side [OF assms]]
    by (auto simp: keeps_sessions_def sessions_ok_def)
qed

subsection \<open>Local requests\<close>

lemma read_process_local:
  "read_process True st z req = Some (Inr (resp, st')) \<Longrightarrow> st' = st"
  by (cases "body req")
    (auto simp: read_process_def get_processImpl_def exists_processImpl_def list_processImpl_def
      check_processImpl_def getacl_processImpl_def commit_then_def read_error_def Let_def
      split: if_splits option.splits)

lemma processLocal_simple_same: "processLocal_simple st z req = Inr (resp, st') \<Longrightarrow> st' = st"
  by (cases "read_process True st z req") (simp_all add: processLocal_simple_def read_process_local)

lemma multi_processLocal_same: "multi_processLocal st z rs = Inr (resps, st') \<Longrightarrow> st' = st"
proof (induction rs arbitrary: resps)
  case (Cons r rs)
  then obtain resp st1 resps' where 1: "processLocal_simple st z r = Inr (resp, st1)"
      "multi_processLocal st1 z rs = Inr (resps', st')" by auto
  from processLocal_simple_same [OF 1(1)] 1(2) Cons.IH show ?case by blast
qed simp

lemma processLocal_same: "processLocal st z req = Inr (resp, st') \<Longrightarrow> st' = st"
  using multi_processLocal_same processLocal_simple_same
  by (cases "body req") (auto simp: processLocal_def)

subsection \<open>Processing a request\<close>

lemma process_close_keeps:
  assumes "process_close req sid st = Inr (out, st')"
  shows "keeps_sessions st st'"
proof -
  let ?z = "storage_zxid st"
  obtain e st1 rs st2 st3 q b where s: "storage_commit ?z st = Inr (e, st1)"
      "close_watches ?z (pending st1) st1 = Inr (rs, st2)" "commit_uncommitted ?z st2 = Inr st3"
      "remove (session_expiry_queue (clearDeadWatches sid st3)) sid = Inr (q, b)"
      "st' = (clearDeadWatches sid st3)\<lparr>session_and_auth := (session_and_auth (clearDeadWatches sid st3))(sid := None),
         session_expiry_queue := q,
         session_and_timeout := (session_and_timeout (clearDeadWatches sid st3))(sid := None)\<rparr>"
    using assms by (auto simp: process_close_def Let_def)
  have "keeps_sessions st st1" by (rule keeps_sessions_commits [OF commits_storage_commit [OF s(1)]])
  also have "keeps_sessions st1 st2" by (rule close_watches_keeps [OF s(2)])
  also have "keeps_sessions st2 st3" by (rule keeps_sessions_commits [OF commits_commit_uncommitted [OF s(3)]])
  also have "keeps_sessions st3 (clearDeadWatches sid st3)" by (rule clearDeadWatches_keeps)
  also have "keeps_sessions (clearDeadWatches sid st3) st'"
    using remove_correct [of "session_expiry_queue (clearDeadWatches sid st3)" sid] s(4)
    unfolding s(5) by (auto simp: keeps_sessions_def sessions_ok_def lasting_def)
  finally show ?thesis .
qed

lemma process_normal_keeps:
  assumes "process_normal req sid check_acl is_local st = Inr (out, st')"
  shows "keeps_sessions st st'"
proof -
  obtain resp st1 ws where s: "(if is_local then
           rbind (if check_acl then checkAuth st req sid True else Inr True) (\<lambda>authorised.
             if authorised then processLocal st (storage_zxid st) req
             else Inr (with_error ZNOAUTH (makeResponse req), st))
         else
           rbind (process st (storage_zxid st) req) (\<lambda>(response, st2).
             rbind (commit_uncommitted (storage_zxid st) st2) (\<lambda>st2. Inr (response, st2)))) = Inr (resp, st1)"
      "(if resp_error resp = ZOK then processWatches (register_watch req sid (resp_error resp) st1) req
        else Inr ([], register_watch req sid (resp_error resp) st1)) = Inr (ws, st')"
    using assms by (auto simp: process_normal_def Let_def split del: if_split)
  have "keeps_sessions st st1"
  proof (cases is_local)
    case True
    then have "st1 = st" using s(1) processLocal_same by (fastforce split: if_splits)
    then show ?thesis by simp
  next
    case False
    then obtain st2 where "process st (storage_zxid st) req = Inr (resp, st2)"
        "commit_uncommitted (storage_zxid st) st2 = Inr st1" using s(1) by auto
    then show ?thesis
      using keeps_sessions_trans [OF keeps_sessions_commits [OF commits_process]
          keeps_sessions_commits [OF commits_commit_uncommitted]] by blast
  qed
  also have "keeps_sessions st1 (register_watch req sid (resp_error resp) st1)" by (rule register_watch_keeps)
  also have "keeps_sessions (register_watch req sid (resp_error resp) st1) st'"
    using s(2) processWatches_keeps by (auto split: if_splits)
  finally show ?thesis .
qed

lemma processRequest_keeps:
  assumes "processRequest now req sid z check_acl is_local st = Inr (out, st')"
  shows "keeps_sessions st st'"
proof -
  obtain st1 st2 where s: "begin_commit z st = Inr st1" "touch_session now sid st1 = Inr st2"
      "(if getOpNum req = OpClose then process_close req sid st2
        else if getOpNum req = OpHeartbeat then
          Inr ([\<lparr>rs_session_id = sid,
                 rs_response = with_ids (xid req) (storage_zxid st2) (makeResponse req)\<rparr>], st2)
        else process_normal req sid check_acl is_local st2) = Inr (out, st')"
    using assms by (cases "initialized st") (auto simp: processRequest_def split del: if_split)
  have "keeps_sessions st st1"
    using s(1) by (auto simp: begin_commit_def keeps_sessions_def lasting_def sessions_ok_def
        split: option.splits list.splits if_splits)
  also have "keeps_sessions st1 st2" by (rule touch_session_keeps [OF s(2)])
  also have "keeps_sessions st2 st'"
    using s(3) process_close_keeps process_normal_keeps by (auto split: if_splits)
  finally show ?thesis .
qed

subsection \<open>Preprocessing and rolling back\<close>

definition prepares :: "KeeperStorage \<Rightarrow> KeeperStorage \<Rightarrow> bool" where
  "prepares st st' \<longleftrightarrow>
     st' = st\<lparr>uncommitted_state := uncommitted_state st', ephemerals := ephemerals st',
       uncommitted_transactions := uncommitted_transactions st'\<rparr>"

lemma preparesI:
  "st' = st\<lparr>uncommitted_state := a, ephemerals := b, uncommitted_transactions := c\<rparr> \<Longrightarrow> prepares st st'"
  by (simp add: prepares_def)

lemma preparesE:
  assumes "prepares st st'"
  obtains a b c where "st' = st\<lparr>uncommitted_state := a, ephemerals := b, uncommitted_transactions := c\<rparr>"
  using assms that unfolding prepares_def by blast

lemma prepares_refl [simp]: "prepares st st"
  by (simp add: prepares_def)

lemma prepares_trans [trans]: "prepares st st1 \<Longrightarrow> prepares st1 st2 \<Longrightarrow> prepares st st2"
  by (elim preparesE) (rule preparesI, simp)

lemma prepares_frame:
  assumes "prepares st st'"
  shows "container st' = container st" "acl_map st' = acl_map st" "lasting st st'"
    "sessions_ok st' = sessions_ok st" "storage_zxid st' = storage_zxid st" "contents_ok st' = contents_ok st"
    "session_and_timeout st' = session_and_timeout st"
  using assms by (elim preparesE; simp add: lasting_def sessions_ok_def contents_ok_def acl_ok_def)+

lemma prepares_add_deltas: "add_deltas ds st = Inr st' \<Longrightarrow> prepares st st'"
  by (auto simp: add_deltas_def prepares_def)

lemma finish_preprocess_effect:
  assumes "finish_preprocess z log_idx (st, dg, ds) = Inr st'"
  shows "prepares st st' \<and> (\<exists>i. ti_zxid i = z \<and> ti_log_idx i = log_idx \<and>
    uncommitted_transactions st' = uncommitted_transactions st @ [i])"
  using assms by (auto simp: finish_preprocess_def Let_def add_deltas_def prepares_def)

lemma preprocess_new_effect:
  assumes "keeper_inv st xs" and "getNextZXID st \<le> z" and "sid \<noteq> 0"
    and "preprocess_new req sid time z check_acl log_idx st = Inr st'"
  shows "prepares st st' \<and> (\<exists>i. ti_zxid i = z \<and> ti_log_idx i = log_idx \<and>
    uncommitted_transactions st' = uncommitted_transactions st @ [i])"
proof -
  let ?dg = "dg_value (getNodesDigest st False)"
  obtain r where r: "finish_preprocess z log_idx r = Inr st'"
    "(if getOpNum req = OpClose then close_preprocess st z sid ?dg
      else rbind (if check_acl then checkAuth st req sid False else Inr True) (\<lambda>authorised.
             if authorised then preprocess st z sid time ?dg req
             else Inr (push_noauth z st, ?dg, []))) = Inr r"
    using assms(4) by (auto simp: preprocess_new_def Let_def)
  obtain us e dg1 ds where p: "r = (st\<lparr>uncommitted_state := us, ephemerals := e\<rparr>, dg1, ds)"
    using preprocess_prepared [OF assms(1-3) r(2)] by (cases r) (auto simp: prepared_def)
  let ?st1 = "st\<lparr>uncommitted_state := us, ephemerals := e\<rparr>"
  have "prepares st ?st1" by (rule preparesI [where c = "uncommitted_transactions st"]) simp
  then show ?thesis
    using finish_preprocess_effect [OF r(1) [unfolded p]] prepares_trans [of st ?st1 st'] by simp
qed

lemma set_last_log_idx_effect: "prepares st (set_last_log_idx k st)"
  unfolding set_last_log_idx_def
  by (rule preparesI [where a = "uncommitted_state st" and b = "ephemerals st"]) simp

lemma prepares_undo_ephemeral: "undo_ephemeral d st = Inr st' \<Longrightarrow> prepares st st'"
  by (auto simp: undo_ephemeral_def registerEphemeralPath_def unregisterEphemeralPath_def prepares_def Let_def
      split: Operation.splits if_splits option.splits)

lemma prepares_rollback_loop: "rollback_loop z ds st = Inr st' \<Longrightarrow> prepares st st'"
proof (induction ds arbitrary: st)
  case Nil
  then show ?case by (auto simp: prepares_def)
next
  case (Cons d ds)
  show ?case
  proof (cases "d_zxid d < z")
    case True
    with Cons.prems show ?thesis by (auto simp: prepares_def)
  next
    case False
    then obtain st1 us where 1: "(if d_path d \<noteq> [] then undo_ephemeral d st else Inr st) = Inr st1"
        "rollback_loop z ds (st1\<lparr>uncommitted_state := us\<rparr>) = Inr st'"
      using Cons.prems by auto
    have "prepares st st1" using 1(1) prepares_undo_ephemeral by (auto split: if_splits)
    also have "prepares st1 (st1\<lparr>uncommitted_state := us\<rparr>)" by (simp add: prepares_def)
    also have "prepares \<dots> st'" by (rule Cons.IH [OF 1(2)])
    finally show ?thesis .
  qed
qed

lemma rollback_loop_transactions:
  "rollback_loop z ds st = Inr st' \<Longrightarrow> uncommitted_transactions st' = uncommitted_transactions st"
proof (induction ds arbitrary: st)
  case (Cons d ds)
  have "undo_ephemeral d st = Inr st1 \<Longrightarrow> uncommitted_transactions st1 = uncommitted_transactions st" for st1
    by (auto simp: undo_ephemeral_def registerEphemeralPath_def unregisterEphemeralPath_def Let_def
      split: Operation.splits if_splits option.splits)
  with Cons.prems Cons.IH show ?case by (fastforce split: if_splits)
qed auto

lemma rollbackRequest_effect:
  assumes "rollbackRequest z allow_missing st = Inr st'"
  shows "prepares st st' \<and> (uncommitted_transactions st' = butlast (uncommitted_transactions st) \<or>
    st' = st \<and> (uncommitted_transactions st = [] \<or> ti_zxid (last (uncommitted_transactions st)) < z))"
proof (cases "allow_missing \<and> (uncommitted_transactions st = [] \<or> ti_zxid (last (uncommitted_transactions st)) < z)")
  case False
  let ?st = "st\<lparr>uncommitted_transactions := butlast (uncommitted_transactions st)\<rparr>"
  obtain st1 us where 1: "rollback_loop z (rev (us_deltas (uncommitted_state ?st))) ?st = Inr st1"
      "st' = st1\<lparr>uncommitted_state := us\<rparr>"
    using assms False by (auto simp: rollbackRequest_def rollback_def Let_def split: if_splits sum.splits)
  have "prepares st ?st" by (simp add: prepares_def)
  also have "prepares ?st st1" by (rule prepares_rollback_loop [OF 1(1)])
  also have "prepares st1 st'" unfolding 1(2) by (simp add: prepares_def)
  finally show ?thesis using rollback_loop_transactions [OF 1(1)] 1(2) by simp
next
  case True
  then show ?thesis
    using assms by (auto simp: rollbackRequest_def Let_def)
qed

end
