(* ===== verification/KeeperReads.thy ===== *)
theory KeeperReads
  imports KeeperEffects
begin

text \<open>
  Local read requests: they are always answered, from the committed nodes, and they leave nodes,
  pending transactions and digests alone.
\<close>

definition read_body :: "'r request_class \<Rightarrow> bool" where
  "read_body b =
     (case b of
        ExistsRequest p \<Rightarrow> True
      | GetRequest p \<Rightarrow> True
      | ListRequest p \<Rightarrow> True
      | SimpleListRequest p \<Rightarrow> True
      | FilteredListRequest p t \<Rightarrow> True
      | CheckRequest c \<Rightarrow> True
      | GetACLRequest p \<Rightarrow> True
      | _ \<Rightarrow> False)"

text \<open>The read requests that reach the state machine: a multi request holds reads only.\<close>

definition read_request :: "ZooKeeperRequest \<Rightarrow> bool" where
  "read_request req \<longleftrightarrow>
     \<not> isl (get_processor req) \<and>
     (case body req of
        MultiRequest ty rs \<Rightarrow> ty = Some ReadOp \<and> (\<forall>r\<in>set rs. read_body (body r))
      | b \<Rightarrow> read_body b)"

lemma read_request_isReadRequest: "read_request req \<Longrightarrow> isReadRequest req"
  by (cases "body req") (auto simp: read_request_def read_body_def isReadRequest_def getOpNum_def)

lemma processLocal_simple_returns:
  assumes "contents_ok st" and "read_body (body req)"
  shows "\<exists>resp. processLocal_simple st z req = Inr (resp, st)"
proof -
  have k: "kids_ok (container st)" "acl_ok st" using assms(1) by (simp_all add: contents_ok_def)
  have root: "container st [] = None" using kids_okD(1) [OF k(1), of "[]"] by (cases "container st []") auto
  have list: "\<exists>resp. list_processImpl True st z mk p ty = Inr (resp, st)" for mk p ty
    using list_names_children [OF k(1), of p _ ty] root
    by (cases "container st p") (auto simp: list_processImpl_def commit_then_def read_error_def Let_def)
  have acl: "\<exists>resp. getacl_processImpl True st z p = Inr (resp, st)" for p
    using acl_resolves [OF k(2), of p]
    by (cases "container st p") (auto simp: getacl_processImpl_def commit_then_def read_error_def Let_def)
  have check: "\<exists>resp. check_processImpl True st z ck = Inr (resp, st)" for ck
    by (auto simp: check_processImpl_def commit_then_def read_error_def Let_def split: option.split)
  show ?thesis
    using assms(2) list acl check
    by (cases "body req")
      (auto simp: read_body_def processLocal_simple_def read_process_def get_processImpl_def exists_processImpl_def
        commit_then_def read_error_def Let_def split: option.split)
qed

lemma multi_processLocal_returns:
  assumes "contents_ok st" and "\<forall>r\<in>set rs. read_body (body r)"
  shows "\<exists>resps. multi_processLocal st z rs = Inr (resps, st) \<and> length resps = length rs"
  using assms(2)
proof (induction rs)
  case (Cons r rs)
  moreover obtain resp where "processLocal_simple st z r = Inr (resp, st)"
    using processLocal_simple_returns [OF assms(1), of r z] Cons.prems by auto
  ultimately show ?case by auto
qed simp

lemma processLocal_returns:
  assumes "contents_ok st" and "read_request req"
  shows "\<exists>resp. processLocal st z req = Inr (resp, st)"
proof (cases "\<exists>ty rs. body req = MultiRequest ty rs")
  case True
  then obtain ty rs where b: "body req = MultiRequest ty rs" by blast
  then show ?thesis
    using multi_processLocal_returns [OF assms(1), of rs z] assms(2)
    by (auto simp: processLocal_def read_request_def)
next
  case False
  then have "read_body (body req)" "processLocal st z req = processLocal_simple st z req"
    using assms(2) by (cases "body req"; simp add: read_request_def processLocal_def)+
  then show ?thesis using processLocal_simple_returns [OF assms(1)] by simp
qed

lemma processWatches_reads:
  assumes "read_request req"
  shows "processWatches st req = Inr ([], st)"
proof -
  have simple: "processWatches_simple st r = Inr ([], st)" if "read_body (body r)" for r
    using that by (cases "body r") (simp_all add: read_body_def processWatches_simple_def)
  have multi: "multi_processWatches st rs = Inr ([], st)" if "\<forall>r\<in>set rs. read_body (body r)" for rs
    using that simple by (induction rs) simp_all
  show ?thesis
    using assms simple [of req] multi by (cases "body req") (auto simp: read_request_def processWatches_def)
qed

lemma local_read_returns:
  assumes "initialized st" and "contents_ok st" and "sessions_ok st" and "read_request req" and "well_formed req"
  shows "\<exists>out st'. processRequest now req sid None True True st = Inr (out, st') \<and>
    length out = 1 \<and> reply_to req sid (storage_zxid st) out \<and> side st st'"
proof -
  obtain st1 where t: "touch_session now sid st = Inr st1" "side st st1"
    using touch_session_returns [of st now sid] touch_session_side assms(3) by (auto simp: sessions_ok_def)
  have c1: "contents_ok st1" using assms(2) side_frame [OF t(2)] by (simp add: contents_ok_def acl_ok_def)
  obtain ok where ok: "checkAuth st1 req sid True = Inr ok"
    using checkAuth_returns [OF c1 assms(5), of sid True] by auto
  obtain resp0 where p: "processLocal st1 (storage_zxid st1) req = Inr (resp0, st1)"
    using processLocal_returns [OF c1 assms(4)] by auto
  define resp where "resp = (if ok then resp0 else with_error ZNOAUTH (makeResponse req))"
  define st2 where "st2 = register_watch req sid (resp_error resp) st1"
  have "side st1 st2" unfolding st2_def by (rule watching_side [OF register_watch_watching])
  then have s2: "side st st2" using t(2) side_trans by blast
  have "process_normal req sid True True st1 =
      Inr ([\<lparr>rs_session_id = sid, rs_response = with_ids (xid req) (storage_zxid st2) resp\<rparr>], st2)"
    using ok p processWatches_reads [OF assms(4)] assms(4)
    by (cases "get_processor req") (auto simp: process_normal_def Let_def resp_def st2_def read_request_def)
  moreover have "getOpNum req \<noteq> OpClose" "getOpNum req \<noteq> OpHeartbeat"
    using assms(4) by (cases "body req"; simp add: read_request_def read_body_def getOpNum_def)+
  ultimately have "processRequest now req sid None True True st =
      Inr ([\<lparr>rs_session_id = sid, rs_response = with_ids (xid req) (storage_zxid st2) resp\<rparr>], st2)"
    using assms(1) t(1) by (simp add: processRequest_def begin_commit_def)
  then show ?thesis using s2 side_frame(6) [OF s2] by simp
qed

lemma local_read_side:
  assumes "processRequest now req sid None True True st = Inr (out, st')" and "read_request req"
  shows "side st st'"
proof -
  have op: "getOpNum req \<noteq> OpClose" "getOpNum req \<noteq> OpHeartbeat"
    using assms(2) by (cases "body req"; simp add: read_request_def read_body_def getOpNum_def)+
  then obtain st1 where st1: "touch_session now sid st = Inr st1" "process_normal req sid True True st1 = Inr (out, st')"
    using assms(1) by (auto simp: processRequest_def begin_commit_def split: if_splits)
  obtain resp st2 ws where s: "rbind (checkAuth st1 req sid True) (\<lambda>authorised.
        if authorised then processLocal st1 (storage_zxid st1) req
        else Inr (with_error ZNOAUTH (makeResponse req), st1)) = Inr (resp, st2)"
      "(if resp_error resp = ZOK then processWatches (register_watch req sid (resp_error resp) st2) req
        else Inr ([], register_watch req sid (resp_error resp) st2)) = Inr (ws, st')"
    using st1(2) by (auto simp: process_normal_def Let_def split del: if_split)
  have "st2 = st1" using s(1) processLocal_same by (fastforce split: if_splits)
  moreover have "st' = register_watch req sid (resp_error resp) st2"
    using s(2) processWatches_reads [OF assms(2)] by (auto split: if_splits)
  ultimately show ?thesis
    using side_trans [OF touch_session_side [OF st1(1)] watching_side [OF register_watch_watching]] by simp
qed

lemma side_keeper_inv:
  assumes "side st st'"
  shows "keeper_inv st' xs = keeper_inv st xs" "contents_ok st' = contents_ok st"
  using side_frame [OF assms]
  by (simp_all add: keeper_inv_def sound_def digest_offset_def contents_ok_def acl_ok_def)

subsection \<open>The list of children\<close>

lemma list_names_set:
  assumes "kids_ok c" and "c p = Some n"
  shows "\<exists>names. list_names c p ty (n_children n) = Inr names \<and> distinct names \<and>
    set names = {getBaseNodeName q |q m. q \<noteq> p \<and> parentNodePath q = Some p \<and> c q = Some m \<and> wanted ty m}"
proof -
  let ?names = "filter (\<lambda>b. wanted ty (the (c (fs_join p b)))) (n_children n)"
  have mem: "b \<in> set ?names \<longleftrightarrow>
      (\<exists>q m. b = getBaseNodeName q \<and> q \<noteq> p \<and> parentNodePath q = Some p \<and> c q = Some m \<and> wanted ty m)" for b
  proof -
    have b: "b \<in> set (n_children n) \<longleftrightarrow> child_at c p b" by (rule kids_okD(4) [OF assms])
    have join: "fs_join p b = q" if "q \<noteq> p" "parentNodePath q = Some p" "getBaseNodeName q = b" "c q = Some m" for q m
      using canonical_join [of q p] that kids_okD(1) [OF assms(1), of q] by simp
    show ?thesis
    proof
      assume a: "b \<in> set ?names"
      then obtain q m where q: "q \<noteq> p" "parentNodePath q = Some p" "getBaseNodeName q = b" "c q = Some m"
        using b unfolding child_at_def by auto
      with a join [OF q] show "\<exists>q m. b = getBaseNodeName q \<and> q \<noteq> p \<and> parentNodePath q = Some p \<and> c q = Some m \<and> wanted ty m"
        by (intro exI [of _ q] exI [of _ m]) auto
    next
      assume "\<exists>q m. b = getBaseNodeName q \<and> q \<noteq> p \<and> parentNodePath q = Some p \<and> c q = Some m \<and> wanted ty m"
      then obtain q m where q: "q \<noteq> p" "parentNodePath q = Some p" "getBaseNodeName q = b" "c q = Some m" "wanted ty m"
        by auto
      then have "child_at c p b" unfolding child_at_def by blast
      with b join [OF q(1-4)] q(4,5) show "b \<in> set ?names" by simp
    qed
  qed
  have "set ?names = {getBaseNodeName q |q m. q \<noteq> p \<and> parentNodePath q = Some p \<and> c q = Some m \<and> wanted ty m}"
    by (intro set_eqI iffI CollectI; unfold mem; blast)
  moreover have "distinct ?names" using kids_okD(3) [OF assms] by simp
  ultimately show ?thesis using list_names_children [OF assms, of ty] by blast
qed

end
