(* ===== verification/KeeperMachine.thy ===== *)
theory KeeperMachine
  imports KeeperReads
begin

text \<open>
  \<open>KeeperStateMachine\<close> (\<open>src/Coordination/KeeperStateMachine.cpp\<close>) and the events that
  \<open>KeeperServer::callbackFunc\<close> (\<open>KeeperServer.cpp\<close>) forwards to it. A log entry is modelled by the
  request that \<open>parseRequest\<close> reads from it; the cache of parsed requests, which only avoids
  parsing an entry twice, and the callback that reports commits are left out. The record holds the
  two fields of \<open>KeeperContext\<close> that the state machine writes.
\<close>

subsection \<open>State\<close>

record RequestForSession =
  rfs_session_id :: session
  rfs_time :: int
  rfs_request :: ZooKeeperRequest
  rfs_zxid :: zxid
  rfs_digest :: "Digest option"
  rfs_log_idx :: int

text \<open>\<open>responses_queue\<close> holds what was pushed, \<open>queue_finished\<close> is set at shutdown.\<close>

record KeeperStateMachine =
  storage :: KeeperStorage
  responses_queue :: "ResponseForSession list"
  queue_finished :: bool
  localLogsPreprocessed :: bool
  lastCommittedIndex :: int

definition KeeperStateMachine_init :: "KeeperStorage \<Rightarrow> KeeperStateMachine" where
  "KeeperStateMachine_init st =
     \<lparr>storage = st, responses_queue = [], queue_finished = False, localLogsPreprocessed = False,
      lastCommittedIndex = 0\<rparr>"

subsection \<open>Operations of the state machine\<close>

definition try_push :: "ResponseForSession \<Rightarrow> KeeperStateMachine \<Rightarrow> KeeperStateMachine" where
  "try_push r sm =
     (if queue_finished sm then sm else sm\<lparr>responses_queue := responses_queue sm @ [r]\<rparr>)"

text \<open>A digest that does not match terminates the server.\<close>

definition assertDigest :: "Digest \<Rightarrow> Digest \<Rightarrow> unit result" where
  "assertDigest expected actual =
     (if checkDigest expected actual then Inr () else Inl Storage_inconsistency)"

definition assert_entry_digest :: "RequestForSession \<Rightarrow> KeeperStorage \<Rightarrow> bool \<Rightarrow> unit result" where
  "assert_entry_digest r st committing =
     (case rfs_digest r of
        Some d \<Rightarrow>
          if digestEnabled (keeper_context st) then assertDigest d (getNodesDigest st committing)
          else Inr ()
      | None \<Rightarrow> Inr ())"

text \<open>An exception of the storage aborts the server.\<close>

definition sm_preprocess :: "RequestForSession \<Rightarrow> KeeperStateMachine \<Rightarrow>
    (bool \<times> KeeperStateMachine) result" where
  "sm_preprocess r sm =
     (let op_num = getOpNum (rfs_request r) in
      if op_num = OpSessionID \<or> op_num = OpReconfig then Inr (True, sm)
      else if finalized (storage sm) then Inr (False, sm)
      else
        (case preprocessRequest (rfs_request r) (rfs_session_id r) (rfs_time r) (rfs_zxid r) True
                (rfs_digest r) (rfs_log_idx r) (storage sm) of
           Inl _ \<Rightarrow> Inl Storage_inconsistency
         | Inr st \<Rightarrow>
             rbind (assert_entry_digest r st False) (\<lambda>_. Inr (True, sm\<lparr>storage := st\<rparr>))))"

text \<open>What every consumer of a log entry does first: a missing zxid is the index of the entry.\<close>

definition entry_zxid :: "int \<Rightarrow> RequestForSession \<Rightarrow> RequestForSession" where
  "entry_zxid log_idx r = (if rfs_zxid r = 0 then r\<lparr>rfs_zxid := log_idx\<rparr> else r)"

definition entry_at :: "int \<Rightarrow> RequestForSession \<Rightarrow> RequestForSession" where
  "entry_at log_idx r = (entry_zxid log_idx r)\<lparr>rfs_log_idx := log_idx\<rparr>"

definition pre_commit :: "int \<Rightarrow> RequestForSession \<Rightarrow> KeeperStateMachine \<Rightarrow>
    KeeperStateMachine result" where
  "pre_commit log_idx r sm =
     (if \<not> localLogsPreprocessed sm then Inr sm
      else rbind (sm_preprocess (entry_at log_idx r) sm) (\<lambda>(_, sm'). Inr sm'))"

definition commit_session_id :: "int \<Rightarrow> int \<Rightarrow> int \<Rightarrow> int \<Rightarrow> KeeperStateMachine \<Rightarrow>
    KeeperStateMachine result" where
  "commit_session_id now internal_id session_timeout_ms server_id sm =
     rbind (getSessionID now session_timeout_ms (storage sm)) (\<lambda>(sid, st).
       Inr (try_push
              \<lparr>rs_session_id = - 1,
               rs_response = fresh_response (SessionIDResponse internal_id sid server_id)\<rparr>
              (sm\<lparr>storage := st\<rparr>)))"

definition commit_request :: "int \<Rightarrow> RequestForSession \<Rightarrow> KeeperStateMachine \<Rightarrow>
    KeeperStateMachine result" where
  "commit_request now r sm =
     (case body (rfs_request r) of
        SessionIDRequest internal_id session_timeout_ms server_id \<Rightarrow>
          commit_session_id now internal_id session_timeout_ms server_id sm
      | _ \<Rightarrow>
          rbind (processRequest now (rfs_request r) (rfs_session_id r) (Some (rfs_zxid r)) True False
                   (storage sm)) (\<lambda>(responses, st).
            rbind (assert_entry_digest r st True) (\<lambda>_.
              Inr (fold try_push responses (sm\<lparr>storage := st\<rparr>)))))"

definition sm_commit :: "int \<Rightarrow> int \<Rightarrow> RequestForSession \<Rightarrow> KeeperStateMachine \<Rightarrow>
    KeeperStateMachine result" where
  "sm_commit now log_idx r sm =
     (let r = entry_at log_idx r in
      rbind (if localLogsPreprocessed sm then Inr (True, sm) else sm_preprocess r sm) (\<lambda>(ok, sm).
        if \<not> ok then Inr sm
        else rbind (commit_request now r sm) (\<lambda>sm. Inr (sm\<lparr>lastCommittedIndex := log_idx\<rparr>))))"

definition sm_rollbackRequest :: "RequestForSession \<Rightarrow> bool \<Rightarrow> KeeperStateMachine \<Rightarrow>
    KeeperStateMachine result" where
  "sm_rollbackRequest r allow_missing sm =
     (if getOpNum (rfs_request r) = OpSessionID then Inr sm
      else rbind (rollbackRequest (rfs_zxid r) allow_missing (storage sm)) (\<lambda>st.
             Inr (sm\<lparr>storage := st\<rparr>)))"

definition sm_rollback :: "int \<Rightarrow> RequestForSession \<Rightarrow> KeeperStateMachine \<Rightarrow>
    KeeperStateMachine result" where
  "sm_rollback log_idx r sm =
     (if \<not> localLogsPreprocessed sm then Inr sm
      else sm_rollbackRequest (entry_zxid log_idx r) False sm)"

definition processReadRequest :: "int \<Rightarrow> RequestForSession \<Rightarrow> KeeperStateMachine \<Rightarrow>
    KeeperStateMachine result" where
  "processReadRequest now r sm =
     rbind (processRequest now (rfs_request r) (rfs_session_id r) None True True (storage sm))
       (\<lambda>(responses, st). Inr (fold try_push responses (sm\<lparr>storage := st\<rparr>)))"

definition shutdownStorage :: "KeeperStateMachine \<Rightarrow> KeeperStateMachine result" where
  "shutdownStorage sm =
     rbind (storage_finalize (storage sm)) (\<lambda>st. Inr (sm\<lparr>storage := st\<rparr>))"

definition sm_getDeadSessions :: "int \<Rightarrow> KeeperStateMachine \<Rightarrow> session list" where
  "sm_getDeadSessions now sm = getDeadSessions now (storage sm)"

subsection \<open>Events of the RAFT library\<close>

text \<open>
  \<open>PreAppendLogLeader\<close>: the leader numbers the request, preprocesses it and writes the zxid and the
  digest into the entry; \<open>None\<close> is \<open>ReturnNull\<close>, the entry is not appended.
\<close>

definition PreAppendLogLeader :: "RequestForSession \<Rightarrow> KeeperStateMachine \<Rightarrow>
    (RequestForSession option \<times> KeeperStateMachine) result" where
  "PreAppendLogLeader r sm =
     (if \<not> localLogsPreprocessed sm then Inr (None, sm)
      else
        let r = r\<lparr>rfs_zxid := getNextZXID (storage sm)\<rparr> in
        rbind (sm_preprocess r sm) (\<lambda>(ok, sm).
          Inr (if ok then Some (r\<lparr>rfs_digest := Some (getNodesDigest (storage sm) False)\<rparr>) else None,
               sm)))"

definition AppendLogFailed :: "RequestForSession \<Rightarrow> KeeperStateMachine \<Rightarrow> KeeperStateMachine result" where
  "AppendLogFailed r sm = sm_rollbackRequest r True sm"

text \<open>
  \<open>preprocess_logs\<close>: once the local log is committed, the entries behind the last commit are
  preprocessed; an entry that is not a request is \<open>None\<close>.
\<close>

fun preprocess_entries :: "int \<Rightarrow> RequestForSession option list \<Rightarrow> KeeperStateMachine \<Rightarrow>
    KeeperStateMachine result" where
  "preprocess_entries idx [] sm = Inr sm"
| "preprocess_entries idx (None # es) sm = preprocess_entries (idx + 1) es sm"
| "preprocess_entries idx (Some r # es) sm =
     rbind (pre_commit idx r sm) (preprocess_entries (idx + 1) es)"

definition preprocess_logs :: "RequestForSession option list \<Rightarrow> KeeperStateMachine \<Rightarrow>
    KeeperStateMachine result" where
  "preprocess_logs log_entries sm =
     (if localLogsPreprocessed sm then Inr sm
      else preprocess_entries (lastCommittedIndex sm + 1) log_entries
             (sm\<lparr>localLogsPreprocessed := True\<rparr>))"

end
