(* ===== verification/KeeperRuns.thy ===== *)
theory KeeperRuns
  imports KeeperMachine
begin

text \<open>
  Runs of the state machine. The RAFT library appends, preprocesses, commits and removes log
  entries; what it promises is in the rules: entries are committed in the order of the log, the last
  one is removed first, and the zxids of the log grow. The second component of a configuration is
  the log behind the last commit. The invariant of the storage holds in every reachable
  configuration, with exactly the transactions of that log pending.
\<close>

subsection \<open>The invariant of a storage with its log\<close>

definition tracked :: "RequestForSession \<Rightarrow> bool" where
  "tracked r \<longleftrightarrow> getOpNum (rfs_request r) \<noteq> OpSessionID"

definition entry_ok :: "bool \<Rightarrow> RequestForSession \<Rightarrow> TransactionInfo \<Rightarrow> bool" where
  "entry_ok en r i \<longleftrightarrow>
     ti_zxid i = rfs_zxid r \<and>
     (case rfs_digest r of Some d \<Rightarrow> en \<longrightarrow> checkDigest d (ti_nodes_digest i) | None \<Rightarrow> True)"

definition serving :: "KeeperStorage \<Rightarrow> RequestForSession list \<Rightarrow> bool" where
  "serving st q \<longleftrightarrow>
     (\<exists>xs. keeper_inv st xs \<and> map tx_req xs = map rfs_request q) \<and>
     list_all2 (entry_ok (digestEnabled (keeper_context st))) q (uncommitted_transactions st) \<and>
     (\<forall>r\<in>set q. well_formed (rfs_request r)) \<and> contents_ok st \<and> sessions_ok st \<and>
     old_snapshot_zxid st = 0 \<and> 0 \<le> storage_zxid st \<and> \<not> finalized st"

lemma servingD:
  assumes "serving st q"
  shows "\<exists>xs. keeper_inv st xs \<and> map tx_req xs = map rfs_request q"
    "list_all2 (entry_ok (digestEnabled (keeper_context st))) q (uncommitted_transactions st)"
    "r \<in> set q \<Longrightarrow> well_formed (rfs_request r)" "contents_ok st" "sessions_ok st"
    "old_snapshot_zxid st = 0" "0 \<le> storage_zxid st" "\<not> finalized st"
  using assms unfolding serving_def by blast+

lemma serving_frame:
  assumes "serving st q" and "keeper_inv st' xs" and "map tx_req xs = map rfs_request q'"
    and "list_all2 (entry_ok (digestEnabled (keeper_context st))) q' (uncommitted_transactions st')"
    and "\<forall>r\<in>set q'. well_formed (rfs_request r)" and "contents_ok st'" and "sessions_ok st'" and "lasting st st'"
    and "0 \<le> storage_zxid st'"
  shows "serving st' q'"
  using assms unfolding serving_def lasting_def by auto

lemma serving_side:
  assumes "serving st q" and "side st st'" and "sessions_ok st'"
  shows "serving st' q"
proof -
  obtain xs where "keeper_inv st xs" "map tx_req xs = map rfs_request q" using servingD(1) [OF assms(1)] by blast
  then show ?thesis
    using serving_frame [OF assms(1), of st' xs q] side_keeper_inv [OF assms(2)] side_frame(4,6) [OF assms(2)]
      servingD [OF assms(1)] lasting_side [OF assms(2)] assms(3) by simp
qed

lemma last_digest:
  assumes "digestEnabled (keeper_context st)" and "uncommitted_transactions st = is @ [i]"
  shows "getNodesDigest st False = ti_nodes_digest i"
  using assms by (simp add: getNodesDigest_def)

lemma assert_entry_digest_ok:
  "assert_entry_digest r st c = Inr u \<longleftrightarrow>
   (case rfs_digest r of
      Some d \<Rightarrow> digestEnabled (keeper_context st) \<longrightarrow> checkDigest d (getNodesDigest st c) | None \<Rightarrow> True)"
  by (cases "rfs_digest r") (auto simp: assert_entry_digest_def assertDigest_def)

lemma serving_preprocess:
  assumes s: "serving st q" and r: "well_formed (rfs_request r)" "rfs_session_id r \<noteq> 0" "getNextZXID st \<le> rfs_zxid r"
    and p: "preprocessRequest (rfs_request r) (rfs_session_id r) (rfs_time r) (rfs_zxid r) True
      (rfs_digest r) (rfs_log_idx r) st = Inr st'"
    and d: "assert_entry_digest r st' False = Inr u"
  shows "serving st' (q @ [r]) \<and> committed_tree st' = committed_tree st \<and> storage_zxid st' = storage_zxid st"
proof -
  obtain xs where xs: "keeper_inv st xs" "map tx_req xs = map rfs_request q" using servingD(1) [OF s] by blast
  have n: "preprocess_new (rfs_request r) (rfs_session_id r) (rfs_time r) (rfs_zxid r) True (rfs_log_idx r) st = Inr st'"
    using p r(3) by (auto simp: preprocessRequest_def Let_def split: if_splits)
  obtain ds where ds: "keeper_inv st' (xs @ [\<lparr>tx_req = rfs_request r, tx_deltas = ds\<rparr>])"
      "committed_tree st' = committed_tree st"
    using preprocess_new_ok [OF xs(1) r(3,2) n] by blast
  obtain i where e: "prepares st st'" "ti_zxid i = rfs_zxid r"
      "uncommitted_transactions st' = uncommitted_transactions st @ [i]"
    using preprocess_new_effect [OF xs(1) r(3,2) n] by blast
  note fr = prepares_frame [OF e(1)]
  have en: "keeper_context st' = keeper_context st" using fr(3) by (simp add: lasting_def)
  have "entry_ok (digestEnabled (keeper_context st)) r i"
    using d e(2) last_digest [OF _ e(3)] en by (auto simp: entry_ok_def assert_entry_digest_ok split: option.splits)
  then have "list_all2 (entry_ok (digestEnabled (keeper_context st))) (q @ [r]) (uncommitted_transactions st')"
    using servingD(2) [OF s] e(3) by (simp add: list_all2_appendI)
  then have "serving st' (q @ [r])"
    using serving_frame [OF s ds(1)] xs(2) r(1) fr servingD [OF s] by simp
  then show ?thesis using ds(2) fr(5) by simp
qed

lemma serving_again:
  assumes s: "serving st (q @ [r])"
    and p: "preprocessRequest (rfs_request r') sid time (rfs_zxid r) True (rfs_digest r) log_idx st = Inr st'"
    and "sid \<noteq> 0"
  shows "serving st' (q @ [r]) \<and> committed_tree st' = committed_tree st \<and> storage_zxid st' = storage_zxid st"
proof -
  obtain xs where xs: "keeper_inv st xs" "map tx_req xs = map rfs_request (q @ [r])" using servingD(1) [OF s] by blast
  obtain "is" i where i: "uncommitted_transactions st = is @ [i]" "entry_ok (digestEnabled (keeper_context st)) r i"
      "list_all2 (entry_ok (digestEnabled (keeper_context st))) q is"
    using servingD(2) [OF s] by (auto simp: list_all2_append1 list_all2_Cons1)
  have "st' = set_last_log_idx log_idx st"
    using p i(1,2) by (auto simp: preprocessRequest_def Let_def getNextZXID_def entry_ok_def split: if_splits)
  moreover note set_last_log_idx_ok [OF xs(1), of log_idx] prepares_frame [OF set_last_log_idx_effect [of st log_idx]]
  moreover have "list_all2 (entry_ok (digestEnabled (keeper_context st))) (q @ [r])
      (uncommitted_transactions (set_last_log_idx log_idx st))"
    using i by (simp add: set_last_log_idx_def entry_ok_def list_all2_appendI split: option.splits)
  ultimately show ?thesis
    using serving_frame [OF s _ xs(2), of st'] i(1) servingD [OF s] by simp
qed

lemma serving_commit:
  assumes s: "serving st (r # q)" and cap: "acl_capacity (length (pending st)) st"
    and p: "processRequest now (rfs_request r) sid (Some (rfs_zxid r)) check_acl False st = Inr (out, st')"
  shows "serving st' q" and "view st' = view st" and "assert_entry_digest r st' True = Inr ()"
    and "storage_zxid st' = rfs_zxid r" and "getNodesDigest st' True = ti_nodes_digest (hd (uncommitted_transactions st))"
proof -
  obtain x xs where xs: "keeper_inv st (x # xs)" "tx_req x = rfs_request r" "map tx_req xs = map rfs_request q"
    using servingD(1) [OF s] by auto
  obtain i "is" where i: "uncommitted_transactions st = i # is" "entry_ok (digestEnabled (keeper_context st)) r i"
      "list_all2 (entry_ok (digestEnabled (keeper_context st))) q is"
    using servingD(2) [OF s] by (auto simp: list_all2_Cons1)
  let ?st0 = "st\<lparr>storage_zxid := rfs_zxid r, uncommitted_transactions := is\<rparr>"
  have adv: "advanced ?st0 (tx_deltas x) (concat (map tx_deltas xs)) st'" and z: "rfs_zxid r = ti_zxid i"
    using processRequest_advanced [OF xs(1,2) i(1) p] by blast+
  note c = keeper_inv_commit [OF xs(1) i(1) adv [unfolded z]]
  have ctl: "uncommitted_transactions st' = is" "storage_zxid st' = rfs_zxid r"
    using adv by (simp_all add: advanced_def same_control_def)
  obtain t1 where t1: "tx_ok (ti_zxid i) (rfs_request r) (tx_deltas x) (committed_tree st) t1" "storage_zxid st < ti_zxid i"
    using keeper_invD(6) [OF xs(1)] i(1) xs(2) by (auto simp: tx_step_def)
  have "canonical_creates (tx_deltas x)" using tx_canonical [OF t1(1)] servingD(3) [OF s] by simp
  moreover have "acl_capacity (length (tx_deltas x) + 0) ?st0"
    using acl_capacity_mono [OF cap] keeper_invD(5) [OF xs(1)] by (simp add: acl_capacity_def)
  moreover have "contents_ok ?st0" using servingD(4) [OF s] by (simp add: contents_ok_def acl_ok_def)
  ultimately have cont: "contents_ok st'"
    using adv keeps_contentsD unfolding advanced_def by blast
  have keep: "keeps_sessions st st'" by (rule processRequest_keeps [OF p])
  then have en: "keeper_context st' = keeper_context st" by (simp add: keeps_sessions_def lasting_def)
  show "serving st' q"
    using serving_frame [OF s c(1) xs(3)] ctl i(3) servingD [OF s] cont keep t1(2) z by (simp add: keeps_sessions_def)
  show "view st' = view st" by (rule c(2))
  show "assert_entry_digest r st' True = Inr ()"
    using i(2) c(4) en by (auto simp: assert_entry_digest_ok entry_ok_def split: option.splits)
  show "storage_zxid st' = rfs_zxid r" by (rule ctl(2))
  show "getNodesDigest st' True = ti_nodes_digest (hd (uncommitted_transactions st))" using c(4) i(1) by simp
qed

lemma serving_rollback:
  assumes s: "serving st (q @ [r])"
  shows "\<exists>st'. rollbackRequest (rfs_zxid r) allow_missing st = Inr st' \<and> serving st' q \<and>
    committed_tree st' = committed_tree st \<and> storage_zxid st' = storage_zxid st"
proof -
  obtain xs x where xs: "keeper_inv st (xs @ [x])" "map tx_req xs = map rfs_request q"
    using servingD(1) [OF s] by (auto simp: map_eq_append_conv)
  obtain "is" i where i: "uncommitted_transactions st = is @ [i]" "entry_ok (digestEnabled (keeper_context st)) r i"
      "list_all2 (entry_ok (digestEnabled (keeper_context st))) q is"
    using servingD(2) [OF s] by (auto simp: list_all2_append1 list_all2_Cons1)
  then have "rfs_zxid r = ti_zxid (last (uncommitted_transactions st))" by (simp add: entry_ok_def)
  from rollbackRequest_ok [OF xs(1) this, of allow_missing] obtain st' where
    r: "rollbackRequest (rfs_zxid r) allow_missing st = Inr st'" "keeper_inv st' xs"
      "committed_tree st' = committed_tree st" by blast
  have e: "prepares st st'" "uncommitted_transactions st' = is"
    using rollbackRequest_effect [OF r(1)] i(1,2) by (auto simp: entry_ok_def)
  have "serving st' q"
    using serving_frame [OF s r(2) xs(2)] e(2) i(3) prepares_frame [OF e(1)] servingD [OF s] by simp
  then show ?thesis using r prepares_frame(5) [OF e(1)] by blast
qed

lemma counter_frame:
  "keeper_inv (st\<lparr>session_id_counter := k\<rparr>) xs = keeper_inv st xs"
  "contents_ok (st\<lparr>session_id_counter := k\<rparr>) = contents_ok st"
  "sessions_ok (st\<lparr>session_id_counter := k\<rparr>) = sessions_ok st"
  by (simp_all add: keeper_inv_def pending_inv_def sound_def view_def committed_tree_def digest_offset_def
      contents_ok_def acl_ok_def sessions_ok_def)

lemma serving_session_id:
  assumes "serving st q"
  shows "\<exists>st'. getSessionID now timeout st = Inr (session_id_counter st, st') \<and> serving st' q \<and>
    committed_tree st' = committed_tree st \<and> storage_zxid st' = storage_zxid st"
proof -
  let ?st1 = "st\<lparr>session_id_counter := session_id_counter st + 1\<rparr>"
  have s1: "serving ?st1 q" using assms by (simp add: serving_def counter_frame)
  obtain e where q: "addNewSessionOrUpdate (session_expiry_queue st) now (session_id_counter st) timeout = Inr e"
      "expiry_inv e"
    using addNewSessionOrUpdate_correct [of "session_expiry_queue st" now "session_id_counter st" timeout]
      servingD(5) [OF assms] by (auto simp: sessions_ok_def)
  then obtain st' where st': "addSessionID now (session_id_counter st) timeout ?st1 = Inr st'"
      "session_expiry_queue st' = e" "side ?st1 st'"
      "watches st' = watches st" "list_watches st' = list_watches st"
      "sessions_and_watchers st' = sessions_and_watchers st"
    by (auto simp: addSessionID_def side_def)
  then have "sessions_ok st'" using q(2) servingD(5) [OF assms] by (simp add: sessions_ok_def)
  from serving_side [OF s1 st'(3) this] have "serving st' q" .
  moreover have "committed_tree st' = committed_tree st" "storage_zxid st' = storage_zxid st"
    using side_frame(6,11) [OF st'(3)] by (simp_all add: committed_tree_def)
  ultimately show ?thesis using st'(1) by (simp add: getSessionID_def Let_def)
qed

subsection \<open>Steps and reachable configurations\<close>

definition client_entry :: "RequestForSession \<Rightarrow> bool" where
  "client_entry r \<longleftrightarrow>
     well_formed (rfs_request r) \<and> rfs_session_id r \<noteq> 0 \<and> getOpNum (rfs_request r) \<noteq> OpReconfig"

type_synonym configuration = "KeeperStateMachine \<times> RequestForSession list"

inductive raft_step :: "configuration \<Rightarrow> configuration \<Rightarrow> bool" where
  append_leader:
    "client_entry r \<Longrightarrow> PreAppendLogLeader r sm = Inr (Some r', sm') \<Longrightarrow> raft_step (sm, q) (sm', q @ [r'])"
| append_refused:
    "PreAppendLogLeader r sm = Inr (None, sm') \<Longrightarrow> raft_step (sm, q) (sm', q)"
| append_failed:
    "AppendLogFailed r sm = Inr sm' \<Longrightarrow> raft_step (sm, q @ [r]) (sm', q)"
| pre_commit_appended:
    "pre_commit log_idx r sm = Inr sm' \<Longrightarrow> raft_step (sm, q @ [r]) (sm', q @ [r])"
| pre_commit_new:
    "client_entry r \<Longrightarrow> localLogsPreprocessed sm \<Longrightarrow> 0 < log_idx \<Longrightarrow>
     getNextZXID (storage sm) \<le> rfs_zxid (entry_at log_idx r) \<Longrightarrow>
     pre_commit log_idx r sm = Inr sm' \<Longrightarrow> raft_step (sm, q) (sm', q @ [entry_at log_idx r])"
| commit:
    "localLogsPreprocessed sm \<Longrightarrow> acl_capacity (length (pending (storage sm))) (storage sm) \<Longrightarrow>
     sm_commit now log_idx r sm = Inr sm' \<Longrightarrow> raft_step (sm, r # q) (sm', q)"
| commit_local:
    "\<not> localLogsPreprocessed sm \<Longrightarrow> client_entry r \<Longrightarrow> 0 < log_idx \<Longrightarrow>
     getNextZXID (storage sm) \<le> rfs_zxid (entry_at log_idx r) \<Longrightarrow>
     sm_preprocess (entry_at log_idx r) sm = Inr (True, sm1) \<Longrightarrow>
     acl_capacity (length (pending (storage sm1))) (storage sm1) \<Longrightarrow>
     sm_commit now log_idx r sm = Inr sm' \<Longrightarrow> raft_step (sm, []) (sm', [])"
| local_logs_preprocessed:
    "preprocess_logs [] sm = Inr sm' \<Longrightarrow> raft_step (sm, q) (sm', q)"
| rollback:
    "sm_rollback log_idx r sm = Inr sm' \<Longrightarrow> raft_step (sm, q @ [r]) (sm', q)"
| read:
    "read_request (rfs_request r) \<Longrightarrow> processReadRequest now r sm = Inr sm' \<Longrightarrow> raft_step (sm, q) (sm', q)"

inductive_simps raft_step_simps: "raft_step (sm, q) (sm', q')"

inductive reachable :: "configuration \<Rightarrow> bool" where
  start:
    "sys_nodes_ok (systemNodesWithData kc) \<Longrightarrow> KeeperStorage_init tick sdigest kc True = Inr st \<Longrightarrow>
     reachable (KeeperStateMachine_init st, [])"
| step: "reachable s \<Longrightarrow> raft_step s s' \<Longrightarrow> reachable s'"

definition machine_inv :: "configuration \<Rightarrow> bool" where
  "machine_inv s \<longleftrightarrow>
     (case s of (sm, q) \<Rightarrow>
        serving (storage sm) (filter tracked q) \<and> (\<forall>r\<in>set q. client_entry r) \<and>
        (\<not> localLogsPreprocessed sm \<longrightarrow> q = []))"

subsection \<open>Every step keeps the invariant\<close>

lemma machine_invD:
  assumes "machine_inv (sm, q)"
  shows "serving (storage sm) (filter tracked q)" "r \<in> set q \<Longrightarrow> client_entry r"
    "\<not> localLogsPreprocessed sm \<Longrightarrow> q = []"
  using assms by (auto simp: machine_inv_def)

lemma untracked_preprocess: "\<not> tracked r \<Longrightarrow> sm_preprocess r sm = Inr (True, sm)"
  by (simp add: sm_preprocess_def tracked_def Let_def)

lemma sm_preprocess_serving:
  assumes "serving (storage sm) q" and "client_entry r" and "getNextZXID (storage sm) \<le> rfs_zxid r"
    and "sm_preprocess r sm = Inr (ok, sm')"
  shows "ok \<and> serving (storage sm') (q @ filter tracked [r]) \<and> committed_tree (storage sm') = committed_tree (storage sm) \<and>
    storage_zxid (storage sm') = storage_zxid (storage sm) \<and>
    localLogsPreprocessed sm' = localLogsPreprocessed sm"
proof (cases "tracked r")
  case True
  then obtain st' u where "ok" "sm' = sm\<lparr>storage := st'\<rparr>" "assert_entry_digest r st' False = Inr u"
      "preprocessRequest (rfs_request r) (rfs_session_id r) (rfs_time r) (rfs_zxid r) True
        (rfs_digest r) (rfs_log_idx r) (storage sm) = Inr st'"
    using assms(2,4) servingD(8) [OF assms(1)]
    by (auto simp: sm_preprocess_def tracked_def client_entry_def Let_def split: sum.splits)
  with serving_preprocess [OF assms(1) _ _ assms(3)] assms(2) True show ?thesis
    by (auto simp: client_entry_def)
next
  case False
  with assms show ?thesis by (simp add: untracked_preprocess)
qed

lemma serving_own_digest:
  assumes "serving st (q @ [r])"
  shows "serving st (q @ [r\<lparr>rfs_digest := Some (getNodesDigest st False)\<rparr>])"
proof -
  obtain "is" i where i: "uncommitted_transactions st = is @ [i]" "entry_ok (digestEnabled (keeper_context st)) r i"
      "list_all2 (entry_ok (digestEnabled (keeper_context st))) q is"
    using servingD(2) [OF assms] by (auto simp: list_all2_append1 list_all2_Cons1)
  then have "entry_ok (digestEnabled (keeper_context st)) (r\<lparr>rfs_digest := Some (getNodesDigest st False)\<rparr>) i"
    using last_digest [OF _ i(1)] by (simp add: entry_ok_def checkDigest_def)
  with assms i(1,3) show ?thesis by (simp add: serving_def list_all2_appendI)
qed

lemma tracked_simps [simp]:
  "tracked (r\<lparr>rfs_zxid := z\<rparr>) = tracked r" "tracked (r\<lparr>rfs_digest := d\<rparr>) = tracked r"
  "tracked (r\<lparr>rfs_log_idx := k\<rparr>) = tracked r" "tracked (entry_at k r) = tracked r"
  "client_entry (r\<lparr>rfs_zxid := z\<rparr>) = client_entry r" "client_entry (r\<lparr>rfs_digest := d\<rparr>) = client_entry r"
  "client_entry (entry_at k r) = client_entry r" "client_entry (entry_zxid k r) = client_entry r"
  "rfs_request (entry_at k r) = rfs_request r" "rfs_session_id (entry_at k r) = rfs_session_id r"
  "rfs_request (entry_zxid k r) = rfs_request r"
  by (simp_all add: tracked_def client_entry_def entry_at_def entry_zxid_def)

lemma entry_zxid_same:
  assumes "rfs_zxid r \<noteq> 0"
  shows "entry_zxid k r = r" "rfs_zxid (entry_at k r) = rfs_zxid r" "rfs_digest (entry_at k r) = rfs_digest r"
  using assms by (simp_all add: entry_zxid_def entry_at_def)

lemma serving_zxid_pos:
  assumes "serving st q" and "r \<in> set q"
  shows "0 < rfs_zxid r"
proof -
  obtain xs where xs: "keeper_inv st xs" using servingD(1) [OF assms(1)] by blast
  have grow: "txs_ok en off ys ts z t t' \<Longrightarrow> i \<in> set ts \<Longrightarrow> z < ti_zxid i" for en off ys ts z t t' i
    by (induction en off ys ts z t t' rule: txs_ok.induct) (auto simp: tx_step_def, meson less_trans)
  from assms(2) obtain k where "k < length q" "r = q ! k" by (auto simp: in_set_conv_nth)
  with servingD(2) [OF assms(1)] have "uncommitted_transactions st ! k \<in> set (uncommitted_transactions st)"
      "ti_zxid (uncommitted_transactions st ! k) = rfs_zxid r"
    by (simp_all add: list_all2_conv_all_nth entry_ok_def)
  then show ?thesis using grow [OF keeper_invD(6) [OF xs]] servingD(7) [OF assms(1)] by fastforce
qed

lemma try_push_frame [simp]:
  "storage (try_push r sm) = storage sm" "localLogsPreprocessed (try_push r sm) = localLogsPreprocessed sm"
  by (simp_all add: try_push_def)

lemma fold_try_push [simp]:
  "storage (fold try_push rs sm) = storage sm"
  "localLogsPreprocessed (fold try_push rs sm) = localLogsPreprocessed sm"
  by (induction rs arbitrary: sm) simp_all

lemma commit_request_serving:
  assumes s: "serving (storage sm) (filter tracked (r # q))" and c: "client_entry r"
    and cap: "acl_capacity (length (pending (storage sm))) (storage sm)"
    and p: "commit_request now (entry_at k r) sm = Inr sm'"
  shows "serving (storage sm') (filter tracked q) \<and> localLogsPreprocessed sm' = localLogsPreprocessed sm"
proof (cases "tracked r")
  case True
  then have nz: "rfs_zxid r \<noteq> 0" using serving_zxid_pos [OF s, of r] by auto
  have "\<nexists>a b c. body (rfs_request r) = SessionIDRequest a b c" using True by (auto simp: tracked_def getOpNum_def)
  then obtain out st' where
    "processRequest now (rfs_request r) (rfs_session_id r) (Some (rfs_zxid r)) True False (storage sm) = Inr (out, st')"
    "sm' = fold try_push out (sm\<lparr>storage := st'\<rparr>)"
    using p entry_zxid_same [OF nz, of k] by (cases "body (rfs_request r)") (auto simp: commit_request_def)
  then show ?thesis using serving_commit(1) [OF _ cap] s True by simp
next
  case False
  then obtain a b d where "body (rfs_request r) = SessionIDRequest a b d"
    by (cases "body (rfs_request r)") (auto simp: tracked_def getOpNum_def split: if_splits)
  with False p s serving_session_id [of "storage sm" "filter tracked q" now b] show ?thesis
    by (auto simp: commit_request_def commit_session_id_def)
qed

lemma step_append_leader:
  assumes inv: "machine_inv (sm, q)" and r: "client_entry r" and p: "PreAppendLogLeader r sm = Inr (Some r', sm')"
  shows "machine_inv (sm', q @ [r'])"
proof -
  let ?r = "r\<lparr>rfs_zxid := getNextZXID (storage sm)\<rparr>"
  have pre: "sm_preprocess ?r sm = Inr (True, sm')" "localLogsPreprocessed sm"
      "r' = ?r\<lparr>rfs_digest := Some (getNodesDigest (storage sm') False)\<rparr>"
    using p by (auto simp: PreAppendLogLeader_def Let_def split: if_splits)
  have s: "serving (storage sm') (filter tracked q @ filter tracked [?r])" "localLogsPreprocessed sm'"
    using sm_preprocess_serving [OF machine_invD(1) [OF inv] _ _ pre(1)] r pre(2) by simp_all
  have "serving (storage sm') (filter tracked (q @ [r']))"
    using s(1) serving_own_digest [of "storage sm'" "filter tracked q" ?r] pre(3) by (cases "tracked r") simp_all
  then show ?thesis using machine_invD(2) [OF inv] r s(2) pre(3) by (auto simp: machine_inv_def)
qed

lemma step_pre_commit_appended:
  assumes inv: "machine_inv (sm, q @ [r])" and p: "pre_commit k r sm = Inr sm'"
  shows "machine_inv (sm', q @ [r])"
proof (cases "tracked r")
  case True
  have s: "serving (storage sm) (filter tracked q @ [r])" using machine_invD(1) [OF inv] True by simp
  have nz: "rfs_zxid r \<noteq> 0" using serving_zxid_pos [OF s, of r] by simp
  have r: "client_entry r" by (rule machine_invD(2) [OF inv]) simp
  have l: "localLogsPreprocessed sm" using machine_invD(3) [OF inv] by blast
  obtain ok where "sm_preprocess (entry_at k r) sm = Inr (ok, sm')" using p l by (auto simp: pre_commit_def)
  then obtain st' where st': "sm' = sm\<lparr>storage := st'\<rparr>"
      "preprocessRequest (rfs_request r) (rfs_session_id r) (rfs_time (entry_at k r)) (rfs_zxid r) True
        (rfs_digest r) (rfs_log_idx (entry_at k r)) (storage sm) = Inr st'"
    using r True servingD(8) [OF s] entry_zxid_same [OF nz, of k]
    by (auto simp: sm_preprocess_def tracked_def client_entry_def Let_def split: sum.splits)
  have "serving st' (filter tracked q @ [r])"
    using serving_again [OF s st'(2)] r by (simp add: client_entry_def)
  then show ?thesis using inv st'(1) True by (simp add: machine_inv_def)
next
  case False
  then have "sm' = sm" using p by (auto simp: pre_commit_def untracked_preprocess split: if_splits)
  with inv show ?thesis by simp
qed

lemma step_pre_commit_new:
  assumes inv: "machine_inv (sm, q)" and r: "client_entry r" "getNextZXID (storage sm) \<le> rfs_zxid (entry_at k r)"
    and l: "localLogsPreprocessed sm" and p: "pre_commit k r sm = Inr sm'"
  shows "machine_inv (sm', q @ [entry_at k r])"
proof -
  obtain ok where pre: "sm_preprocess (entry_at k r) sm = Inr (ok, sm')" using p l by (auto simp: pre_commit_def)
  from sm_preprocess_serving [OF machine_invD(1) [OF inv] _ r(2) pre] r(1) l
  show ?thesis using machine_invD(2) [OF inv] by (auto simp: machine_inv_def)
qed

lemma step_commit:
  assumes inv: "machine_inv (sm, r # q)" and l: "localLogsPreprocessed sm"
    and cap: "acl_capacity (length (pending (storage sm))) (storage sm)" and p: "sm_commit now k r sm = Inr sm'"
  shows "machine_inv (sm', q)"
proof -
  obtain sm1 where c: "commit_request now (entry_at k r) sm = Inr sm1" "sm' = sm1\<lparr>lastCommittedIndex := k\<rparr>"
    using p l by (auto simp: sm_commit_def Let_def)
  have r: "client_entry r" by (rule machine_invD(2) [OF inv]) simp
  from commit_request_serving [OF machine_invD(1) [OF inv] r cap c(1)] c(2) l
  show ?thesis using machine_invD(2) [OF inv] by (simp add: machine_inv_def)
qed

lemma step_commit_local:
  assumes inv: "machine_inv (sm, [])" and l: "\<not> localLogsPreprocessed sm"
    and r: "client_entry r" "getNextZXID (storage sm) \<le> rfs_zxid (entry_at k r)"
    and pre: "sm_preprocess (entry_at k r) sm = Inr (True, sm1)"
    and cap: "acl_capacity (length (pending (storage sm1))) (storage sm1)" and p: "sm_commit now k r sm = Inr sm'"
  shows "machine_inv (sm', [])"
proof -
  have "entry_at k (entry_at k r) = entry_at k r" by (simp add: entry_at_def entry_zxid_def)
  then obtain sm2 where c: "commit_request now (entry_at k (entry_at k r)) sm1 = Inr sm2"
      "sm' = sm2\<lparr>lastCommittedIndex := k\<rparr>"
    using p l pre by (auto simp: sm_commit_def Let_def)
  have s: "serving (storage sm1) (filter tracked [entry_at k r])" "\<not> localLogsPreprocessed sm1"
    using sm_preprocess_serving [OF machine_invD(1) [OF inv] _ r(2) pre] r(1) l by simp_all
  from commit_request_serving [OF s(1) _ cap c(1)] r(1) c(2) show ?thesis by (simp add: machine_inv_def)
qed

lemma step_rollbackRequest:
  assumes inv: "machine_inv (sm, q @ [r])" and p: "sm_rollbackRequest r allow_missing sm = Inr sm'"
  shows "machine_inv (sm', q)"
proof (cases "tracked r")
  case True
  obtain st' where st': "rollbackRequest (rfs_zxid r) allow_missing (storage sm) = Inr st'" "sm' = sm\<lparr>storage := st'\<rparr>"
    using p True by (auto simp: sm_rollbackRequest_def tracked_def)
  have "serving (storage sm) (filter tracked q @ [r])" using machine_invD(1) [OF inv] True by simp
  from serving_rollback [OF this, of allow_missing] st' inv show ?thesis by (auto simp: machine_inv_def)
next
  case False
  with p have "sm' = sm" by (simp add: sm_rollbackRequest_def tracked_def)
  with inv False show ?thesis by (auto simp: machine_inv_def)
qed

lemma step_rollback:
  assumes inv: "machine_inv (sm, q @ [r])" and p: "sm_rollback k r sm = Inr sm'"
  shows "machine_inv (sm', q)"
proof -
  have "localLogsPreprocessed sm" using machine_invD(3) [OF inv] by blast
  then have "sm_rollbackRequest (entry_zxid k r) False sm = Inr sm'" using p by (simp add: sm_rollback_def)
  moreover have "entry_zxid k r = r \<or> \<not> tracked r"
    using serving_zxid_pos [OF machine_invD(1) [OF inv], of r] entry_zxid_same(1) [of r k] by auto
  moreover have "sm_rollbackRequest (entry_zxid k r) False sm = sm_rollbackRequest r False sm" if "\<not> tracked r"
    using that by (simp add: sm_rollbackRequest_def tracked_def)
  ultimately show ?thesis using step_rollbackRequest [OF inv] by metis
qed

lemma step_read:
  assumes inv: "machine_inv (sm, q)" and r: "read_request (rfs_request r)"
    and p: "processReadRequest now r sm = Inr sm'"
  shows "machine_inv (sm', q)"
proof -
  obtain out st' where st': "processRequest now (rfs_request r) (rfs_session_id r) None True True (storage sm) = Inr (out, st')"
      "sm' = fold try_push out (sm\<lparr>storage := st'\<rparr>)"
    using p by (auto simp: processReadRequest_def)
  note s = machine_invD(1) [OF inv]
  have "sessions_ok st'" using processRequest_keeps [OF st'(1)] servingD(5) [OF s] by (simp add: keeps_sessions_def)
  moreover have "side (storage sm) st'" by (rule local_read_side [OF st'(1) r])
  ultimately have "serving st' (filter tracked q)" using serving_side [OF s] by blast
  then show ?thesis using inv st'(2) by (simp add: machine_inv_def)
qed

lemma raft_step_inv:
  assumes "raft_step s s'" and "machine_inv s"
  shows "machine_inv s'"
  using assms
proof (cases rule: raft_step.cases)
  case (append_leader r sm r' sm' q)
  with assms(2) show ?thesis using step_append_leader by blast
next
  case (append_refused r sm sm' q)
  then have "sm' = sm"
    by (auto simp: PreAppendLogLeader_def sm_preprocess_def Let_def split: if_splits sum.splits)
  with append_refused assms(2) show ?thesis by simp
next
  case (append_failed r sm sm' q)
  with assms(2) show ?thesis using step_rollbackRequest unfolding AppendLogFailed_def by blast
next
  case (pre_commit_appended k r sm sm' q)
  with assms(2) show ?thesis using step_pre_commit_appended by blast
next
  case (pre_commit_new r sm k sm' q)
  with assms(2) show ?thesis using step_pre_commit_new by blast
next
  case (commit sm now k r sm' q)
  with assms(2) show ?thesis using step_commit by blast
next
  case (commit_local sm r k sm1 now sm')
  with assms(2) show ?thesis using step_commit_local by blast
next
  case (local_logs_preprocessed sm sm' q)
  with assms(2) show ?thesis by (auto simp: preprocess_logs_def machine_inv_def split: if_splits)
next
  case (rollback k r sm sm' q)
  with assms(2) show ?thesis using step_rollback by blast
next
  case (read r now sm sm' q)
  with assms(2) show ?thesis using step_read by blast
qed

lemma start_inv:
  assumes "sys_nodes_ok (systemNodesWithData kc)" and "KeeperStorage_init tick sdigest kc True = Inr st"
  shows "machine_inv (KeeperStateMachine_init st, [])"
proof -
  have "keeper_inv st []" "contents_ok st" "sessions_ok st" "old_snapshot_zxid st = 0" "storage_zxid st = 0"
      "\<not> finalized st"
    using KeeperStorage_init_ok [OF assms(1), of tick sdigest] assms(2) by (auto simp: sessions_ok_def)
  moreover from this(1) have "uncommitted_transactions st = []" using keeper_invD(6) by fastforce
  ultimately show ?thesis by (simp add: machine_inv_def KeeperStateMachine_init_def serving_def)
qed

lemma reachable_inv: "reachable s \<Longrightarrow> machine_inv s"
  by (induction rule: reachable.induct) (use start_inv raft_step_inv in blast)+

subsection \<open>Progress\<close>

text \<open>
  A multi request that failed its access check is pending with the error \<open>ZNOAUTH\<close>.
\<close>

definition refused :: "KeeperStorage \<Rightarrow> RequestForSession \<Rightarrow> bool" where
  "refused st r \<longleftrightarrow>
     (case body (rfs_request r) of
        MultiRequest ty rs \<Rightarrow> \<exists>ds. pending st = mkError (rfs_zxid r) ZNOAUTH # ds
      | _ \<Rightarrow> False)"

lemma serving_commit_returns:
  assumes s: "serving st (r # q)" and cap: "acl_capacity (length (pending st)) st"
    and reg: "regular (rfs_request r)" "\<not> refused st r"
  shows "\<exists>out st'. processRequest now (rfs_request r) sid (Some (rfs_zxid r)) check_acl False st = Inr (out, st') \<and>
    reply_to (rfs_request r) sid (rfs_zxid r) out"
proof -
  obtain x xs where xs: "keeper_inv st (x # xs)" "tx_req x = rfs_request r"
    using servingD(1) [OF s] by auto
  obtain i "is" where i: "uncommitted_transactions st = i # is" "ti_zxid i = rfs_zxid r"
    using servingD(2) [OF s] by (auto simp: list_all2_Cons1 entry_ok_def)
  obtain t1 where t1: "tx_ok (ti_zxid i) (rfs_request r) (tx_deltas x) (committed_tree st) t1"
      "\<forall>d\<in>set (tx_deltas x). d_zxid d = ti_zxid i"
    using keeper_invD(6) [OF xs(1)] i(1) xs(2) by (auto simp: tx_step_def)
  have canon: "canonical_creates (tx_deltas x)" using tx_canonical [OF t1(1)] servingD(3) [OF s] by simp
  have "\<not> refused_multi x"
  proof
    assume "refused_multi x"
    then obtain ty rs z where m: "body (rfs_request r) = MultiRequest ty rs" "tx_deltas x = [mkError z ZNOAUTH]"
      using xs(2) by (auto simp: refused_multi_def)
    then have "z = rfs_zxid r" using t1(2) i(2) by (simp add: mkError_def)
    then show False using reg(2) m keeper_invD(5) [OF xs(1)] by (simp add: refused_def)
  qed
  moreover have "acl_capacity (length (tx_deltas x)) st"
    using acl_capacity_mono [OF cap] keeper_invD(5) [OF xs(1)] by simp
  ultimately show ?thesis
    using processRequest_reply [OF xs(1) i(1) servingD(4) [OF s] _ canon, of now sid check_acl]
      servingD(5) [OF s] reg(1) xs(2) i(2) by (auto simp: sessions_ok_def)
qed

lemma commit_progress:
  assumes inv: "machine_inv (sm, r # q)"
    and cap: "acl_capacity (length (pending (storage sm))) (storage sm)"
    and reg: "tracked r \<Longrightarrow> regular (rfs_request r)" "\<not> refused (storage sm) r"
  shows "\<exists>sm'. sm_commit now k r sm = Inr sm'"
proof -
  note s = machine_invD(1) [OF inv]
  have l: "localLogsPreprocessed sm" using machine_invD(3) [OF inv] by blast
  have "\<exists>sm'. commit_request now (entry_at k r) sm = Inr sm'"
  proof (cases "tracked r")
    case True
    then have s: "serving (storage sm) (r # filter tracked q)" using s by simp
    have nz: "rfs_zxid r \<noteq> 0" using serving_zxid_pos [OF s, of r] by simp
    obtain out st' where p: "processRequest now (rfs_request r) (rfs_session_id r) (Some (rfs_zxid r)) True False
        (storage sm) = Inr (out, st')"
      using serving_commit_returns [OF s cap reg(1) [OF True] reg(2)] by blast
    have "\<nexists>a b c. body (rfs_request r) = SessionIDRequest a b c" using True by (auto simp: tracked_def getOpNum_def)
    moreover have "assert_entry_digest (entry_at k r) st' True = Inr ()"
      using serving_commit(3) [OF s cap p] entry_zxid_same(3) [OF nz] by (simp add: assert_entry_digest_def)
    ultimately show ?thesis
      using p entry_zxid_same [OF nz] by (cases "body (rfs_request r)") (auto simp: commit_request_def)
  next
    case False
    then obtain a b d where "body (rfs_request r) = SessionIDRequest a b d"
      by (cases "body (rfs_request r)") (auto simp: tracked_def getOpNum_def split: if_splits)
    with serving_session_id [OF s, of now b] show ?thesis
      by (auto simp: commit_request_def commit_session_id_def)
  qed
  then show ?thesis using l by (auto simp: sm_commit_def Let_def)
qed

lemma leader_progress:
  assumes inv: "machine_inv (sm, q)" and l: "localLogsPreprocessed sm" and r: "client_entry r"
    and ok: "\<not> isl (get_processor (rfs_request r))" "handleSystemNodeModification (keeper_context (storage sm)) = Inr ()"
    and d: "case rfs_digest r of None \<Rightarrow> True | Some d \<Rightarrow> dg_version d = NO_DIGEST"
  shows "\<exists>r' sm'. PreAppendLogLeader r sm = Inr (Some r', sm')"
proof (cases "tracked r")
  case True
  let ?r = "r\<lparr>rfs_zxid := getNextZXID (storage sm)\<rparr>"
  note s = machine_invD(1) [OF inv]
  obtain xs where xs: "keeper_inv (storage sm) xs" using servingD(1) [OF s] by blast
  have w: "well_formed (rfs_request r)" "rfs_session_id r \<noteq> 0" using r by (simp_all add: client_entry_def)
  obtain op where op: "get_processor (rfs_request r) = Inr op" using ok(1) by (cases "get_processor (rfs_request r)") auto
  obtain st' where p: "preprocessRequest (rfs_request r) (rfs_session_id r) (rfs_time r) (getNextZXID (storage sm)) True
      (rfs_digest r) (rfs_log_idx r) (storage sm) = Inr st'"
    using preprocessRequest_returns [OF xs order_refl w(2) op ok(2) well_formed_slashes [OF w(1)]
        checkAuth_returns [OF servingD(4) [OF s] w(1)]] by blast
  have "assert_entry_digest ?r st' False = Inr ()"
    using d by (auto simp: assert_entry_digest_ok checkDigest_def split: option.splits)
  with p l True r servingD(8) [OF s] show ?thesis
    by (simp add: PreAppendLogLeader_def sm_preprocess_def tracked_def client_entry_def Let_def)
next
  case False
  with l show ?thesis by (simp add: PreAppendLogLeader_def untracked_preprocess Let_def)
qed

lemma read_progress:
  assumes inv: "machine_inv (sm, q)" and r: "read_request (rfs_request r)" "well_formed (rfs_request r)"
  shows "\<exists>out sm'. processReadRequest now r sm = Inr sm' \<and> side (storage sm) (storage sm') \<and> length out = 1 \<and>
    reply_to (rfs_request r) (rfs_session_id r) (storage_zxid (storage sm)) out \<and> sm' = fold try_push out (sm\<lparr>storage := storage sm'\<rparr>)"
proof -
  note s = machine_invD(1) [OF inv]
  obtain xs where "keeper_inv (storage sm) xs" using servingD(1) [OF s] by blast
  from local_read_returns [OF keeper_invD(1) [OF this] servingD(4,5) [OF s] r, of now "rfs_session_id r"]
  show ?thesis by (force simp: processReadRequest_def)
qed

end
