(* ===== verification/KeeperExamples.thy ===== *)
theory KeeperExamples
  imports KeeperRuns
begin

text \<open>
  Concrete runs: a server that has just started, a request that its leader appends, and the
  configuration after the commit. They show that the hypotheses of the theorems about runs can be
  met.
\<close>

definition digest_context :: KeeperContext where
  "digest_context = example_context\<lparr>digestEnabled := True\<rparr>"

definition example_storage :: "KeeperContext \<Rightarrow> KeeperStorage" where
  "example_storage kc = projr (KeeperStorage_init 500 [] kc True)"

definition example_machine :: "KeeperContext \<Rightarrow> KeeperStateMachine" where
  "example_machine kc = (KeeperStateMachine_init (example_storage kc))\<lparr>localLogsPreprocessed := True\<rparr>"

definition example_entry :: "RequestBody \<Rightarrow> RequestForSession" where
  "example_entry b =
     \<lparr>rfs_session_id = 1, rfs_time = 0, rfs_request = ZooKeeperRequest 1 False False b, rfs_zxid = 0,
      rfs_digest = None, rfs_log_idx = 0\<rparr>"

definition example_create :: "path \<Rightarrow> bool \<Rightarrow> ACLs \<Rightarrow> RequestForSession" where
  "example_create p ephemeral acls =
     example_entry (CreateRequest \<lparr>cr_path = p, cr_data = ''data'', cr_is_ephemeral = ephemeral,
       cr_is_sequential = False, cr_acls = acls, cr_not_exists = False, cr_parent_cversion = - 1\<rparr>)"

definition world_acl :: ACLs where
  "world_acl = [\<lparr>permissions = 31, acl_scheme = ''world'', acl_ident = ''anyone''\<rparr>]"

definition private_acl :: ACLs where
  "private_acl = [\<lparr>permissions = 31, acl_scheme = ''digest'', acl_ident = ''user:hash''\<rparr>]"

text \<open>Append a request at the leader; commit the first entry of the log.\<close>

definition run_append :: "RequestForSession \<Rightarrow> configuration \<Rightarrow> configuration" where
  "run_append r s =
     (case s of (sm, q) \<Rightarrow>
        case PreAppendLogLeader r sm of Inr (Some r', sm') \<Rightarrow> (sm', q @ [r']) | _ \<Rightarrow> s)"

definition run_commit :: "configuration \<Rightarrow> configuration" where
  "run_commit s =
     (case s of
        (sm, r # q) \<Rightarrow>
          (case sm_commit 0 (lastCommittedIndex sm + 1) r sm of Inr sm' \<Rightarrow> (sm', q) | _ \<Rightarrow> s)
      | _ \<Rightarrow> s)"

lemma run_append_reachable:
  assumes "reachable s" and "client_entry r"
  shows "reachable (run_append r s)"
proof -
  obtain sm q where s: "s = (sm, q)" by fastforce
  show ?thesis
  proof (cases "PreAppendLogLeader r sm")
    case (Inr x)
    then obtain e sm' where "PreAppendLogLeader r sm = Inr (e, sm')" by (cases x) auto
    then show ?thesis
      using reachable.step [OF assms(1) [unfolded s] raft_step.append_leader [OF assms(2)]] assms(1) s
      by (cases e) (auto simp: run_append_def)
  qed (use assms(1) s in \<open>simp add: run_append_def\<close>)
qed

lemma run_commit_reachable:
  assumes "reachable s" and "localLogsPreprocessed (fst s)"
    and "acl_capacity (length (pending (storage (fst s)))) (storage (fst s))"
  shows "reachable (run_commit s)"
proof -
  obtain sm q where s: "s = (sm, q)" by fastforce
  show ?thesis
  proof (cases q)
    case (Cons r q')
    then show ?thesis
      using reachable.step [OF assms(1) [unfolded s Cons] raft_step.commit] assms s
      by (cases "sm_commit 0 (lastCommittedIndex sm + 1) r sm") (auto simp: run_commit_def)
  qed (use assms(1) s in \<open>simp add: run_commit_def\<close>)
qed

subsection \<open>The start\<close>

lemma example_storage:
  assumes "systemNodesWithData kc = []"
  shows "KeeperStorage_init 500 [] kc True = Inr (example_storage kc)" and "sys_nodes_ok (systemNodesWithData kc)"
    and "keeper_context (example_storage kc) = kc" and "pending (example_storage kc) = []"
proof -
  show ok: "sys_nodes_ok (systemNodesWithData kc)" using assms by (simp add: sys_nodes_ok_def)
  obtain st where st: "KeeperStorage_init 500 [] kc True = Inr st" "keeper_inv st []" "keeper_context st = kc"
    using KeeperStorage_init_ok [OF ok, of 500 "[]"] by blast
  then show "KeeperStorage_init 500 [] kc True = Inr (example_storage kc)" by (simp add: example_storage_def)
  then have "example_storage kc = st" using st(1) by simp
  with st show "keeper_context (example_storage kc) = kc" "pending (example_storage kc) = []"
    using keeper_invD(5) by auto
qed

lemma example_reachable:
  assumes "systemNodesWithData kc = []"
  shows "reachable (example_machine kc, [])"
proof -
  have "reachable (KeeperStateMachine_init (example_storage kc), [])"
    by (rule reachable.start [OF example_storage(2,1) [OF assms]])
  moreover have "raft_step (KeeperStateMachine_init (example_storage kc), []) (example_machine kc, [])"
    by (rule raft_step.local_logs_preprocessed)
      (simp add: preprocess_logs_def example_machine_def KeeperStateMachine_init_def)
  ultimately show ?thesis by (rule reachable.step)
qed

lemma example_capacity:
  assumes "systemNodesWithData kc = []" and "k < 2 ^ 60"
  shows "acl_capacity k (example_storage kc)"
proof -
  let ?f = "KeeperStorage_fields 500 [] kc"
  obtain d where d: "addDigest ''/'' Node_default (container_insert ''/'' Node_default ?f) =
      (container_insert ''/'' Node_default ?f)\<lparr>nodes_digest := d\<rparr>" using digest_forms(1) by blast
  let ?s = "(container_insert ''/'' Node_default ?f)\<lparr>nodes_digest := d\<rparr>"
  have c: "container ?s = [''/'' \<mapsto> Node_default]" "initialized ?s = False" "keeper_context ?s = kc"
      "acl_map ?s = ACLMap_init"
    by (simp_all add: container_insert_def KeeperStorage_fields_def)
  obtain dg m where "insert_system_root ?s = Inr (?s\<lparr>container := [''/'' \<mapsto> Node_default, keeper_system_path \<mapsto> Node_default,
      ''/'' \<mapsto> m], nodes_digest := dg\<rparr>)"
    using insert_system_root_eq [of ?s Node_default] c(1) system_not_root by auto
  then have st: "example_storage kc = ?s\<lparr>container := [keeper_system_path \<mapsto> Node_default, ''/'' \<mapsto> m],
      nodes_digest := dg, initialized := True\<rparr>"
    using d c assms(1) system_not_root
    by (simp add: example_storage_def KeeperStorage_init_def initializeSystemNodes_def fun_upd_twist)
  have "card (dom (container (example_storage kc))) \<le> 2" unfolding st by (simp add: card_insert_if)
  moreover have "acl_room ACLMap_init k" using assms(2) by (simp add: acl_room_def ACLMap_init_def)
  moreover have "acl_map (example_storage kc) = ACLMap_init" unfolding st using c(4) by simp
  ultimately show ?thesis using assms(2) by (simp add: acl_capacity_def)
qed

end
