(* ===== verification/KeeperFacts.thy ===== *)
theory KeeperFacts
  imports KeeperExamples
begin

text \<open>
  Consequences of the invariant for reachable configurations, in terms of the data structures of
  the storage.
\<close>

lemma reachable_serving: "reachable (sm, q) \<Longrightarrow> serving (storage sm) (filter tracked q)"
  using reachable_inv machine_invD(1) by blast

lemma reachable_keeper:
  assumes "reachable (sm, q)"
  obtains xs where "keeper_inv (storage sm) xs" and "map tx_req xs = map rfs_request (filter tracked q)"
  using servingD(1) [OF reachable_serving [OF assms]] by blast

subsection \<open>Children\<close>

lemma children_names:
  assumes "kids_ok c" and "c p = Some n"
  shows "set (n_children n) = getBaseNodeName ` children_of (core_tree c) p"
    and "inj_on getBaseNodeName (children_of (core_tree c) p)"
proof -
  show "set (n_children n) = getBaseNodeName ` children_of (core_tree c) p"
    using kids_okD(4) [OF assms] by (auto simp: children_of_def child_at_def)
  show "inj_on getBaseNodeName (children_of (core_tree c) p)"
  proof (rule inj_onI)
    fix q r
    assume q: "q \<in> children_of (core_tree c) p" and r: "r \<in> children_of (core_tree c) p"
      and eq: "getBaseNodeName q = getBaseNodeName r"
    have "fs_join p (getBaseNodeName x) = x" if "x \<in> children_of (core_tree c) p" for x
      using that canonical_join [of x p] kids_okD(1) [OF assms(1), of x] by (auto simp: children_of_def)
    with q r eq show "q = r" by metis
  qed
qed

lemma children_count:
  assumes "kids_ok c" and "c p = Some n"
  shows "card (children_of (core_tree c) p) = length (n_children n)"
  using children_names [OF assms] kids_okD(3) [OF assms] by (metis card_image distinct_card)

lemma committed_node_facts:
  assumes "reachable (sm, q)" and p: "container (storage sm) p = Some n"
  shows "\<exists>parent m. parentNodePath p = Some parent \<and> container (storage sm) parent = Some m \<and> \<not> isEphemeral m \<and>
      (p \<noteq> parent \<longrightarrow> getBaseNodeName p \<in> set (n_children m))"
    and "distinct (n_children n)"
    and "set (n_children n) =
      {getBaseNodeName c |c. c \<noteq> p \<and> parentNodePath c = Some p \<and> container (storage sm) c \<noteq> None}"
    and "p \<noteq> keeper_system_path \<Longrightarrow> numChildren n = int (length (n_children n))"
    and "isEphemeral n \<longleftrightarrow> ephemeralOwner n \<noteq> 0"
proof -
  let ?c = "container (storage sm)"
  obtain xs where inv: "keeper_inv (storage sm) xs" using reachable_keeper [OF assms(1)] by blast
  have k: "kids_ok ?c" using servingD(4) [OF reachable_serving [OF assms(1)]] by (simp add: contents_ok_def)
  have t: "tree_inv (core_tree ?c)" using keeper_invD(4) [OF inv] by (simp add: committed_tree_def)
  have "core_tree ?c p = Some (core n)" using p by (simp add: core_tree_apply)
  note ok = tree_invD(4) [OF t this]
  from ok obtain parent m' where m': "parentNodePath p = Some parent" "core_tree ?c parent = Some m'" "\<not> isEphemeral m'"
    by (auto simp: node_ok_def)
  then obtain m where m: "?c parent = Some m" "\<not> isEphemeral m" by (auto simp: core_tree_apply)
  have "getBaseNodeName p \<in> set (n_children m)" if "p \<noteq> parent"
    using children_names(1) [OF k m(1)] that m'(1) p by (auto simp: children_of_def)
  with m m'(1) show "\<exists>parent m. parentNodePath p = Some parent \<and> ?c parent = Some m \<and> \<not> isEphemeral m \<and>
      (p \<noteq> parent \<longrightarrow> getBaseNodeName p \<in> set (n_children m))" by blast
  show "distinct (n_children n)" by (rule kids_okD(3) [OF k p])
  show "set (n_children n) = {getBaseNodeName c |c. c \<noteq> p \<and> parentNodePath c = Some p \<and> ?c c \<noteq> None}"
    using children_names(1) [OF k p] by (auto simp: children_of_def)
  show "p \<noteq> keeper_system_path \<Longrightarrow> numChildren n = int (length (n_children n))"
    using ok children_count [OF k p] by (simp add: node_ok_def)
  show "isEphemeral n \<longleftrightarrow> ephemeralOwner n \<noteq> 0" using ok by (simp add: node_ok_def)
qed

subsection \<open>Ephemeral nodes and interned lists\<close>

lemma reachable_ephemerals:
  assumes "reachable (sm, q)" and "sid \<noteq> 0"
  shows "distinct (bucket (ephemerals (storage sm)) sid)"
    and "set (bucket (ephemerals (storage sm)) sid) =
      {p. \<exists>n. getNode (storage sm) p = Some n \<and> isEphemeral n \<and> ephemeralOwner n = sid}"
proof -
  obtain xs where "keeper_inv (storage sm) xs" using reachable_keeper [OF assms(1)] by blast
  then have s: "sound (storage sm)" by (rule keeper_invD(3))
  then have e: "eph_entry (ephemerals (storage sm) sid) (eph_set (view (storage sm)) sid)"
    using assms(2) by (simp add: sound_def eph_ok_def)
  then show "distinct (bucket (ephemerals (storage sm)) sid)"
    by (auto simp: eph_entry_def bucket_def split: option.splits)
  have owner: "ephemeralOwner n = sid \<Longrightarrow> isEphemeral n" for n :: Node
    using assms(2) by (auto simp: ephemeralOwner_def split: if_splits)
  have "set (bucket (ephemerals (storage sm)) sid) = eph_set (view (storage sm)) sid"
    using e by (auto simp: eph_entry_def bucket_def split: option.splits)
  also have "\<dots> = {p. \<exists>n. getNode (storage sm) p = Some n \<and> isEphemeral n \<and> ephemeralOwner n = sid}"
    using owner by (auto simp: eph_set_def view_def)
  finally show "set (bucket (ephemerals (storage sm)) sid) =
      {p. \<exists>n. getNode (storage sm) p = Some n \<and> isEphemeral n \<and> ephemeralOwner n = sid}" .
qed

lemma reachable_acls:
  assumes "reachable (sm, q)"
  shows "a \<noteq> 0 \<Longrightarrow> (case usage_counter (acl_map (storage sm)) a of None \<Rightarrow> 0 | Some c \<Rightarrow> unat c) =
      card {p. \<exists>n. container (storage sm) p = Some n \<and> n_acl_id n = a}"
    and "container (storage sm) p = Some n \<Longrightarrow> \<exists>acls. convertNumber (acl_map (storage sm)) (n_acl_id n) = Inr acls"
proof -
  have ok: "acl_ok (storage sm)" using servingD(4) [OF reachable_serving [OF assms]] by (simp add: contents_ok_def)
  show "a \<noteq> 0 \<Longrightarrow> (case usage_counter (acl_map (storage sm)) a of None \<Rightarrow> 0 | Some c \<Rightarrow> unat c) =
      card {p. \<exists>n. container (storage sm) p = Some n \<and> n_acl_id n = a}"
  proof -
    assume "a \<noteq> 0"
    then have u: "if acl_users (container (storage sm)) a = 0 then usage_counter (acl_map (storage sm)) a = None
        else \<exists>c. usage_counter (acl_map (storage sm)) a = Some c \<and> unat c = acl_users (container (storage sm)) a"
      using ok by (simp add: acl_ok_def acl_counts_def)
    have "{p. map_option n_acl_id (container (storage sm) p) = Some a} =
        {p. \<exists>n. container (storage sm) p = Some n \<and> n_acl_id n = a}" by auto
    then have "acl_users (container (storage sm)) a = card {p. \<exists>n. container (storage sm) p = Some n \<and> n_acl_id n = a}"
      by (simp add: acl_users_def)
    with u show ?thesis by (auto split: if_splits option.splits)
  qed
  show "container (storage sm) p = Some n \<Longrightarrow> \<exists>acls. convertNumber (acl_map (storage sm)) (n_acl_id n) = Inr acls"
    by (rule acl_resolves [OF ok])
qed

subsection \<open>Committing and rolling back\<close>

lemma fold_try_push_queue:
  "responses_queue (fold try_push rs sm) = (if queue_finished sm then responses_queue sm else responses_queue sm @ rs)"
  by (induction rs arbitrary: sm) (simp_all add: try_push_def)

lemma tracked_commit:
  assumes "reachable (sm, r # q)" and "tracked r" and "sm_commit now k r sm = Inr sm'"
  obtains out where "processRequest now (rfs_request r) (rfs_session_id r) (Some (rfs_zxid r)) True False (storage sm)
      = Inr (out, storage sm')"
    and "serving (storage sm) (r # filter tracked q)"
    and "responses_queue sm' = (if queue_finished sm then responses_queue sm else responses_queue sm @ out)"
proof -
  note inv = reachable_inv [OF assms(1)]
  have s: "serving (storage sm) (r # filter tracked q)" using machine_invD(1) [OF inv] assms(2) by simp
  have nz: "rfs_zxid r \<noteq> 0" using serving_zxid_pos [OF s, of r] by simp
  have "localLogsPreprocessed sm" using machine_invD(3) [OF inv] by blast
  then obtain sm1 where c: "commit_request now (entry_at k r) sm = Inr sm1" "sm' = sm1\<lparr>lastCommittedIndex := k\<rparr>"
    using assms(3) by (auto simp: sm_commit_def Let_def)
  have "\<nexists>a b c. body (rfs_request r) = SessionIDRequest a b c" using assms(2) by (auto simp: tracked_def getOpNum_def)
  then obtain out st' where
    "processRequest now (rfs_request r) (rfs_session_id r) (Some (rfs_zxid r)) True False (storage sm) = Inr (out, st')"
    "sm1 = fold try_push out (sm\<lparr>storage := st'\<rparr>)"
    using c(1) entry_zxid_same [OF nz, of k] by (cases "body (rfs_request r)") (auto simp: commit_request_def)
  with c(2) s that show ?thesis by (simp add: fold_try_push_queue)
qed

lemma serving_commit_deltas:
  assumes s: "serving st (r # q)"
    and p: "processRequest now (rfs_request r) sid (Some (rfs_zxid r)) check_acl False st = Inr (out, st')"
  shows "\<exists>ds. pending st = ds @ pending st' \<and> (\<forall>d\<in>set ds. d_zxid d = rfs_zxid r) \<and>
    tree_run ds (committed_tree st) = Some (committed_tree st') \<and>
    nodes_digest st' = nodes_digest st + digest_add st (tree_digest (committed_tree st') - tree_digest (committed_tree st))"
proof -
  obtain x xs where xs: "keeper_inv st (x # xs)" "tx_req x = rfs_request r" using servingD(1) [OF s] by auto
  obtain i "is" where i: "uncommitted_transactions st = i # is" "ti_zxid i = rfs_zxid r"
    using servingD(2) [OF s] by (auto simp: list_all2_Cons1 entry_ok_def)
  let ?st0 = "st\<lparr>storage_zxid := rfs_zxid r, uncommitted_transactions := is\<rparr>"
  have adv: "advanced ?st0 (tx_deltas x) (concat (map tx_deltas xs)) st'"
    using processRequest_advanced [OF xs i(1) p] by blast
  have "\<forall>d\<in>set (tx_deltas x). d_zxid d = rfs_zxid r"
    using keeper_invD(6) [OF xs(1)] i by (auto simp: tx_step_def)
  then show ?thesis
    using adv keeper_invD(5) [OF xs(1)]
    by (intro exI [of _ "tx_deltas x"]) (simp add: advanced_def committed_tree_def digest_add_def)
qed

lemma leader_preprocess:
  assumes "client_entry r" and "tracked r" and "PreAppendLogLeader r sm = Inr (Some r', sm')"
  shows "\<exists>st. sm' = sm\<lparr>storage := st\<rparr> \<and> rfs_zxid r' = getNextZXID (storage sm) \<and> tracked r' \<and>
    preprocess_new (rfs_request r) (rfs_session_id r) (rfs_time r) (getNextZXID (storage sm)) True
      (rfs_log_idx r) (storage sm) = Inr st"
  using assms by (auto simp: PreAppendLogLeader_def sm_preprocess_def preprocessRequest_def tracked_def client_entry_def
      Let_def split: sum.splits if_splits)

lemma rollback_after_append:
  assumes reach: "reachable (sm, q)" and r: "client_entry r" "tracked r"
    and p: "PreAppendLogLeader r sm = Inr (Some r', sm1)"
  shows "\<exists>sm2. AppendLogFailed r' sm1 = Inr sm2 \<and>
    container (storage sm2) = container (storage sm) \<and> acl_map (storage sm2) = acl_map (storage sm) \<and>
    view (storage sm2) = view (storage sm) \<and> pending (storage sm2) = pending (storage sm) \<and>
    uncommitted_transactions (storage sm2) = uncommitted_transactions (storage sm) \<and>
    getNodesDigest (storage sm2) False = getNodesDigest (storage sm) False \<and>
    (\<forall>sid. sid \<noteq> 0 \<longrightarrow>
       set (bucket (ephemerals (storage sm2)) sid) = set (bucket (ephemerals (storage sm)) sid))"
proof -
  let ?r = "r\<lparr>rfs_zxid := getNextZXID (storage sm)\<rparr>"
  obtain st1 where st1: "sm1 = sm\<lparr>storage := st1\<rparr>" "rfs_zxid r' = getNextZXID (storage sm)" "tracked r'"
      "preprocess_new (rfs_request r) (rfs_session_id r) (rfs_time r) (getNextZXID (storage sm)) True
        (rfs_log_idx r) (storage sm) = Inr st1"
    using leader_preprocess [OF r p] by blast
  obtain xs where xs: "keeper_inv (storage sm) xs" using reachable_keeper [OF reach] by blast
  have sid: "rfs_session_id r \<noteq> 0" using r(1) by (simp add: client_entry_def)
  obtain x where x: "keeper_inv st1 (xs @ [x])" using preprocess_new_ok [OF xs order_refl sid st1(4)] by blast
  obtain i where e: "prepares (storage sm) st1" "ti_zxid i = getNextZXID (storage sm)"
      "uncommitted_transactions st1 = uncommitted_transactions (storage sm) @ [i]"
    using preprocess_new_effect [OF xs order_refl sid st1(4)] by blast
  then have "getNextZXID (storage sm) = ti_zxid (last (uncommitted_transactions st1))" by simp
  from rollbackRequest_ok [OF x this, of True] obtain st2 where
    rb: "rollbackRequest (getNextZXID (storage sm)) True st1 = Inr st2" "keeper_inv st2 xs" by blast
  have e2: "prepares st1 st2" "uncommitted_transactions st2 = uncommitted_transactions (storage sm)"
    using rollbackRequest_effect [OF rb(1)] e by auto
  note fr = prepares_frame [OF prepares_trans [OF e(1) e2(1)]]
  have dg: "nodes_digest st2 = nodes_digest (storage sm)" "keeper_context st2 = keeper_context (storage sm)"
    using e(1) e2(1) by (auto elim!: preparesE)
  have "committed_tree st2 = committed_tree (storage sm)" using fr(1) by (simp add: committed_tree_def)
  then have v: "view st2 = view (storage sm)"
    using txs_ok_run [OF keeper_invD(6) [OF rb(2)]] txs_ok_run [OF keeper_invD(6) [OF xs]] by simp
  have "set (bucket (ephemerals st2) sid) = set (bucket (ephemerals (storage sm)) sid)" if "sid \<noteq> 0" for sid
  proof -
    have "eph_entry (ephemerals s sid) (eph_set (view (storage sm)) sid)" if "keeper_inv s xs" "view s = view (storage sm)" for s
      using keeper_invD(3) [OF that(1)] that(2) \<open>sid \<noteq> 0\<close> by (simp add: sound_def eph_ok_def)
    from this [OF rb(2) v] this [OF xs refl] show ?thesis
      by (auto simp: eph_entry_def bucket_def split: option.splits)
  qed
  moreover have "pending st2 = pending (storage sm)" using keeper_invD(5) [OF rb(2)] keeper_invD(5) [OF xs] by simp
  moreover have "getNodesDigest st2 False = getNodesDigest (storage sm) False"
    using dg e2(2) by (simp add: getNodesDigest_def)
  moreover have "AppendLogFailed r' sm1 = Inr (sm1\<lparr>storage := st2\<rparr>)"
    using rb(1) st1(1-3) by (simp add: AppendLogFailed_def sm_rollbackRequest_def tracked_def)
  ultimately show ?thesis using fr(1,2) v e2(2) by simp
qed

subsection \<open>Example configurations\<close>

lemma example_contexts [simp]:
  "systemNodesWithData example_context = []" "systemNodesWithData digest_context = []"
  "handleSystemNodeModification example_context = Inr ()" "handleSystemNodeModification digest_context = Inr ()"
  "digestEnabled digest_context"
  by (simp_all add: example_context_def digest_context_def handleSystemNodeModification_def)

lemma example_create_entry [simp]:
  "client_entry (example_create ''/a'' e acls)"
  "\<not> isl (get_processor (rfs_request (example_create ''/a'' e acls)))"
  "regular (rfs_request (example_create ''/a'' e acls))" "tracked (example_create ''/a'' e acls)"
  by (simp_all add: client_entry_def example_create_def example_entry_def well_formed_def canonical_def getOpNum_def
      get_processor_def regular_def tracked_def)

lemma example_create_like:
  assumes "rfs_request r = rfs_request (example_create ''/a'' e acls)"
  shows "regular (rfs_request r)" "tracked r" "\<not> refused st r"
  using example_create_entry(3,4) [of e acls] assms
  by (auto simp: tracked_def refused_def) (simp add: example_create_def example_entry_def)

text \<open>An ephemeral node of session 1, pending and then committed.\<close>

definition pending_example :: configuration where
  "pending_example = run_append (example_create ''/a'' True private_acl) (example_machine example_context, [])"

definition committed_example :: configuration where
  "committed_example = run_commit pending_example"

lemma pending_example_reachable: "reachable pending_example"
  unfolding pending_example_def
  by (intro run_append_reachable example_reachable) simp_all

lemma append_frame:
  assumes "reachable (sm, q)" and "client_entry r" and "PreAppendLogLeader r sm = Inr (Some r', sm')"
  shows "prepares (storage sm) (storage sm')" and "localLogsPreprocessed sm'" and "tracked r' = tracked r"
    and "rfs_request r' = rfs_request r" and "rfs_session_id r' = rfs_session_id r"
proof -
  let ?r = "r\<lparr>rfs_zxid := getNextZXID (storage sm)\<rparr>"
  have p: "sm_preprocess ?r sm = Inr (True, sm')" "localLogsPreprocessed sm"
      "r' = ?r\<lparr>rfs_digest := Some (getNodesDigest (storage sm') False)\<rparr>"
    using assms(3) by (auto simp: PreAppendLogLeader_def Let_def split: if_splits)
  obtain xs where xs: "keeper_inv (storage sm) xs" using reachable_keeper [OF assms(1)] by blast
  show "prepares (storage sm) (storage sm')"
  proof (cases "tracked r")
    case True
    then obtain st where st: "sm' = sm\<lparr>storage := st\<rparr>"
        "preprocess_new (rfs_request r) (rfs_session_id r) (rfs_time r) (getNextZXID (storage sm)) True
          (rfs_log_idx r) (storage sm) = Inr st"
      using p(1) assms(2)
      by (auto simp: sm_preprocess_def preprocessRequest_def tracked_def client_entry_def Let_def
          split: sum.splits if_splits)
    then show ?thesis
      using preprocess_new_effect [OF xs order_refl _ st(2)] assms(2) by (simp add: client_entry_def)
  qed (use p(1) in \<open>simp add: untracked_preprocess\<close>)
  show "localLogsPreprocessed sm'"
    using sm_preprocess_serving [OF reachable_serving [OF assms(1)] _ _ p(1)] assms(2) p(2) by simp
  show "tracked r' = tracked r" "rfs_request r' = rfs_request r" "rfs_session_id r' = rfs_session_id r"
    using p(3) by simp_all
qed

lemma run_append_frame:
  assumes "reachable s" and "client_entry r"
  shows "acl_capacity k (storage (fst (run_append r s))) = acl_capacity k (storage (fst s))"
    and "localLogsPreprocessed (fst s) \<Longrightarrow> localLogsPreprocessed (fst (run_append r s))"
proof -
  obtain sm q where s: "s = (sm, q)" by fastforce
  have f: "acl_capacity k (storage sm') = acl_capacity k (storage sm) \<and> localLogsPreprocessed sm'"
    if "PreAppendLogLeader r sm = Inr (Some r', sm')" for r' sm'
    using append_frame [OF assms(1) [unfolded s] assms(2) that] prepares_frame [of "storage sm" "storage sm'"]
    by (simp add: acl_capacity_def)
  show "acl_capacity k (storage (fst (run_append r s))) = acl_capacity k (storage (fst s))"
    "localLogsPreprocessed (fst s) \<Longrightarrow> localLogsPreprocessed (fst (run_append r s))"
    using f s by (auto simp: run_append_def split: sum.splits option.splits)
qed

lemma example_machine_start [simp]:
  "localLogsPreprocessed (example_machine kc)" "storage (example_machine kc) = example_storage kc"
  by (simp_all add: example_machine_def KeeperStateMachine_init_def)

lemma example_append_ready:
  assumes "systemNodesWithData kc = []" and "client_entry r" and "k < 2 ^ 60"
  shows "reachable (run_append r (example_machine kc, []))"
    and "localLogsPreprocessed (fst (run_append r (example_machine kc, [])))"
    and "acl_capacity k (storage (fst (run_append r (example_machine kc, []))))"
  using run_append_reachable [OF example_reachable [OF assms(1)] assms(2)]
    run_append_frame [OF example_reachable [OF assms(1)] assms(2)] example_capacity [OF assms(1,3)] by simp_all

lemma pending_example_deltas: "length (pending (storage (fst pending_example))) = 2"
  by code_simp

lemma committed_example_reachable: "reachable committed_example"
  unfolding committed_example_def
  using example_append_ready [of example_context "example_create ''/a'' True private_acl" 2] pending_example_deltas
  by (intro run_commit_reachable) (simp_all add: pending_example_def)

lemma committed_example_node: "container (storage (fst committed_example)) ''/a'' \<noteq> None"
  by code_simp

text \<open>The log of that configuration, and the same request at a server that keeps digests.\<close>

definition pending_entry :: RequestForSession where
  "pending_entry = hd (snd pending_example)"

lemma pending_example_eq: "pending_example = (fst pending_example, [pending_entry])"
proof -
  have "length (snd pending_example) = 1" by code_simp
  then have "snd pending_example = [pending_entry]" by (auto simp: pending_entry_def length_Suc_conv)
  then show ?thesis by (metis prod.collapse)
qed

lemma pending_example_log:
  "reachable (fst pending_example, [pending_entry])" "tracked pending_entry"
  "acl_capacity (length (pending (storage (fst pending_example)))) (storage (fst pending_example))"
  "regular (rfs_request pending_entry)" "\<not> refused (storage (fst pending_example)) pending_entry"
proof -
  show reach: "reachable (fst pending_example, [pending_entry])"
    using pending_example_reachable pending_example_eq by simp
  have "PreAppendLogLeader (example_create ''/a'' True private_acl) (example_machine example_context) =
      Inr (Some pending_entry, fst pending_example)"
    using pending_example_eq by (auto simp: pending_example_def run_append_def split: sum.splits option.splits)
  from append_frame(4) [OF example_reachable _ this]
  have "rfs_request pending_entry = rfs_request (example_create ''/a'' True private_acl)" by simp
  from example_create_like [OF this] show "tracked pending_entry" "regular (rfs_request pending_entry)"
    "\<not> refused (storage (fst pending_example)) pending_entry" by blast+
  show "acl_capacity (length (pending (storage (fst pending_example)))) (storage (fst pending_example))"
    using example_append_ready(3) [of example_context "example_create ''/a'' True private_acl" 2] pending_example_deltas
    by (simp add: pending_example_def)
qed

lemma create_preprocess_length:
  assumes "create_preprocess st z sid time dg c = Inr (st', dg', ds)"
  shows "length ds \<le> 2 \<and> uncommitted_state st' = uncommitted_state st"
proof -
  obtain q where "parentNodePath (cr_path c) = Some q"
    using assms by (cases "parentNodePath (cr_path c)") (simp_all add: create_preprocess_def)
  then show ?thesis
    using assms
    by (cases "getNode st q"; cases "fixupACL (cr_acls c) sid st")
      (auto simp: create_preprocess_def create_deltas_def registerEphemeralPath_def Let_def split: if_split_asm)
qed

lemma add_deltas_pending: "add_deltas ds st = Inr st' \<Longrightarrow> pending st' = pending st @ ds"
proof -
  have one: "us_deltas us' = us_deltas us @ [d]" if "addDelta c us d = Inr us'" for c us d us'
    using that by (auto simp: addDelta_def applyDelta_def Let_def split: if_splits Operation.splits)
  have "addDeltas c us ds = Inr us' \<Longrightarrow> us_deltas us' = us_deltas us @ ds" for c us us'
    unfolding addDeltas_def
  proof (induction ds arbitrary: us)
    case (Cons d ds)
    then obtain us1 where "addDelta c us d = Inr us1" "rfold (addDelta c) us1 ds = Inr us'" by auto
    with Cons.IH one show ?case by fastforce
  qed simp
  then show "add_deltas ds st = Inr st' \<Longrightarrow> pending st' = pending st @ ds" by (auto simp: add_deltas_def)
qed

lemma create_pending:
  assumes "body (rfs_request r) = CreateRequest c" and "PreAppendLogLeader r sm = Inr (Some r', sm')"
    and "pending (storage sm) = []"
  shows "length (pending (storage sm')) \<le> 2"
proof -
  let ?st = "storage sm" and ?dg = "dg_value (getNodesDigest (storage sm) False)"
  obtain st' where st': "storage sm' = st'"
      "preprocess_new (rfs_request r) (rfs_session_id r) (rfs_time r) (getNextZXID ?st) True (rfs_log_idx r) ?st = Inr st'"
    using assms(1,2) by (auto simp: PreAppendLogLeader_def sm_preprocess_def preprocessRequest_def getOpNum_def
        Let_def split: sum.splits if_splits)
  obtain ok st1 dg ds where p: "finish_preprocess (getNextZXID ?st) (rfs_log_idx r) (st1, dg, ds) = Inr st'"
      "(if ok then preprocess ?st (getNextZXID ?st) (rfs_session_id r) (rfs_time r) ?dg (rfs_request r)
        else Inr (push_noauth (getNextZXID ?st) ?st, ?dg, [])) = Inr (st1, dg, ds)"
    using st'(2) assms(1) by (auto simp: preprocess_new_def getOpNum_def Let_def split: if_splits)
  have "length (pending st1) + length ds \<le> 2"
  proof (cases ok)
    case True
    then have "create_preprocess ?st (getNextZXID ?st) (rfs_session_id r) (rfs_time r) ?dg c = Inr (st1, dg, ds)"
      using p(2) assms(1) by (simp add: preprocess_def preprocess_simple_def)
    from create_preprocess_length [OF this] assms(3) show ?thesis by simp
  next
    case False
    then show ?thesis using p(2) assms(3) by (auto simp: push_noauth_def)
  qed
  moreover have "pending st' = pending st1 @ ds"
    using p(1) add_deltas_pending by (fastforce simp: finish_preprocess_def Let_def)
  ultimately show ?thesis using st'(1) by simp
qed

definition digest_example :: configuration where
  "digest_example = run_append (example_create ''/a'' False world_acl) (example_machine digest_context, [])"

definition digest_entry :: RequestForSession where
  "digest_entry = hd (snd digest_example)"

lemma digest_example_log:
  "reachable (fst digest_example, [digest_entry])" "tracked digest_entry"
  "acl_capacity (length (pending (storage (fst digest_example)))) (storage (fst digest_example))"
  "regular (rfs_request digest_entry)" "\<not> refused (storage (fst digest_example)) digest_entry"
  "digestEnabled (keeper_context (storage (fst digest_example)))"
proof -
  let ?r = "example_create ''/a'' False world_acl" and ?sm = "example_machine digest_context"
  have start: "reachable (?sm, [])" by (rule example_reachable) simp
  have "\<exists>r' sm'. PreAppendLogLeader ?r ?sm = Inr (Some r', sm')"
    by (rule leader_progress [OF reachable_inv [OF start]])
      (simp_all add: example_storage(3), simp add: example_create_def example_entry_def)
  then have p: "PreAppendLogLeader ?r ?sm = Inr (Some digest_entry, fst digest_example)"
      and ex: "digest_example = (fst digest_example, [digest_entry])"
    by (auto simp: digest_entry_def digest_example_def run_append_def)
  have fr: "prepares (storage ?sm) (storage (fst digest_example))" "rfs_request digest_entry = rfs_request ?r"
    using append_frame [OF start _ p] by simp_all
  show "reachable (fst digest_example, [digest_entry])"
    using run_append_reachable [OF start, of ?r] ex by (simp add: digest_example_def)
  show "tracked digest_entry" "regular (rfs_request digest_entry)"
      "\<not> refused (storage (fst digest_example)) digest_entry"
    using example_create_like [OF fr(2)] by blast+
  have "pending (storage ?sm) = []" by (simp add: example_storage(4))
  moreover have "\<exists>c. body (rfs_request ?r) = CreateRequest c" by (simp add: example_create_def example_entry_def)
  ultimately have "length (pending (storage (fst digest_example))) \<le> 2" using create_pending [OF _ p] by blast
  moreover have "acl_capacity 2 (storage (fst digest_example))"
    using example_append_ready(3) [of digest_context ?r 2] by (simp add: digest_example_def)
  ultimately show "acl_capacity (length (pending (storage (fst digest_example)))) (storage (fst digest_example))"
    using acl_capacity_mono by blast
  show "digestEnabled (keeper_context (storage (fst digest_example)))"
    using prepares_frame(3) [OF fr(1)] example_storage(3) [of digest_context] by (simp add: lasting_def)
qed

end
