(* ===== verification/SequentialNames.thy ===== *)
theory SequentialNames
  imports KeeperPreprocess
begin

text \<open>
  The names of sequential nodes: the number of a sequential node is printed with ten digits, so that
  the names sort as the numbers do. Clients that elect a leader or queue for a lock rely on it.
\<close>

text \<open>The last \<open>w\<close> decimal digits of a number.\<close>

fun digits :: "nat \<Rightarrow> nat \<Rightarrow> string" where
  "digits 0 n = []"
| "digits (Suc w) n = digits w (n div 10) @ [char_of (48 + n mod 10)]"

definition char_less :: "(char \<times> char) set" where
  "char_less = {(a, b). (of_char a :: nat) < of_char b}"

lemma length_digits [simp]: "length (digits w n) = w"
  by (induction w arbitrary: n) simp_all

lemma char_of_zero: "char_of (48 :: nat) = CHR ''0''"
  by code_simp

lemma digits_zero: "digits w 0 = replicate w (CHR ''0'')"
  by (induction w) (simp_all add: char_of_zero replicate_append_same)

lemma decimal_digits: "n < 10 ^ w \<Longrightarrow> 0 < w \<Longrightarrow> replicate (w - length (decimal n)) (CHR ''0'') @ decimal n = digits w n"
proof (induction n arbitrary: w rule: decimal.induct)
  case (1 n)
  obtain v where w: "w = Suc v" using "1.prems"(2) by (cases w) auto
  show ?case
  proof (cases "n < 10")
    case True
    then show ?thesis by (simp add: w decimal.simps [of n] digits_zero)
  next
    case False
    have "n div 10 < 10 ^ v" using "1.prems"(1) w by auto
    moreover have "0 < v" using False "1.prems"(1) w by (cases v) auto
    ultimately show ?thesis using "1.IH" [OF False, of v] False by (simp add: w decimal.simps [of n])
  qed
qed

lemma seq_num_str_digits:
  assumes "0 \<le> k" and "k < 10 ^ 10"
  shows "seq_num_str k = digits 10 (nat k)"
proof -
  have "nat k < 10 ^ 10" using assms by (simp add: nat_less_iff)
  with assms decimal_digits [of "nat k" 10] show ?thesis by (simp add: seq_num_str_def print_int_def)
qed

lemma digits_less:
  "a < b \<Longrightarrow> b < 10 ^ w \<Longrightarrow> (digits w a, digits w b) \<in> lexord char_less"
proof (induction w arbitrary: a b)
  case (Suc w)
  show ?case
  proof (cases "a div 10 < b div 10")
    case True
    have "b div 10 < 10 ^ w" using Suc.prems(2) by auto
    from Suc.IH [OF True this] show ?thesis by (simp add: lexord_sufI)
  next
    case False
    then have eq: "a div 10 = b div 10" using div_le_mono [of a b 10] Suc.prems(1) by simp
    then have "a mod 10 < b mod 10"
      using Suc.prems(1) div_mult_mod_eq [of a 10] div_mult_mod_eq [of b 10] by linarith
    then have "(char_of (48 + a mod 10), char_of (48 + b mod 10)) \<in> char_less"
      by (simp add: char_less_def)
    then show ?thesis by (simp add: eq lexord_append_leftI)
  qed
qed simp

lemma sequential_base_name:
  assumes "parentNodePath p = Some q"
  shows "getBaseNodeName (p @ seq_num_str k) = getBaseNodeName p @ seq_num_str k" "seq_num_str k \<noteq> []"
proof -
  have "decimal n \<noteq> []" for n by (simp add: decimal.simps [of n])
  then show "seq_num_str k \<noteq> []" by (simp add: seq_num_str_def print_int_def Let_def)
  have "CHR ''/'' \<in> set p" using assms by (metis option.distinct(1) parentNodePath_None)
  then obtain a b where ab: "p = a @ CHR ''/'' # b" "CHR ''/'' \<notin> set b" by (rule path_split_last)
  with seq_num_str_no_slash [of k] show "getBaseNodeName (p @ seq_num_str k) = getBaseNodeName p @ seq_num_str k"
    using getBaseNodeName_append [of "b @ seq_num_str k" a] by simp
qed

text \<open>
  C13: The names of sequential nodes sort as their numbers: for the counters the storage can print in
  ten digits, which covers every 32 bit counter, a later node has a lexicographically larger name of
  the same length.
\<close>

theorem sequential_names_sorted:
  assumes "0 \<le> a" and "a < b" and "b < 2 ^ 31"
  shows "length (seq_num_str a) = 10 \<and> length (seq_num_str b) = 10 \<and>
    (p @ seq_num_str a, p @ seq_num_str b) \<in> lexord char_less"
proof -
  have s: "seq_num_str a = digits 10 (nat a)" "seq_num_str b = digits 10 (nat b)"
    using assms by (auto intro!: seq_num_str_digits)
  have "nat a < nat b" "nat b < 10 ^ 10" using assms by (auto simp: nat_less_iff)
  then have "(digits 10 (nat a), digits 10 (nat b)) \<in> lexord char_less" by (rule digits_less)
  then show ?thesis by (simp add: s lexord_append_leftI del: digits.simps)
qed

theorem sequential_names_sorted_witness:
  "seq_num_str 9 = ''0000000009'' \<and> seq_num_str 10 = ''0000000010'' \<and>
   (''/lock-'' @ seq_num_str 9, ''/lock-'' @ seq_num_str 10) \<in> lexord char_less"
proof -
  have "seq_num_str 9 = ''0000000009'' \<and> seq_num_str 10 = ''0000000010''" by code_simp
  with sequential_names_sorted [of 9 10 "''/lock-''"] show ?thesis by simp
qed

end
