(* ===== verification/KeeperSpec.thy ===== *)
theory KeeperSpec
  imports KeeperFacts SequentialNames
begin

text \<open>
  What a request does to the tree of nodes, without deltas, caches, digests and indexes: the
  abstract specification of the processors. A request is refused with an error or yields the next
  tree. Preprocessing a request refines it on the uncommitted view.
\<close>

subsection \<open>The specification\<close>

definition system_path :: "path \<Rightarrow> bool" where
  "system_path p \<longleftrightarrow> matchPath p keeper_system_path \<noteq> NOT_MATCH"

definition acls_valid :: "AuthID list \<Rightarrow> ACLs \<Rightarrow> bool" where
  "acls_valid auths acls \<longleftrightarrow> acls = [] \<or> fixupACL_loop auths acls False [] \<noteq> None"

definition spec_create :: "zxid \<Rightarrow> session \<Rightarrow> int \<Rightarrow> AuthID list \<Rightarrow> CreateRequestData \<Rightarrow> tree \<Rightarrow> Error + tree" where
  "spec_create z sid time auths c t =
     (case parentNodePath (cr_path c) of
        None \<Rightarrow> Inl ZNONODE
      | Some q \<Rightarrow>
          (case t q of
             None \<Rightarrow> Inl ZNONODE
           | Some m \<Rightarrow>
               let p = cr_path c @ (if cr_is_sequential c then seq_num_str (seqNum m) else [])
               in if isEphemeral m then Inl ZNOCHILDRENFOREPHEMERALS
                  else if cr_is_sequential c \<and> cr_not_exists c \<or> system_path p then Inl ZBADARGUMENTS
                  else if t p \<noteq> None then (if cr_not_exists c then Inr t else Inl ZNODEEXISTS)
                  else if getBaseNodeName p = [] then Inl ZBADARGUMENTS
                  else if \<not> acls_valid auths (cr_acls c) then Inl ZINVALIDACL
                  else
                    Inr (t(q \<mapsto> update_fn (ParentOfCreate (cr_parent_cversion c) z) m,
                           p \<mapsto> new_node (create_stat z time (if cr_is_ephemeral c then sid else 0)) (cr_data c)))))"

text \<open>A node with children is not removed; the code looks at the counter instead.\<close>

definition spec_remove :: "zxid \<Rightarrow> bool \<Rightarrow> path \<Rightarrow> int \<Rightarrow> tree \<Rightarrow> Error + tree" where
  "spec_remove z restored p ver t =
     (if system_path p then Inl ZBADARGUMENTS
      else
        (case t p of
           None \<Rightarrow> Inl ZNONODE
         | Some n \<Rightarrow>
             if \<not> version_ok ver (n_version n) then Inl ZBADVERSION
             else if children_of t p \<noteq> {} then Inl ZNOTEMPTY
             else
               let q = the (parentNodePath p);
                   touch = (if restored then update_fn (ParentPzxid z) else id)
               in Inr (t(q := map_option (update_fn ParentOfRemove \<circ> touch) (t q), p := None))))"

definition spec_set :: "zxid \<Rightarrow> int \<Rightarrow> path \<Rightarrow> string \<Rightarrow> int \<Rightarrow> tree \<Rightarrow> Error + tree" where
  "spec_set z time p new_data ver t =
     (if system_path p then Inl ZBADARGUMENTS
      else
        (case t p of
           None \<Rightarrow> Inl ZNONODE
         | Some n \<Rightarrow>
             if \<not> version_ok ver (n_version n) then Inl ZBADVERSION
             else
               let t' = t(p \<mapsto> update_fn (SetNode z new_data time) n);
                   q = the (parentNodePath p)
               in Inr (t'(q := map_option (update_fn ParentOfSet) (t' q)))))"

definition spec_set_acl :: "AuthID list \<Rightarrow> path \<Rightarrow> ACLs \<Rightarrow> int \<Rightarrow> tree \<Rightarrow> Error + tree" where
  "spec_set_acl auths p acls ver t =
     (if system_path p then Inl ZBADARGUMENTS
      else
        (case t p of
           None \<Rightarrow> Inl ZNONODE
         | Some n \<Rightarrow>
             if \<not> version_ok ver (n_aversion n) then Inl ZBADVERSION
             else if \<not> acls_valid auths acls then Inl ZINVALIDACL
             else Inr (t(p \<mapsto> update_fn IncAversion n))))"

definition spec_exists :: "path \<Rightarrow> tree \<Rightarrow> Error + tree" where
  "spec_exists p t = (if t p = None then Inl ZNONODE else Inr t)"

definition spec_check :: "CheckRequestData \<Rightarrow> tree \<Rightarrow> Error + tree" where
  "spec_check ck t =
     (if check_holds ck (t (ck_path ck)) then Inr t
      else Inl (if ck_not_exists ck then ZNODEEXISTS
                else if t (ck_path ck) = None then ZNONODE else ZBADVERSION))"

definition spec_body :: "zxid \<Rightarrow> session \<Rightarrow> int \<Rightarrow> AuthID list \<Rightarrow> bool \<Rightarrow> 'r request_class \<Rightarrow> tree \<Rightarrow> Error + tree" where
  "spec_body z sid time auths restored b t =
     (case b of
        CreateRequest c \<Rightarrow> spec_create z sid time auths c t
      | RemoveRequest p ver \<Rightarrow> spec_remove z restored p ver t
      | SetRequest p new_data ver \<Rightarrow> spec_set z time p new_data ver t
      | SetACLRequest p acls ver \<Rightarrow> spec_set_acl auths p acls ver t
      | CheckRequest ck \<Rightarrow> spec_check ck t
      | GetRequest p \<Rightarrow>
          if p = keeper_api_feature_flags_path \<or> p = keeper_config_path \<or> p = keeper_availability_zone_path
          then Inr t else spec_exists p t
      | ExistsRequest p \<Rightarrow> spec_exists p t
      | ListRequest p \<Rightarrow> spec_exists p t
      | SimpleListRequest p \<Rightarrow> spec_exists p t
      | FilteredListRequest p ty \<Rightarrow> spec_exists p t
      | GetACLRequest p \<Rightarrow> spec_exists p t
      | AuthRequest ty scheme auth_data \<Rightarrow>
          if scheme \<noteq> ''digest'' \<or> count_list auth_data CHR '':'' \<noteq> 1 then Inl ZAUTHFAILED else Inr t
      | _ \<Rightarrow> Inr t)"

text \<open>A multi request of writes happens completely or not at all.\<close>

fun spec_multi :: "bool \<Rightarrow> zxid \<Rightarrow> session \<Rightarrow> int \<Rightarrow> AuthID list \<Rightarrow> ZooKeeperRequest list \<Rightarrow> tree \<Rightarrow> Error + tree" where
  "spec_multi writes z sid time auths [] t = Inr t"
| "spec_multi writes z sid time auths (r # rs) t =
     (case spec_body z sid time auths (restored_from_zookeeper_log r) (body r) t of
        Inl e \<Rightarrow> if writes then Inl e else spec_multi writes z sid time auths rs t
      | Inr t' \<Rightarrow> spec_multi writes z sid time auths rs t')"

text \<open>Closing a session removes its nodes; a parent is updated once per removed child.\<close>

definition spec_close :: "session \<Rightarrow> tree \<Rightarrow> tree" where
  "spec_close sid t =
     (\<lambda>p. if p \<in> eph_set t sid then None
          else map_option (update_fn ParentOfRemove ^^ card (children_of t p \<inter> eph_set t sid)) (t p))"

definition spec_request :: "zxid \<Rightarrow> session \<Rightarrow> int \<Rightarrow> AuthID list \<Rightarrow> ZooKeeperRequest \<Rightarrow> tree \<Rightarrow> Error + tree" where
  "spec_request z sid time auths req t =
     (case body req of
        MultiRequest ty rs \<Rightarrow> spec_multi (get_processor req = Inr (Some WriteOp)) z sid time auths rs t
      | CloseRequest \<Rightarrow> Inr (spec_close sid t)
      | b \<Rightarrow> spec_body z sid time auths (restored_from_zookeeper_log req) b t)"

subsection \<open>The processors refine it\<close>

definition reaches :: "zxid \<Rightarrow> tree \<Rightarrow> Error + tree \<Rightarrow> Delta list \<Rightarrow> bool" where
  "reaches z t s ds =
     (case s of Inl e \<Rightarrow> ds = [mkError z e] | Inr t' \<Rightarrow> tree_run ds t = Some t' \<and> delta_error ds = None)"

definition no_auths :: "Delta list \<Rightarrow> bool" where
  "no_auths ds \<longleftrightarrow> (\<forall>sid. auths_of sid ds = [])"

definition meets :: "zxid \<Rightarrow> tree \<Rightarrow> Error + tree \<Rightarrow> Delta list \<Rightarrow> bool" where
  "meets z t s ds \<longleftrightarrow> reaches z t s ds \<and> no_auths ds"

definition delta_effect :: "Delta \<Rightarrow> tree \<Rightarrow> tree" where
  "delta_effect d t = (if d_path d = [] then t else t(d_path d := node_effect (d_operation d) (t (d_path d))))"

lemma tree_run_fold: "tree_run ds t = Some t' \<Longrightarrow> t' = fold delta_effect ds t"
proof (induction ds arbitrary: t)
  case (Cons d ds)
  then show ?case using tree_step_effect [of d t] by (auto simp: bind_eq_Some_conv delta_effect_def)
qed simp

lemma delta_error_simps [simp]:
  "delta_error [] = None" "delta_error [mkError z e] = Some e"
  "delta_error (ds @ [d]) = (case d_operation d of ErrorDelta e \<Rightarrow> Some e | _ \<Rightarrow> None)"
  by (simp_all add: delta_error_def)

lemma no_auths_simps [simp]:
  "no_auths []" "no_auths (d # ds) \<longleftrightarrow> (\<forall>sid. auths_of sid [d] = []) \<and> no_auths ds"
  using auths_of_append [of _ "[d]" ds] by (auto simp: no_auths_def simp del: auths_of.simps(2) auths_of_append)

lemma meets_error [simp]: "meets z t (Inl e) [mkError z e]"
  by (simp add: meets_def reaches_def no_auths_def)

lemma meets_nop [simp]: "meets z t (Inr t) []"
  by (simp add: meets_def reaches_def)

lemma meets_run:
  assumes "outcome st z b dg (st', dg', ds)" and "delta_error ds = None" and "no_auths ds"
    and "fold delta_effect ds (view st) = t'"
  shows "meets z (view st) (Inr t') ds"
  using assms tree_run_fold by (auto simp: outcome_def meets_def reaches_def)

lemma fixup_valid:
  "fixupACL acls sid st = None \<longleftrightarrow>
   \<not> acls_valid (authsInSession (session_and_auth st) (uncommitted_state st) sid) acls"
  by (auto simp: fixupACL_def acls_valid_def)

lemma existing_meets:
  "existing_preprocess st z dg p = Inr (st', dg', ds) \<Longrightarrow> meets z (view st) (spec_exists p (view st)) ds"
  by (cases "getNode st p") (auto simp: existing_preprocess_def spec_exists_def view_def)

lemma check_meets:
  "check_preprocess st z dg ck = Inr (st', dg', ds) \<Longrightarrow> meets z (view st) (spec_check ck (view st)) ds"
  by (cases "getNode st (ck_path ck)")
    (auto simp: check_preprocess_def spec_check_def view_def check_holds_def version_ok_def split: if_splits)

lemma set_meets:
  assumes "sound st" and "set_preprocess st z time dg p new_data ver = Inr (st', dg', ds)"
  shows "meets z (view st) (spec_set z time p new_data ver (view st)) ds"
proof (cases "matchPath p keeper_system_path = NOT_MATCH \<and> getNode st p \<noteq> None")
  case False
  then show ?thesis
    using assms(2) by (cases "handleSystemNodeModification (keeper_context st)")
      (auto simp: set_preprocess_def spec_set_def system_path_def view_def split: if_splits)
next
  case True
  then obtain n where n: "getNode st p = Some n" by fastforce
  note v = sound_node [OF assms(1) n]
  obtain q m where q: "parentNodePath p = Some q" "view st q = Some m"
    using tree_inv_parent [OF v(1,2)] by metis
  show ?thesis
  proof (cases "version_ok ver (n_version n)")
    case False
    with assms(2) True n v(2) show ?thesis
      by (auto simp: set_preprocess_def spec_set_def system_path_def version_ok_def)
  next
    case ver: True
    have "ds = [mkDelta p z (UpdateNodeDelta (SetNode z new_data time) ver),
        mkDelta q z (UpdateNodeDelta ParentOfSet (- 1))]"
      using assms(2) True n ver q(1) by (auto simp: set_preprocess_def version_ok_def Let_def rbind_eq_Inr)
    moreover have "outcome st z (SetRequest p new_data ver) dg (st', dg', ds)"
      using set_outcome [OF assms(1), of z p new_data ver dg time] assms(2) by simp
    ultimately show ?thesis
      using True ver v(2,3) q parent_not_Nil [OF q(1)]
      by (auto simp: spec_set_def system_path_def delta_effect_def delta_error_def intro!: meets_run)
  qed
qed

lemma setacl_meets:
  assumes "sound st" and "setacl_preprocess st z sid dg p acls ver = Inr (st', dg', ds)"
  defines "auths \<equiv> authsInSession (session_and_auth st) (uncommitted_state st) sid"
  shows "meets z (view st) (spec_set_acl auths p acls ver (view st)) ds"
proof (cases "matchPath p keeper_system_path = NOT_MATCH \<and> getNode st p \<noteq> None")
  case False
  then show ?thesis
    using assms(2) by (cases "handleSystemNodeModification (keeper_context st)")
      (auto simp: setacl_preprocess_def spec_set_acl_def system_path_def view_def split: if_splits)
next
  case True
  then obtain n where n: "getNode st p = Some n" by fastforce
  note v = sound_node [OF assms(1) n]
  show ?thesis
  proof (cases "version_ok ver (n_aversion n) \<and> fixupACL acls sid st \<noteq> None")
    case False
    with assms(2) True n v(2) show ?thesis
      using fixup_valid [of acls sid st]
      by (auto simp: setacl_preprocess_def spec_set_acl_def system_path_def version_ok_def auths_def)
  next
    case ver: True
    then obtain node_acls where acls: "fixupACL acls sid st = Some node_acls" by blast
    then have "acls_valid auths acls" using fixup_valid [of acls sid st] by (simp add: auths_def)
    moreover have "ds = [mkDelta p z (SetACLDelta node_acls ver), mkDelta p z (UpdateNodeDelta IncAversion (- 1))]"
      using assms(2) True n ver acls by (auto simp: setacl_preprocess_def version_ok_def Let_def)
    moreover have "outcome st z (SetACLRequest p acls ver) dg (st', dg', ds)"
      using setacl_outcome [OF assms(1), of z p acls ver dg sid] assms(2) by simp
    ultimately show ?thesis
      using True ver v(2,3)
      by (auto simp: spec_set_acl_def system_path_def delta_effect_def delta_error_def intro!: meets_run)
  qed
qed

lemma remove_meets:
  assumes "sound st" and "remove_preprocess st z dg restored p ver = Inr (st', dg', ds)"
  shows "meets z (view st) (spec_remove z restored p ver (view st)) ds"
proof (cases "matchPath p keeper_system_path = NOT_MATCH \<and> getNode st p \<noteq> None")
  case False
  then show ?thesis
    using assms(2) by (cases "handleSystemNodeModification (keeper_context st)")
      (auto simp: remove_preprocess_def spec_remove_def system_path_def view_def split: if_splits)
next
  case True
  then obtain n where n: "getNode st p = Some n" by fastforce
  note v = sound_node [OF assms(1) n]
  have "p \<noteq> keeper_system_path" using True matchPath_self by auto
  then have "numChildren n = int (card (children_of (view st) p))"
    using tree_inv_count [OF v(1,2)] by simp
  then have kids: "numChildren n = 0 \<longleftrightarrow> children_of (view st) p = {}"
    using tree_invD(1) [OF v(1)] by (simp add: finite_children)
  obtain q m where q: "parentNodePath p = Some q" "view st q = Some m"
    using tree_inv_parent [OF v(1,2)] by metis
  then obtain mn where mn: "getNode st q = Some mn" by (auto simp: view_def)
  show ?thesis
  proof (cases "version_ok ver (n_version n) \<and> numChildren n = 0")
    case False
    with assms(2) True n v(2) kids show ?thesis
      by (auto simp: remove_preprocess_def spec_remove_def system_path_def version_ok_def split: if_splits)
  next
    case ver: True
    then have nv: "ver \<noteq> - 1 \<and> ver \<noteq> n_version n \<longleftrightarrow> False" by (auto simp: version_ok_def)
    have "ds = (if restored then [mkDelta q z (UpdateNodeDelta (ParentPzxid z) (- 1))] else []) @
        [mkDelta q z (UpdateNodeDelta ParentOfRemove (- 1)), mkDelta p z (RemoveNodeDelta ver (ephemeralOwner n))]"
      using assms(2) True n ver q(1) mn
      by (cases restored; cases "isEphemeral n")
        (auto simp: remove_preprocess_def update_parent_pzxid_def Let_def nv)
    moreover have "outcome st z (RemoveRequest p ver) dg (st', dg', ds)"
      using remove_outcome [OF assms(1), of z p ver dg restored] assms(2) by simp
    ultimately show ?thesis
      using True ver v(2,3) q kids parent_not_Nil [OF q(1)]
      by (auto simp: spec_remove_def system_path_def delta_effect_def delta_error_def intro!: meets_run)
  qed
qed

lemma create_meets:
  assumes "sound st" and "sid \<noteq> 0" and "create_preprocess st z sid time dg c = Inr (st', dg', ds)"
  defines "auths \<equiv> authsInSession (session_and_auth st) (uncommitted_state st) sid"
  shows "meets z (view st) (spec_create z sid time auths c (view st)) ds"
proof -
  obtain q where q: "parentNodePath (cr_path c) = Some q"
    using assms(3) by (cases "parentNodePath (cr_path c)") (auto simp: create_preprocess_def Let_def)
  show ?thesis
  proof (cases "getNode st q")
    case None
    with assms(3) q show ?thesis by (auto simp: create_preprocess_def spec_create_def view_def Let_def)
  next
    case (Some m)
    define p where "p = cr_path c @ (if cr_is_sequential c then seq_num_str (seqNum m) else [])"
    have m: "view st q = Some (core m)" "seqNum (core m) = seqNum m" "isEphemeral (core m) = isEphemeral m"
      using Some by (simp_all add: view_def)
    have ne: "p \<noteq> []" using q parentNodePath_None [of "[]"] by (cases "cr_path c") (auto simp: p_def)
    have p: "view st p = None \<longleftrightarrow> getNode st p = None" by (simp add: view_def)
    note pre = assms(3) [unfolded create_preprocess_def Let_def q of_option_simps rbind_simps Some option.case
        p_def [symmetric]]
    note spec = spec_create_def [of z sid time auths c "view st", unfolded q m Let_def option.case
        p_def [symmetric] p system_path_def]
    show ?thesis
    proof (cases "isEphemeral m \<or> cr_is_sequential c \<and> cr_not_exists c \<or> matchPath p keeper_system_path \<noteq> NOT_MATCH \<or>
        getNode st p \<noteq> None \<or> getBaseNodeName p = [] \<or> fixupACL (cr_acls c) sid st = None")
      case True
      then show ?thesis
        using pre fixup_valid [of "cr_acls c" sid st] unfolding spec unfolding auths_def
        by (auto split: if_split_asm option.split_asm)
    next
      case False
      then obtain node_acls where acls: "fixupACL (cr_acls c) sid st = Some node_acls" by blast
      then have "acls_valid auths (cr_acls c)"
        using fixup_valid [of "cr_acls c" sid st] by (simp add: auths_def)
      moreover have "ds = create_deltas z sid time c q p node_acls" using pre False acls by auto
      moreover have "outcome st z (CreateRequest c) dg (st', dg', ds)"
        using create_outcome [OF assms(1,2), of z c dg time] assms(3) by simp
      ultimately show ?thesis
        unfolding spec using False parent_not_Nil [OF q] m(1) ne
        by (auto simp: delta_effect_def delta_error_def create_deltas_def intro!: meets_run)
    qed
  qed
qed

subsection \<open>Closing a session\<close>

lemma spec_close_step:
  assumes inv: "tree_inv t" and p: "t p = Some n" "ephemeralOwner n = sid" "sid \<noteq> 0" and q: "parentNodePath p = Some q"
    and t1: "t1 = t(q := map_option (update_fn ParentOfRemove) (t q), p := None)" "tree_inv t1"
    and P: "p \<notin> P" "P \<subseteq> eph_set t sid" "finite P"
  shows "(\<lambda>r. if r \<in> P then None else map_option (update_fn ParentOfRemove ^^ card (children_of t1 r \<inter> P)) (t1 r)) =
    (\<lambda>r. if r \<in> insert p P then None
       else map_option (update_fn ParentOfRemove ^^ card (children_of t r \<inter> insert p P)) (t r))"
proof (rule ext)
  fix r
  have eph: "isEphemeral m" if "t x = Some m" "x \<in> insert p P" for x m
    using that p P(2) by (auto simp: eph_set_def ephemeralOwner_def split: if_splits)
  obtain m where m: "t q = Some m" "\<not> isEphemeral m" using tree_inv_parent [OF inv p(1)] q by auto
  then have qP: "q \<notin> insert p P" using eph [OF m(1)] by blast
  then have "q \<noteq> p" by simp
  have kids: "children_of t1 r \<inter> P = children_of t r \<inter> P" using t1(1) P(1) qP by (auto simp: children_of_def)
  have ins: "children_of t r \<inter> insert p P = (if r = q then insert p (children_of t r \<inter> P) else children_of t r \<inter> P)"
    using q p(1) \<open>q \<noteq> p\<close> by (auto simp: children_of_def)
  have "card (insert p (children_of t r \<inter> P)) = Suc (card (children_of t r \<inter> P))"
    using P(1,3) by simp
  then show "(if r \<in> P then None else map_option (update_fn ParentOfRemove ^^ card (children_of t1 r \<inter> P)) (t1 r)) =
    (if r \<in> insert p P then None
       else map_option (update_fn ParentOfRemove ^^ card (children_of t r \<inter> insert p P)) (t r))"
    unfolding kids ins using t1(1) qP
    by (auto simp: option.map_comp funpow_Suc_right simp del: funpow.simps update_fn.simps)
qed

lemma close_deltas_spec:
  assumes "tree_inv t" and "distinct ps" and "set ps \<subseteq> eph_set t sid" and "sid \<noteq> 0"
    and "close_deltas z sid ps = Inr ds"
  shows "fold delta_effect ds t = (\<lambda>r. if r \<in> set ps then None
    else map_option (update_fn ParentOfRemove ^^ card (children_of t r \<inter> set ps)) (t r)) \<and>
    no_auths ds \<and> delta_error ds = None"
  using assms
proof (induction ps arbitrary: t ds)
  case Nil
  then show ?case by (simp add: option.map_id0 fun_eq_iff)
next
  case (Cons p ps)
  then obtain n where n: "t p = Some n" "ephemeralOwner n = sid" by (auto simp: eph_set_def)
  then have "isEphemeral n" using Cons.prems(4) by (auto simp: ephemeralOwner_def split: if_splits)
  then have leaf: "numChildren n = 0" "p \<noteq> keeper_system_path"
    using n(1) tree_invD(3) [OF Cons.prems(1)] by (auto simp: numChildren_def)
  obtain q where q: "parentNodePath p = Some q" using tree_inv_parent [OF Cons.prems(1) n(1)] by metis
  obtain m where m: "t q = Some m" "tree_inv (t(q \<mapsto> update_fn ParentOfRemove m, p := None))"
      "\<And>s. eph_set (t(q \<mapsto> update_fn ParentOfRemove m, p := None)) s = eph_set t s - {p}"
    using remove_run [OF Cons.prems(1) q n(1) leaf(1) version_ok_any leaf(2), of z] by metis
  let ?t1 = "t(q \<mapsto> update_fn ParentOfRemove m, p := None)"
  let ?ds = "[mkDelta q z (UpdateNodeDelta ParentOfRemove (- 1)), mkDelta p z (RemoveNodeDelta (- 1) sid)]"
  obtain ds' where ds: "close_deltas z sid ps = Inr ds'" "ds = ?ds @ ds'"
    using Cons.prems(5) q by (auto simp: close_delta_pair_def)
  have d: "distinct ps" "p \<notin> set ps" "set ps \<subseteq> eph_set t sid" "set ps \<subseteq> eph_set ?t1 sid"
    using Cons.prems(2,3) m(3) by auto
  note IH = Cons.IH [OF m(2) d(1,4) Cons.prems(4) ds(1)]
  have "p \<noteq> []" "q \<noteq> []" using tree_invD(2) [OF Cons.prems(1)] n(1) parent_not_Nil [OF q] by auto
  then have step: "fold delta_effect ?ds t = ?t1" using m(1) by (simp add: delta_effect_def del: update_fn.simps)
  have "?t1 = t(q := map_option (update_fn ParentOfRemove) (t q), p := None)" using m(1) by simp
  note close = spec_close_step [OF Cons.prems(1) n Cons.prems(4) q this m(2) d(2,3) finite_set]
  have run: "fold delta_effect ds t = fold delta_effect ds' ?t1" unfolding ds(2) fold_append o_def step by simp
  have "fold delta_effect ds t = (\<lambda>r. if r \<in> set (p # ps) then None
      else map_option (update_fn ParentOfRemove ^^ card (children_of t r \<inter> set (p # ps))) (t r))"
    unfolding run conjunct1 [OF IH] list.set(2) by (rule close)
  moreover have "delta_error ds = None" "no_auths ds" using IH ds(2) by (auto simp: delta_error_def)
  ultimately show ?case by blast
qed

lemma close_meets:
  assumes "sound st" and "sid \<noteq> 0" and "close_preprocess st z sid dg = Inr (st', dg', ds)"
  shows "meets z (view st) (Inr (spec_close sid (view st))) ds"
proof -
  let ?t = "view st"
  have inv: "tree_inv ?t" and eph: "eph_ok (ephemerals st) ?t" using assms(1) by (simp_all add: sound_def)
  have entry: "eph_entry (ephemerals st sid) (eph_set ?t sid)" using eph assms(2) by (simp add: eph_ok_def)
  define ps where "ps = bucket (ephemerals st) sid"
  have ps: "distinct ps" "set ps = eph_set ?t sid"
    using entry by (cases "ephemerals st sid"; simp add: ps_def bucket_def eph_entry_def)+
  have ds: "close_deltas z sid ps = Inr ds"
    using assms(3) by (cases "ephemerals st sid") (auto simp: close_preprocess_def ps_def bucket_def Let_def)
  have "outcome st z CloseRequest dg (st', dg', ds)"
    using close_outcome [OF assms(1,2), of z dg] assms(3) by simp
  then show ?thesis
    using close_deltas_spec [OF inv ps(1) _ assms(2) ds] ps(2)
    by (intro meets_run) (auto simp: spec_close_def)
qed

subsection \<open>Requests\<close>

abbreviation session_auths :: "KeeperStorage \<Rightarrow> session \<Rightarrow> AuthID list" where
  "session_auths st sid \<equiv> authsInSession (session_and_auth st) (uncommitted_state st) sid"

definition is_auth :: "'r request_class \<Rightarrow> bool" where
  "is_auth b = (case b of AuthRequest _ _ _ \<Rightarrow> True | _ \<Rightarrow> False)"

lemma simple_reaches:
  assumes "sound st" and "sid \<noteq> 0" and pre: "preprocess_simple st z sid time dg req = Inr (st', dg', ds)"
  defines "s \<equiv> spec_body z sid time (session_auths st sid) (restored_from_zookeeper_log req) (body req) (view st)"
  shows "reaches z (view st) s ds" "\<not> is_auth (body req) \<Longrightarrow> no_auths ds"
proof -
  have "meets z (view st) s ds \<or> is_auth (body req) \<and> reaches z (view st) s ds"
  proof (cases "body req")
    case (AuthRequest ty scheme auth_data)
    then have "auth_preprocess st z sid dg scheme auth_data = Inr (st', dg', ds)"
      using pre by (simp add: preprocess_simple_def)
    then have "reaches z (view st) s ds"
      by (auto simp: auth_preprocess_def s_def spec_body_def AuthRequest reaches_def Let_def delta_error_def
          tree_step_def op_step_def split: if_splits)
    with AuthRequest show ?thesis by (simp add: is_auth_def)
  next
    case (GetRequest p)
    then have "get_preprocess st z dg p = Inr (st', dg', ds)" using pre by (simp add: preprocess_simple_def)
    then show ?thesis
      by (auto simp: get_preprocess_def s_def spec_body_def GetRequest existing_meets split: if_splits)
  qed (use pre in \<open>auto simp: preprocess_simple_def s_def spec_body_def existing_meets check_meets
      intro: set_meets [OF assms(1)] setacl_meets [OF assms(1)] remove_meets [OF assms(1)]
        create_meets [OF assms(1,2)]\<close>)
  then show "reaches z (view st) s ds" "\<not> is_auth (body req) \<Longrightarrow> no_auths ds"
    by (auto simp: meets_def)
qed

lemma session_auths_pending:
  "pending_inv st \<Longrightarrow> session_auths st sid = bucket (session_and_auth st) sid @ auths_of sid (pending st)"
  by (auto simp: pending_inv_def index_inv_def authsInSession_def nonempty_def bucket_def split: option.split)

lemma reaches_run:
  "reaches z t s ds \<Longrightarrow> tree_run ds t = Some (case s of Inl e \<Rightarrow> t | Inr t' \<Rightarrow> t')"
  by (auto simp: reaches_def tree_step_def op_step_def split: sum.splits)

lemma reaches_error: "reaches z t s ds \<Longrightarrow> delta_error ds = (case s of Inl e \<Rightarrow> Some e | Inr _ \<Rightarrow> None)"
  by (auto simp: reaches_def split: sum.splits)

text \<open>One turn of the loop over the sub-requests.\<close>

lemma multi_turn:
  assumes "pending_inv st" and "sound st" and "\<forall>d\<in>set (pending st). d_zxid d \<le> z" and "sid \<noteq> 0"
    and pre: "preprocess_simple st z sid time dg req = Inr (st1, dg1, nd)" and "\<not> is_auth (body req)"
  defines "s \<equiv> spec_body z sid time (session_auths st sid) (restored_from_zookeeper_log req) (body req) (view st)"
  obtains st2 where "add_deltas (nd @ [mkDelta [] z SubDeltaEnd]) st1 = Inr st2" and "moved st st2"
    and "pending st2 = pending st @ nd @ [mkDelta [] z SubDeltaEnd]"
    and "view st2 = (case s of Inl e \<Rightarrow> view st | Inr t \<Rightarrow> t)" and "session_auths st2 sid = session_auths st sid"
    and "\<forall>d\<in>set nd. d_zxid d = z" and "\<exists>e. st1 = st\<lparr>ephemerals := e\<rparr> \<and> eph_ok e (view st2)"
proof -
  let ?nd = "nd @ [mkDelta [] z SubDeltaEnd]"
  obtain e1 t1 where o: "st1 = st\<lparr>ephemerals := e1\<rparr>" "tree_run nd (view st) = Some t1" "tree_inv t1"
      "eph_ok e1 t1" "block_for z (body req) nd t1"
    using preprocess_simple_outcome [OF assms(2,4) pre] by (auto simp: outcome_def)
  have r: "reaches z (view st) s nd" "no_auths nd" using simple_reaches [OF assms(2,4) pre] assms(6) by (auto simp: s_def)
  have t1: "t1 = (case s of Inl e \<Rightarrow> view st | Inr t \<Rightarrow> t)" using reaches_run [OF r(1)] o(2) by simp
  have run: "tree_run ?nd (view st) = Some t1" using o(2) by (simp add: tree_step_def op_step_def)
  have zx: "\<forall>d\<in>set ?nd. d_zxid d = z" using block_for_zxid [OF o(5)] by auto
  show ?thesis
  proof (rule add_block [OF assms(1,3) run zx o(3,4)])
    fix us
    let ?st2 = "st\<lparr>uncommitted_state := us, ephemerals := e1\<rparr>"
    assume us: "add_deltas ?nd (st\<lparr>ephemerals := e1\<rparr>) = Inr ?st2" "us_deltas us = pending st @ ?nd"
      "pending_inv ?st2" "sound ?st2" "view ?st2 = t1"
    have "session_auths ?st2 sid = session_auths st sid"
      using session_auths_pending [OF us(3), of sid] session_auths_pending [OF assms(1), of sid] us(2) r(2)
      by (simp add: no_auths_def)
    with us o zx t1 that [of ?st2] movedI [OF refl us(3,4)] show thesis by auto
  qed
qed

text \<open>A failed multi request records the error of its first failing part.\<close>

definition failed_at :: "zxid \<Rightarrow> Error list \<Rightarrow> nat \<Rightarrow> Error \<Rightarrow> Delta list \<Rightarrow> bool" where
  "failed_at z errs n e ds \<longleftrightarrow>
     (\<exists>k<n. ds = [mkDelta [] z (FailedMultiDelta
        (errs @ replicate k ZOK @ e # replicate (n - Suc k) ZRUNTIMEINCONSISTENCY))])"

lemma failed_at_Cons: "failed_at z (errs @ [ZOK]) n e ds \<Longrightarrow> failed_at z errs (Suc n) e ds"
  unfolding failed_at_def by (metis Suc_less_eq append.assoc append_Cons append_Nil diff_Suc_Suc replicate_Suc)

lemma multi_reaches:
  "pending_inv st \<Longrightarrow> sound st \<Longrightarrow> pending st = keep @ acc \<Longrightarrow>
   \<forall>d\<in>set keep. d_zxid d < z \<Longrightarrow> \<forall>d\<in>set acc. d_zxid d = z \<Longrightarrow>
   tree_run keep (committed_tree st) = Some t0 \<Longrightarrow> tree_inv t0 \<Longrightarrow> sid \<noteq> 0 \<Longrightarrow>
   \<forall>r\<in>set rs. \<not> is_auth (body r) \<Longrightarrow> session_auths st sid = auths \<Longrightarrow>
   multi_preprocess op z sid time dg0 st dg errs rs = Inr (st', dg', ds) \<Longrightarrow>
   (case spec_multi (op = Some WriteOp) z sid time auths rs (view st) of
      Inl e \<Rightarrow> failed_at z errs (length rs) e ds \<and> view st' = t0 \<and> pending st' = keep
    | Inr t \<Rightarrow> ds = [] \<and> view st' = t)"
proof (induction rs arbitrary: st dg errs acc)
  case (Cons q rs)
  define s where "s = spec_body z sid time auths (restored_from_zookeeper_log q) (body q) (view st)"
  obtain st1 dg1 nd where pre: "preprocess_simple st z sid time dg q = Inr (st1, dg1, nd)"
    using Cons.prems(11) by auto
  have le: "\<forall>d\<in>set (pending st). d_zxid d \<le> z" using Cons.prems(3-5) by auto
  have "\<not> is_auth (body q)" using Cons.prems(9) by simp
  from multi_turn [OF Cons.prems(1,2) le Cons.prems(8) pre this] Cons.prems(10) obtain st2 e1 where
    st2: "add_deltas (nd @ [mkDelta [] z SubDeltaEnd]) st1 = Inr st2" "moved st st2"
      "pending st2 = pending st @ nd @ [mkDelta [] z SubDeltaEnd]"
      "view st2 = (case s of Inl e \<Rightarrow> view st | Inr t \<Rightarrow> t)" "session_auths st2 sid = auths"
      "\<forall>d\<in>set nd. d_zxid d = z" "st1 = st\<lparr>ephemerals := e1\<rparr>" "eph_ok e1 (view st2)"
    unfolding s_def by metis
  have err: "delta_error nd = (case s of Inl e \<Rightarrow> Some e | Inr _ \<Rightarrow> None)"
    using reaches_error [OF simple_reaches(1) [OF Cons.prems(2,8) pre]] Cons.prems(10) by (simp add: s_def)
  show ?case
  proof (cases "op = Some WriteOp \<and> (\<exists>e. s = Inl e)")
    case True
    then obtain e where e: "s = Inl e" by blast
    with st2(4,8) have "eph_ok e1 (view st)" by simp
    from multi_rollback [OF Cons.prems(1,3-7) this] st2(7) obtain st3 where
      "rollback z st1 = Inr st3" "view st3 = t0" "pending st3 = keep" by metis
    then have "view st' = t0" "pending st' = keep" "ds = [mkDelta [] z (FailedMultiDelta (errs @ e # replicate (length rs) ZRUNTIMEINCONSISTENCY))]"
      using Cons.prems(11) pre True err e by auto
    moreover from this(3) have "failed_at z errs (Suc (length rs)) e ds"
      unfolding failed_at_def by (intro exI [of _ 0]) simp
    ultimately show ?thesis using True e by (simp add: s_def)
  next
    case False
    then have none: "(if op = Some WriteOp then delta_error nd else None) = None"
      using err by (auto split: sum.split)
    have "multi_preprocess op z sid time dg0 st2 dg1 (errs @ [ZOK]) rs = Inr (st', dg', ds)"
      using Cons.prems(11) unfolding multi_preprocess.simps pre rbind_simps prod.case none option.case st2(1) .
    moreover have "pending st2 = keep @ (acc @ nd @ [mkDelta [] z SubDeltaEnd])"
      "\<forall>d\<in>set (acc @ nd @ [mkDelta [] z SubDeltaEnd]). d_zxid d = z"
      "tree_run keep (committed_tree st2) = Some t0" "\<forall>r\<in>set rs. \<not> is_auth (body r)"
      using st2(3,6) Cons.prems(3,5,6,9) moved_frame(1) [OF st2(2)] by auto
    moreover have "pending_inv st2" "sound st2" using st2(2) by (auto elim: movedE)
    ultimately have "case spec_multi (op = Some WriteOp) z sid time auths rs (view st2) of
        Inl e \<Rightarrow> failed_at z (errs @ [ZOK]) (length rs) e ds \<and> view st' = t0 \<and> pending st' = keep
      | Inr t \<Rightarrow> ds = [] \<and> view st' = t"
      using Cons.prems(4,7,8) st2(5) by (intro Cons.IH)
    moreover have "spec_multi (op = Some WriteOp) z sid time auths (q # rs) (view st) =
        spec_multi (op = Some WriteOp) z sid time auths rs (view st2)"
      using False st2(4) by (auto simp: s_def [symmetric] split: sum.split)
    ultimately show ?thesis by (auto split: sum.splits intro: failed_at_Cons)
  qed
qed simp

lemma multi_type_no_auth:
  "multi_operation_type op rs = Inr op' \<Longrightarrow> r \<in> set rs \<Longrightarrow> \<not> is_auth (body r)"
proof (induction rs arbitrary: op)
  case (Cons q rs)
  then have "sub_operation_type q \<noteq> Inl Bad_arguments" by auto
  then have "\<not> is_auth (body q)"
    by (auto simp: is_auth_def sub_operation_type_def getOpNum_def split: request_class.splits)
  with Cons show ?case by (auto split: if_splits)
qed simp

definition next_tree :: "tree \<Rightarrow> Error + tree \<Rightarrow> tree" where
  "next_tree t s = (case s of Inl e \<Rightarrow> t | Inr t' \<Rightarrow> t')"

lemma multi_preprocess_spec:
  assumes "keeper_inv st xs" and "getNextZXID st \<le> z" and "sid \<noteq> 0" and "multi_operation_type None rs = Inr op"
    and "multi_preprocess op z sid time dg st dg [] rs = Inr (st1, dg1, ds)"
  shows "case spec_multi (op = Some WriteOp) z sid time (session_auths st sid) rs (view st) of
      Inl e \<Rightarrow> failed_at z [] (length rs) e ds \<and> view st1 = view st \<and> pending st1 = pending st
    | Inr t \<Rightarrow> ds = [] \<and> view st1 = t"
proof -
  note k = keeper_invD [OF assms(1)]
  have "\<forall>d\<in>set (pending st). d_zxid d < z" using pending_zxids(2) [OF assms(1)] assms(2) by fastforce
  moreover have "tree_inv (view st)" using k(3) by (simp add: sound_def)
  moreover have "\<forall>r\<in>set rs. \<not> is_auth (body r)" using multi_type_no_auth assms(4) by blast
  ultimately show ?thesis
    using multi_reaches [OF k(2,3), of "pending st" "[]" z "view st"] view_run [OF k(2)] assms(3,5) by simp
qed

lemma preprocess_spec:
  assumes "keeper_inv st xs" and "getNextZXID st \<le> z" and "sid \<noteq> 0"
    and "(if getOpNum req = OpClose then close_preprocess st z sid dg else preprocess st z sid time dg req)
      = Inr (st1, dg1, ds)"
  shows "tree_run ds (view st1) = Some (next_tree (view st) (spec_request z sid time (session_auths st sid) req (view st)))"
proof -
  note k = keeper_invD [OF assms(1)]
  consider (close) "body req = CloseRequest" | (multi) ty rs where "body req = MultiRequest ty rs"
    | (simple) "body req \<noteq> CloseRequest" "\<nexists>ty rs. body req = MultiRequest ty rs" by blast
  then show ?thesis
  proof cases
    case close
    then have "close_preprocess st z sid dg = Inr (st1, dg1, ds)" using assms(4) by (simp add: getOpNum_def)
    moreover from this have "view st1 = view st"
      using close_outcome [OF k(3) assms(3), of z dg] by (auto simp: outcome_def)
    ultimately show ?thesis
      using close_meets [OF k(3) assms(3)] by (auto simp: close next_tree_def spec_request_def meets_def reaches_def)
  next
    case multi
    then obtain op where op: "multi_operation_type None rs = Inr op"
        "multi_preprocess op z sid time dg st dg [] rs = Inr (st1, dg1, ds)" "get_processor req = Inr op"
      using assms(4) by (auto simp: getOpNum_def preprocess_def get_processor_def split: if_splits)
    from multi_preprocess_spec [OF assms(1-3) op(1,2)]
    show ?thesis
      using multi op(3)
      by (auto simp: next_tree_def spec_request_def failed_at_def tree_step_def op_step_def split: sum.splits)
  next
    case simple
    then have "getOpNum req \<noteq> OpClose" by (cases "body req") (auto simp: getOpNum_def split: if_splits)
    then have pre: "preprocess_simple st z sid time dg req = Inr (st1, dg1, ds)"
      using assms(4) simple by (cases "body req") (auto simp: preprocess_def)
    have "view st1 = view st" using preprocess_simple_outcome [OF k(3) assms(3) pre] by (auto simp: outcome_def)
    moreover have "spec_request z sid time (session_auths st sid) req (view st) =
        spec_body z sid time (session_auths st sid) (restored_from_zookeeper_log req) (body req) (view st)"
      using simple by (cases "body req") (simp_all add: spec_request_def)
    ultimately show ?thesis
      using reaches_run [OF simple_reaches(1) [OF k(3) assms(3) pre]] by (simp add: next_tree_def)
  qed
qed

text \<open>Whether the request passes the access check.\<close>

definition admitted :: "bool \<Rightarrow> session \<Rightarrow> ZooKeeperRequest \<Rightarrow> KeeperStorage \<Rightarrow> bool" where
  "admitted check_acl sid req st \<longleftrightarrow> (check_acl \<longrightarrow> getOpNum req = OpClose \<or> checkAuth st req sid False = Inr True)"

lemma preprocess_newE:
  assumes "keeper_inv st xs" and "getNextZXID st \<le> z" and "sid \<noteq> 0"
    and "preprocess_new req sid time z check_acl log_idx st = Inr st'"
  obtains st1 dg1 ds where "tree_run ds (view st1) = Some (view st')" and "pending st' = pending st1 @ ds"
    and "if admitted check_acl sid req st
      then (if getOpNum req = OpClose then close_preprocess st z sid (dg_value (getNodesDigest st False))
            else preprocess st z sid time (dg_value (getNodesDigest st False)) req) = Inr (st1, dg1, ds)
      else ds = [] \<and> st1 = push_noauth z st"
proof -
  let ?dg = "dg_value (getNodesDigest st False)"
  obtain st1 dg1 ds where r: "finish_preprocess z log_idx (st1, dg1, ds) = Inr st'"
    "(if getOpNum req = OpClose then close_preprocess st z sid ?dg
      else rbind (if check_acl then checkAuth st req sid False else Inr True) (\<lambda>authorised.
             if authorised then preprocess st z sid time ?dg req
             else Inr (push_noauth z st, ?dg, []))) = Inr (st1, dg1, ds)"
    using assms(4) by (auto simp: preprocess_new_def Let_def)
  have "prepared st z req (st1, dg1, ds)" by (rule preprocess_prepared [OF assms(1-3) r(2)])
  then obtain us1 e1 pre t where p:
      "st1 = st\<lparr>uncommitted_state := us1, ephemerals := e1\<rparr>" "pending_inv st1"
      "us_deltas us1 = pending st @ pre" "tree_run pre (view st) = Some (view st1)"
      "tree_run ds (view st1) = Some t" "tree_inv t" "eph_ok e1 t"
      "\<forall>d\<in>set (pre @ ds). d_zxid d = z" "tx_ok z req (pre @ ds) (view st) t"
      "digestEnabled (keeper_context st) \<longrightarrow> dg1 = digest_offset st + tree_digest t"
    unfolding prepared_def by blast
  have "view st' = t" "keeper_inv st' (xs @ [\<lparr>tx_req = req, tx_deltas = pre @ ds\<rparr>])"
    using finish_preprocess_ok [OF assms(1,2) p(1-9), of dg1 log_idx] p(10) r(1) by auto
  then have "tree_run ds (view st1) = Some (view st')" "pending st' = pending st1 @ ds"
    using keeper_invD(5) keeper_invD(5) [OF assms(1)] p(1,3,5) by fastforce+
  moreover have "if admitted check_acl sid req st
      then (if getOpNum req = OpClose then close_preprocess st z sid ?dg else preprocess st z sid time ?dg req) =
        Inr (st1, dg1, ds)
      else ds = [] \<and> st1 = push_noauth z st"
    using r(2) by (auto simp: admitted_def split: if_splits)
  ultimately show ?thesis using that by blast
qed

lemma view_noauth [simp]: "view (push_noauth z st) = view st"
  by (simp add: push_noauth_def view_def uncommitted_getNode_def)

lemma preprocess_new_spec:
  assumes "keeper_inv st xs" and "getNextZXID st \<le> z" and "sid \<noteq> 0"
    and "preprocess_new req sid time z check_acl log_idx st = Inr st'"
  shows "view st' = (if admitted check_acl sid req st
    then next_tree (view st) (spec_request z sid time (session_auths st sid) req (view st)) else view st)"
proof (rule preprocess_newE [OF assms])
  fix st1 dg1 ds
  assume p: "tree_run ds (view st1) = Some (view st')"
    "if admitted check_acl sid req st
      then (if getOpNum req = OpClose then close_preprocess st z sid (dg_value (getNodesDigest st False))
            else preprocess st z sid time (dg_value (getNodesDigest st False)) req) = Inr (st1, dg1, ds)
      else ds = [] \<and> st1 = push_noauth z st"
  show ?thesis
  proof (cases "admitted check_acl sid req st")
    case True
    with p preprocess_spec [OF assms(1-3)] show ?thesis by simp
  qed (use p in simp)
qed

text \<open>The leader appends a request: what later requests see is what the specification says.\<close>

lemma leader_spec:
  assumes "reachable (sm, q)" and "client_entry r" and "tracked r" and "PreAppendLogLeader r sm = Inr (Some r', sm')"
  shows "view (storage sm') =
    (if admitted True (rfs_session_id r) (rfs_request r) (storage sm)
     then next_tree (view (storage sm))
       (spec_request (getNextZXID (storage sm)) (rfs_session_id r) (rfs_time r)
          (session_auths (storage sm) (rfs_session_id r)) (rfs_request r) (view (storage sm)))
     else view (storage sm))"
proof -
  obtain st1 where st1: "sm' = sm\<lparr>storage := st1\<rparr>"
      "preprocess_new (rfs_request r) (rfs_session_id r) (rfs_time r) (getNextZXID (storage sm)) True
        (rfs_log_idx r) (storage sm) = Inr st1"
    using leader_preprocess [OF assms(2-4)] by blast
  obtain xs where xs: "keeper_inv (storage sm) xs" using reachable_keeper [OF assms(1)] by blast
  have "rfs_session_id r \<noteq> 0" using assms(2) by (simp add: client_entry_def)
  from preprocess_new_spec [OF xs order_refl this st1(2)] st1(1) show ?thesis by simp
qed

text \<open>A failed multi request leaves one delta, with the error of its first failing part.\<close>

lemma leader_multi_failure:
  assumes "reachable (sm, q)" and "client_entry r" and "tracked r" and "PreAppendLogLeader r sm = Inr (Some r', sm')"
    and b: "body (rfs_request r) = MultiRequest ty rs" "get_processor (rfs_request r) = Inr (Some WriteOp)"
    and "admitted True (rfs_session_id r) (rfs_request r) (storage sm)"
    and e: "spec_multi True (getNextZXID (storage sm)) (rfs_session_id r) (rfs_time r)
      (session_auths (storage sm) (rfs_session_id r)) rs (view (storage sm)) = Inl e"
  shows "\<exists>k<length rs. pending (storage sm') = pending (storage sm) @
    [mkDelta [] (rfs_zxid r') (FailedMultiDelta
       (replicate k ZOK @ e # replicate (length rs - Suc k) ZRUNTIMEINCONSISTENCY))]"
proof -
  obtain st1 where st1: "sm' = sm\<lparr>storage := st1\<rparr>" "rfs_zxid r' = getNextZXID (storage sm)"
      "preprocess_new (rfs_request r) (rfs_session_id r) (rfs_time r) (getNextZXID (storage sm)) True
        (rfs_log_idx r) (storage sm) = Inr st1"
    using leader_preprocess [OF assms(2-4)] by blast
  obtain xs where xs: "keeper_inv (storage sm) xs" using reachable_keeper [OF assms(1)] by blast
  have sid: "rfs_session_id r \<noteq> 0" using assms(2) by (simp add: client_entry_def)
  have b': "getOpNum (rfs_request r) \<noteq> OpClose" "multi_operation_type None rs = Inr (Some WriteOp)"
    using b by (auto simp: getOpNum_def get_processor_def)
  obtain st2 dg2 ds where p: "pending st1 = pending st2 @ ds"
      "multi_preprocess (Some WriteOp) (getNextZXID (storage sm)) (rfs_session_id r) (rfs_time r)
        (dg_value (getNodesDigest (storage sm) False)) (storage sm) (dg_value (getNodesDigest (storage sm) False)) [] rs =
       Inr (st2, dg2, ds)"
    by (rule preprocess_newE [OF xs order_refl sid st1(3)])
      (use assms(7) b b' in \<open>simp add: preprocess_def\<close>)
  have "failed_at (getNextZXID (storage sm)) [] (length rs) e ds \<and> pending st2 = pending (storage sm)"
    using multi_preprocess_spec [OF xs order_refl sid b'(2) p(2)] e by simp
  with p(1) st1(1,2) show ?thesis by (auto simp: failed_at_def)
qed

subsection \<open>Consequences for single requests\<close>

lemma view_Some:
  "view st p = Some m \<Longrightarrow> \<exists>n. getNode st p = Some n \<and> core n = m"
  by (auto simp: view_def)

lemma leader_set:
  assumes "reachable (sm, q)" and "client_entry r" and "PreAppendLogLeader r sm = Inr (Some r', sm')"
    and b: "body (rfs_request r) = SetRequest p new_data ver"
    and "admitted True (rfs_session_id r) (rfs_request r) (storage sm)" and "\<not> system_path p"
    and "length new_data < 2 ^ 32" and n: "getNode (storage sm) p = Some n"
  shows "if version_ok ver (n_version n)
    then \<exists>n'. getNode (storage sm') p = Some n' \<and> n_data n' = new_data \<and> n_version n' = n_version n + 1 \<and>
      n_mzxid n' = rfs_zxid r' \<and> n_czxid n' = n_czxid n
    else view (storage sm') = view (storage sm)"
proof -
  let ?z = "getNextZXID (storage sm)" and ?v = "view (storage sm)"
  have tr: "tracked r" using b by (simp add: tracked_def getOpNum_def)
  have z: "rfs_zxid r' = ?z" using leader_preprocess [OF assms(2) tr assms(3)] by blast
  have v: "?v p = Some (core n)" using n by (simp add: view_def)
  have v': "view (storage sm') = next_tree ?v (spec_set ?z (rfs_time r) p new_data ver ?v)"
    using leader_spec [OF assms(1,2) tr assms(3)] assms(5) b by (simp add: spec_request_def spec_body_def)
  show ?thesis
  proof (cases "version_ok ver (n_version n)")
    case True
    let ?m = "update_fn (SetNode ?z new_data (rfs_time r)) (core n)"
    have "view (storage sm') p = Some (if the (parentNodePath p) = p then update_fn ParentOfSet ?m else ?m)"
      using True v assms(6) unfolding v' by (simp add: spec_set_def next_tree_def Let_def del: update_fn.simps)
    then obtain n' where n': "getNode (storage sm') p = Some n'"
        "core n' = (if the (parentNodePath p) = p then update_fn ParentOfSet ?m else ?m)"
      using view_Some by blast
    have "n_data (core n') = new_data \<and> n_version (core n') = n_version n + 1 \<and> n_mzxid (core n') = ?z \<and>
        n_czxid (core n') = n_czxid n"
      unfolding n'(2) using assms(7) by (simp add: setData_def core_fields)
    with n'(1) True z show ?thesis by (auto simp: core_fields)
  next
    case False
    with v v' assms(6) show ?thesis by (simp add: spec_set_def next_tree_def)
  qed
qed

lemma leader_sequential:
  assumes "reachable (sm, q)" and "client_entry r" and "PreAppendLogLeader r sm = Inr (Some r', sm')"
    and b: "body (rfs_request r) = CreateRequest c" and c: "cr_is_sequential c" "\<not> cr_not_exists c"
    and "admitted True (rfs_session_id r) (rfs_request r) (storage sm)"
    and m: "parentNodePath (cr_path c) = Some d" "getNode (storage sm) d = Some m" "\<not> isEphemeral m"
    and p: "p = cr_path c @ seq_num_str (seqNum m)" "\<not> system_path p" "getNode (storage sm) p = None"
    and acls: "acls_valid (session_auths (storage sm) (rfs_session_id r)) (cr_acls c)"
    and len: "length (cr_data c) < 2 ^ 32"
  shows "\<exists>n m'. getNode (storage sm') p = Some n \<and> n_data n = cr_data c \<and> n_czxid n = rfs_zxid r' \<and>
    ephemeralOwner n = (if cr_is_ephemeral c then rfs_session_id r else 0) \<and>
    getNode (storage sm') d = Some m' \<and> seqNum m' = seqNum m + 1 \<and> numChildren m' = numChildren m + 1"
proof -
  let ?z = "getNextZXID (storage sm)" and ?v = "view (storage sm)"
  have tr: "tracked r" using b by (simp add: tracked_def getOpNum_def split: if_splits)
  have z: "rfs_zxid r' = ?z" using leader_preprocess [OF assms(2) tr assms(3)] by blast
  have v: "?v d = Some (core m)" "?v p = None" using m p by (simp_all add: view_def)
  have base: "getBaseNodeName p \<noteq> []" using sequential_base_name [OF m(1)] p(1) by simp
  have sys: "\<not> system_path (cr_path c @ seq_num_str (seqNum m))" using p by simp
  let ?n = "new_node (create_stat ?z (rfs_time r) (if cr_is_ephemeral c then rfs_session_id r else 0)) (cr_data c)"
  let ?m = "update_fn (ParentOfCreate (cr_parent_cversion c) ?z) (core m)"
  have "view (storage sm') = ?v(d \<mapsto> ?m, p \<mapsto> ?n)"
    using leader_spec [OF assms(1,2) tr assms(3)] assms(7) b v m(1,3) c acls base sys p(1)
    by (simp add: spec_request_def spec_body_def spec_create_def next_tree_def Let_def del: update_fn.simps)
  moreover have "d \<noteq> p" using v by auto
  ultimately have "view (storage sm') p = Some ?n" "view (storage sm') d = Some ?m" by simp_all
  then obtain n' m' where nm: "getNode (storage sm') p = Some n'" "core n' = ?n"
      "getNode (storage sm') d = Some m'" "core m' = ?m" using view_Some by meson
  have "seqNum (core m') = seqNum m + 1" "numChildren (core m') = numChildren m + 1"
    unfolding nm(4) using m(3)
    by (simp_all add: Let_def increaseSeqNum_def increaseNumChildren_def seqNum_def numChildren_def isEphemeral_def core_def)
  moreover have "n_data (core n') = cr_data c" "n_czxid (core n') = ?z"
      "ephemeralOwner (core n') = (if cr_is_ephemeral c then rfs_session_id r else 0)"
    unfolding nm(2) using len by (simp_all add: new_node_def setData_def create_stat_def copyStats_def ephemeralOwner_def
        isEphemeral_def Stat_default_def Let_def setEphemeralOwner_def setNumChildren_def Node_default_def)
  ultimately show ?thesis using nm(1,3) z by (auto simp: core_fields)
qed

lemma funpow_remove_frame:
  "ephemeralOwner ((update_fn ParentOfRemove ^^ k) n) = ephemeralOwner n"
  "n_data ((update_fn ParentOfRemove ^^ k) n) = n_data n"
  "n_version ((update_fn ParentOfRemove ^^ k) n) = n_version n"
proof -
  show "ephemeralOwner ((update_fn ParentOfRemove ^^ k) n) = ephemeralOwner n"
    by (induction k) (simp_all del: update_fn.simps)
  show "n_data ((update_fn ParentOfRemove ^^ k) n) = n_data n" "n_version ((update_fn ParentOfRemove ^^ k) n) = n_version n"
    by (induction k) (simp_all add: decreaseNumChildren_def)
qed

lemma leader_close:
  assumes "reachable (sm, q)" and "client_entry r" and "PreAppendLogLeader r sm = Inr (Some r', sm')"
    and b: "body (rfs_request r) = CloseRequest"
  shows "case getNode (storage sm) p of
      None \<Rightarrow> getNode (storage sm') p = None
    | Some n \<Rightarrow>
        if ephemeralOwner n = rfs_session_id r then getNode (storage sm') p = None
        else \<exists>n'. getNode (storage sm') p = Some n' \<and> n_data n' = n_data n \<and> n_version n' = n_version n \<and>
          ephemeralOwner n' = ephemeralOwner n"
proof -
  let ?s = "rfs_session_id r" and ?v = "view (storage sm)"
  have "tracked r" using b by (simp add: tracked_def getOpNum_def)
  from leader_spec [OF assms(1,2) this assms(3)] have v': "view (storage sm') = spec_close ?s ?v"
    using b by (simp add: spec_request_def next_tree_def admitted_def getOpNum_def)
  show ?thesis
  proof (cases "getNode (storage sm) p")
    case None
    then have "view (storage sm') p = None" unfolding v' by (simp add: spec_close_def view_def)
    with None show ?thesis by (simp add: view_def)
  next
    case (Some n)
    then have v: "?v p = Some (core n)" by (simp add: view_def)
    show ?thesis
    proof (cases "ephemeralOwner n = ?s")
      case True
      then have "view (storage sm') p = None" unfolding v' using v by (simp add: spec_close_def eph_set_def)
      with Some True show ?thesis by (simp add: view_def)
    next
      case False
      then obtain k where "view (storage sm') p = Some ((update_fn ParentOfRemove ^^ k) (core n))"
        unfolding v' using v by (simp add: spec_close_def eph_set_def)
      then obtain n' where n': "getNode (storage sm') p = Some n'" "core n' = (update_fn ParentOfRemove ^^ k) (core n)"
        using view_Some by blast
      then have "n_data (core n') = n_data n" "n_version (core n') = n_version n"
        "ephemeralOwner (core n') = ephemeralOwner n" by (simp_all add: funpow_remove_frame core_fields)
      with n'(1) Some False show ?thesis by (simp add: core_fields)
    qed
  qed
qed

lemma example_append:
  assumes "client_entry r" and "\<not> isl (get_processor (rfs_request r))" and "rfs_digest r = None"
  obtains r' sm' where "PreAppendLogLeader r (example_machine example_context) = Inr (Some r', sm')"
    and "reachable (example_machine example_context, [])"
proof -
  have reach: "reachable (example_machine example_context, [])" by (rule example_reachable) simp
  with leader_progress [OF reachable_inv [OF reach] _ assms(1,2)] assms(3) that
    example_storage(3) [of example_context] show ?thesis by auto
qed

text \<open>Example entries: a multi request whose second part is refused, and a sequential create.\<close>

definition failing_multi :: RequestForSession where
  "failing_multi = example_entry (MultiRequest (Some WriteOp)
     [rfs_request (example_create ''/a'' False world_acl),
      rfs_request (example_entry (RemoveRequest ''/b'' (- 1)))])"

definition sequential_create :: CreateRequestData where
  "sequential_create = \<lparr>cr_path = ''/s'', cr_data = ''data'', cr_is_ephemeral = True, cr_is_sequential = True,
     cr_acls = world_acl, cr_not_exists = False, cr_parent_cversion = - 1\<rparr>"

definition sequential_entry :: RequestForSession where
  "sequential_entry = example_entry (CreateRequest sequential_create)"

lemma failing_multi_facts:
  defines "rs \<equiv> [rfs_request (example_create ''/a'' False world_acl),
      rfs_request (example_entry (RemoveRequest ''/b'' (- 1)))]"
    and "st \<equiv> storage (example_machine example_context)"
  shows "client_entry failing_multi" and "tracked failing_multi"
    and "\<not> isl (get_processor (rfs_request failing_multi))" and "rfs_digest failing_multi = None"
    and "body (rfs_request failing_multi) = MultiRequest (Some WriteOp) rs"
    and "get_processor (rfs_request failing_multi) = Inr (Some WriteOp)"
    and "admitted True (rfs_session_id failing_multi) (rfs_request failing_multi) st"
    and "spec_multi True (getNextZXID st) (rfs_session_id failing_multi) (rfs_time failing_multi)
      (session_auths st (rfs_session_id failing_multi)) rs (view st) = Inl ZNONODE"
    and "length rs = 2"
proof -
  show "client_entry failing_multi" "tracked failing_multi" "\<not> isl (get_processor (rfs_request failing_multi))"
    "get_processor (rfs_request failing_multi) = Inr (Some WriteOp)" by (code_simp, code_simp, code_simp, code_simp)
  show "body (rfs_request failing_multi) = MultiRequest (Some WriteOp) rs" "rfs_digest failing_multi = None" "length rs = 2"
    by (simp_all add: failing_multi_def rs_def example_entry_def)
  show "admitted True (rfs_session_id failing_multi) (rfs_request failing_multi) st" unfolding st_def by code_simp
  have "view st ''/'' \<noteq> None" "map_option isEphemeral (view st ''/'') = Some False" "view st ''/a'' = None" "view st ''/b'' = None"
    unfolding st_def by (code_simp, code_simp, code_simp, code_simp)
  then obtain m where "view st ''/'' = Some m" "\<not> isEphemeral m" "view st ''/a'' = None" "view st ''/b'' = None" by auto
  moreover have "parentNodePath ''/a'' = Some ''/''" "\<not> system_path ''/a''" "\<not> system_path ''/b''" "getBaseNodeName ''/a'' = ''a''"
    "acls_valid auths world_acl" for auths
    by (code_simp, code_simp, code_simp, code_simp, simp add: acls_valid_def world_acl_def)
  ultimately show "spec_multi True (getNextZXID st) (rfs_session_id failing_multi) (rfs_time failing_multi)
      (session_auths st (rfs_session_id failing_multi)) rs (view st) = Inl ZNONODE"
    by (simp add: rs_def example_create_def example_entry_def spec_body_def spec_create_def spec_remove_def Let_def
        del: update_fn.simps)
qed

end
