(* ===== verification/KeeperFindings.thy ===== *)
theory KeeperFindings
  imports KeeperSpec
begin

text \<open>
  Runs in which the code does something that its comments, its documentation or the protocol do not
  mean: undefined behaviour or termination on a request that was accepted, access checks that a
  pending change switches off, and watch events for changes that did not happen. Each run starts at
  the initial state of a server and is evaluated with the definitions of the model.
\<close>

subsection \<open>Runs\<close>

definition started :: configuration where
  "started = (example_machine example_context, [])"

definition commit_of :: "configuration \<Rightarrow> KeeperStateMachine result" where
  "commit_of s =
     (case s of (sm, r # q) \<Rightarrow> sm_commit 0 (lastCommittedIndex sm + 1) r sm | (sm, []) \<Rightarrow> Inr sm)"

definition fails_with :: "'a result \<Rightarrow> failure \<Rightarrow> bool" where
  "fails_with r f = (case r of Inl g \<Rightarrow> g = f | Inr _ \<Rightarrow> False)"

text \<open>A session waits for a node with \<open>exists\<close>.\<close>

definition watched :: "path \<Rightarrow> configuration" where
  "watched p =
     (case processReadRequest 0
             ((example_entry (ExistsRequest p))\<lparr>rfs_request := ZooKeeperRequest 1 True False (ExistsRequest p)\<rparr>)
             (fst started) of
        Inr sm \<Rightarrow> (sm, [])
      | Inl _ \<Rightarrow> started)"

definition event_sent :: "Event \<Rightarrow> path \<Rightarrow> ResponseForSession list \<Rightarrow> bool" where
  "event_sent event p rs \<longleftrightarrow>
     list_ex (\<lambda>r. case rs_response r of
        ZooKeeperResponse e z x b \<Rightarrow> b = WatchResponse event State_CONNECTED p) rs"

subsection \<open>Accepted requests that fail when they are committed\<close>

definition create_if_not_exists :: "path \<Rightarrow> RequestForSession" where
  "create_if_not_exists p = example_entry (CreateRequest \<lparr>cr_path = p, cr_data = [], cr_is_ephemeral = False,
     cr_is_sequential = False, cr_acls = world_acl, cr_not_exists = True, cr_parent_cversion = - 1\<rparr>)"

text \<open>
  \<open>CreateIfNotExists\<close> of a node that exists: preprocessing returns no delta, and the processor reads
  the first delta of the empty list.
\<close>

lemma create_if_not_exists_undefined:
  "length (snd (run_append (create_if_not_exists ''/'') started)) = 1"
  "fails_with (commit_of (run_append (create_if_not_exists ''/'') started)) Undefined_behaviour"
  by (code_simp, code_simp)

text \<open>A multi request without parts: the processor reads the first delta of the empty list.\<close>

lemma empty_multi_undefined:
  "length (snd (run_append (example_entry (MultiRequest None [])) started)) = 1"
  "fails_with (commit_of (run_append (example_entry (MultiRequest None [])) started)) Undefined_behaviour"
  by (code_simp, code_simp)


definition refused_run :: configuration where
  "refused_run = run_append
     (example_entry (MultiRequest None
        [rfs_request (example_entry (SetRequest ''/a'' ''x'' (- 1))),
         rfs_request (example_entry (SetRequest ''/b'' ''x'' (- 1)))])) pending_example"


subsection \<open>Access checks\<close>

definition owner_acl :: ACLs where
  "owner_acl = [\<lparr>permissions = 31, acl_scheme = ''auth'', acl_ident = []\<rparr>]"

text \<open>Session 1 authenticates and takes all permissions on the root.\<close>

definition protected_root :: configuration where
  "protected_root =
     run_commit (run_append (example_entry (SetACLRequest ''/'' owner_acl (- 1)))
       (run_commit (run_append (example_entry (AuthRequest 0 ''digest'' ''user:pw'')) started)))"

definition is_update :: "Operation \<Rightarrow> bool" where
  "is_update op = (case op of UpdateNodeDelta _ _ \<Rightarrow> True | _ \<Rightarrow> False)"

definition open_entry :: "path \<Rightarrow> UncommittedState \<Rightarrow> bool" where
  "open_entry p us = (case map_of (us_nodes us) p of None \<Rightarrow> True | Some e \<Rightarrow> un_acls e = [])"

lemma addDelta_open:
  assumes "addDelta c us d = Inr us'" and "open_entry p us" and "d_path d = p \<longrightarrow> is_update (d_operation d)" and "p \<noteq> []"
  shows "open_entry p us'" "d_path d = p \<Longrightarrow> map_of (us_nodes us') p \<noteq> None"
    "map_of (us_nodes us) p \<noteq> None \<Longrightarrow> map_of (us_nodes us') p \<noteq> None"
proof -
  have "open_entry p us' \<and> (d_path d = p \<longrightarrow> map_of (us_nodes us') p \<noteq> None) \<and>
      (map_of (us_nodes us) p \<noteq> None \<longrightarrow> map_of (us_nodes us') p \<noteq> None)"
  proof (cases "d_path d = p")
    case True
    then obtain f v where "d_operation d = UpdateNodeDelta f v"
      using assms(3) by (auto simp: is_update_def split: Operation.splits)
    with True assms(1,2,4) show ?thesis
      by (auto simp: addDelta_def applyDelta_def apply_operation_def load_node_def open_entry_def update_conv' Let_def
          split: option.splits)
  next
    case False
    with assms(1,2) show ?thesis
      by (auto simp: addDelta_def applyDelta_def open_entry_def update_conv' Let_def split: if_splits Operation.splits)
  qed
  then show "open_entry p us'" "d_path d = p \<Longrightarrow> map_of (us_nodes us') p \<noteq> None"
    "map_of (us_nodes us) p \<noteq> None \<Longrightarrow> map_of (us_nodes us') p \<noteq> None" by blast+
qed

lemma addDeltas_open:
  "rfold (addDelta c) us ds = Inr us' \<Longrightarrow> open_entry p us \<Longrightarrow> p \<noteq> [] \<Longrightarrow>
   \<forall>d\<in>set ds. d_path d = p \<longrightarrow> is_update (d_operation d) \<Longrightarrow>
   open_entry p us' \<and> (map_of (us_nodes us) p \<noteq> None \<or> p \<in> d_path ` set ds \<longrightarrow> map_of (us_nodes us') p \<noteq> None)"
proof (induction ds arbitrary: us)
  case (Cons d ds)
  then obtain us1 where us1: "addDelta c us d = Inr us1" "rfold (addDelta c) us1 ds = Inr us'" by auto
  note o = addDelta_open [OF us1(1) Cons.prems(2) _ Cons.prems(3)]
  have "d_path d = p \<longrightarrow> is_update (d_operation d)" using Cons.prems(4) by simp
  with Cons.IH [OF us1(2) o(1) Cons.prems(3)] o(2,3) Cons.prems(4) show ?case by auto
qed simp

text \<open>
  C32: A pending change of the statistics of a node switches its access check off: when the deltas of
  a request update a node that has no uncommitted entry yet, and do not create it or set its access
  control list, every session passes the check of every permission on that node until they are
  committed. The witness is a root on which only session 1 has permissions.
\<close>

theorem pending_update_opens_acl:
  assumes "add_deltas ds st = Inr st'" and "map_of (us_nodes (uncommitted_state st)) p = None" and "p \<noteq> []"
    and "p \<in> d_path ` set ds" and "\<forall>d\<in>set ds. d_path d = p \<longrightarrow> is_update (d_operation d)"
  shows "checkACL st' p permission sid False = Inr True"
proof -
  have "open_entry p (uncommitted_state st)" using assms(2) by (simp add: open_entry_def)
  moreover obtain us where us: "rfold (addDelta (container st)) (uncommitted_state st) ds = Inr us"
      "st' = st\<lparr>uncommitted_state := us\<rparr>"
    using assms(1) by (auto simp: add_deltas_def addDeltas_def)
  ultimately have "open_entry p us \<and> map_of (us_nodes us) p \<noteq> None" using addDeltas_open [OF us(1)] assms(3-5) by blast
  with us(2) show ?thesis
    by (auto simp: open_entry_def checkACL_def getNodeACLs_def uncommitted_getACLs_def)
qed

theorem pending_update_opens_acl_witness:
  "checkACL (storage (fst protected_root)) ''/'' 2 2 False = Inr False \<and>
   (\<exists>st'. add_deltas (create_deltas 3 1 0 sequential_create ''/'' ''/s0000000000'' [])
            (storage (fst protected_root)) = Inr st' \<and> checkACL st' ''/'' 2 2 False = Inr True)"
proof -
  let ?ds = "create_deltas 3 1 0 sequential_create ''/'' ''/s0000000000'' []" and ?st = "storage (fst protected_root)"
  have "checkACL ?st ''/'' 2 2 False = Inr False" by code_simp
  moreover have "\<not> isl (add_deltas ?ds ?st)" by code_simp
  then obtain st' where st': "add_deltas ?ds ?st = Inr st'" by (cases "add_deltas ?ds ?st") auto
  moreover have "map_of (us_nodes (uncommitted_state ?st)) ''/'' = None" by code_simp
  from pending_update_opens_acl [OF st' this] have "checkACL st' ''/'' 2 2 False = Inr True"
    by (simp add: create_deltas_def is_update_def)
  ultimately show ?thesis by blast
qed

text \<open>
  An entry for \<open>world:anyone\<close> is dropped whatever its permissions: a list that only allows everybody
  to read becomes the empty list, which allows everything.
\<close>

lemma read_only_world_dropped:
  "fixupACL [\<lparr>permissions = 1, acl_scheme = ''world'', acl_ident = ''anyone''\<rparr>] sid st = Some []"
  by (simp add: fixupACL_def)

subsection \<open>Watches\<close>


text \<open>
  The watches of a sequential create are those of the requested path, not of the created one.
\<close>

lemma sequential_create_watches:
  "event_sent CREATED ''/s'' (responses_queue (projr (commit_of (run_append sequential_entry (watched ''/s'')))))"
  "container (storage (projr (commit_of (run_append sequential_entry (watched ''/s''))))) ''/s'' = None"
  "\<not> event_sent CREATED ''/s0000000000''
     (responses_queue (projr (commit_of (run_append sequential_entry (watched ''/s0000000000'')))))"
  by (code_simp, code_simp, code_simp)

end
