(* ===== verification/Spec2Isabelle.thy ===== *)
theory Spec2Isabelle
  imports SnapshotTable SipHash SessionExpiry KeeperWatches KeeperFlags KeeperFindings
begin

text \<open>
  ClickHouse Keeper, the coordination service of \<open>src/src/Coordination\<close>: a replicated tree of nodes
  with the ZooKeeper protocol.

  \<^bold>\<open>The program.\<close> A client request becomes an entry of a RAFT log. When an entry is appended,
  \<open>KeeperStateMachine::preprocess\<close> calls \<open>KeeperStorage::preprocessRequest\<close>, which checks the request
  against the tree with all pending changes and records what it will do as deltas in the
  \<open>UncommittedState\<close>. When RAFT commits the entry, \<open>KeeperStateMachine::commit\<close> calls
  \<open>KeeperStorage::processRequest\<close>, which applies the deltas to the container of nodes, answers the
  request and fires watches. When RAFT takes the entry back, \<open>rollbackRequest\<close> undoes the deltas. Reads
  that skip the log are answered by \<open>processReadRequest\<close> from the committed nodes. Digests of the tree
  travel with the entries so that replicas detect when they diverge.

  \<^bold>\<open>The model, from the bottom.\<close> Records, datatypes and functions carry the names of the code; each
  theory says in its first block what it translates.
  \<^item> \<open>Prelude\<close>: results of fallible code (exceptions, \<open>std::terminate\<close> and undefined behaviour are
    values), machine integers, hash containers, shared lemmas.
  \<^item> \<open>KeeperPaths\<close> (\<open>KeeperCommon.cpp\<close>, \<open>ZooKeeperCommon.cpp\<close>): parent, base name, subtree test.
  \<^item> \<open>KeeperTypes\<close> (\<open>src/src/Common/ZooKeeper\<close>): requests, responses, error and operation codes.
  \<^item> \<open>SipHash\<close> (\<open>src/src/Common/SipHash.h\<close>): the hash under the digests.
  \<^item> \<open>AclTable\<close> (\<open>ACLMap\<close>): interned access control lists with usage counters.
  \<^item> \<open>SessionExpiry\<close> (\<open>SessionExpiryQueue\<close>): sessions in buckets of deadlines.
  \<^item> \<open>SnapshotTable\<close> (\<open>SnapshotableHashTable.h\<close>): the container of nodes, down to list iterators, key
    allocations and the snapshot mode.
  \<^item> \<open>KeeperNode\<close> (\<open>KeeperStorage::Node\<close>): fields, digest and its memo, the updates that deltas carry.
  \<^item> \<open>KeeperState\<close> (\<open>KeeperStorage::Delta\<close>, \<open>UncommittedState\<close>): adding, committing and rolling back deltas,
    and the cached view of the pending tree.
  \<^item> \<open>KeeperStorage\<close> (\<open>KeeperStorage\<close>): the whole state, its construction, commit of deltas, digests, access
    checks, sessions. Its container is a map from paths to nodes, which is what \<open>SnapshotTable\<close>
    shows of the hash table.
  \<^item> \<open>KeeperFlags\<close> (\<open>KeeperFeatureFlags.cpp\<close>, \<open>KeeperContext.cpp\<close>): feature flags and the system nodes that
    publish them.
  \<^item> \<open>KeeperWatches\<close>: registering, firing and clearing watches.
  \<^item> \<open>KeeperProcessors\<close>, \<open>KeeperRequests\<close>: \<open>preprocess\<close>, \<open>process\<close>, \<open>processLocal\<close>, \<open>checkAuth\<close> and
    \<open>processWatches\<close> of every request, the multi request, and the three entry points.
  \<^item> \<open>KeeperMachine\<close> (\<open>KeeperStateMachine.cpp\<close>, \<open>KeeperServer::callbackFunc\<close>): the state machine and the
    events of the RAFT library that reach it.

  \<^bold>\<open>The specification and the proofs.\<close>
  \<^item> \<open>KeeperTree\<close> is the abstract storage: a tree is a map from paths to what a node means, a delta is a
    partial step on trees. \<open>KeeperPending\<close> shows that the uncommitted state refines it: the cached view
    is the committed tree with the pending deltas applied, after every addition, commit and rollback.
  \<^item> \<open>KeeperInvariant\<close>, \<open>KeeperDigest\<close>, \<open>KeeperPreprocess\<close>: well-formed trees; the deltas of every processor
    are accepted on them, lead to well-formed trees, and have the predicted digest.
  \<^item> \<open>KeeperTransactions\<close>, \<open>KeeperContents\<close>, \<open>KeeperCommit\<close>, \<open>KeeperFrames\<close>, \<open>KeeperReply\<close>: the invariant of the
    whole storage under preprocessing, commit and rollback, child sets and access control lists
    included, what each leaves alone, and that a commit always has a reply.
  \<^item> \<open>KeeperInitial\<close>, \<open>RequestForm\<close>, \<open>KeeperEffects\<close>, \<open>KeeperReads\<close>: the constructed storage meets the
    invariant; the documented form of requests; watches and sessions; local reads.
  \<^item> \<open>KeeperRuns\<close>: \<open>raft_step\<close> and \<open>reachable\<close>, the runs that RAFT allows (commits in the order of the
    log, removal from its end), with the invariant by rule induction. \<open>KeeperExamples\<close> holds concrete
    runs for the witnesses, \<open>KeeperFacts\<close> what the invariant says of the data structures.
  \<^item> \<open>SequentialNames\<close>, \<open>KeeperSpec\<close>: what each request does to the tree, without deltas, caches or
    indexes, and that preprocessing at the leader refines it.
  \<^item> \<open>KeeperFindings\<close>: runs in which the code does what it does not mean to do.
  \<^item> This theory: the properties of runs. The committed nodes form a tree, the index of ephemeral nodes
    and the usage counters are exact; commits apply the pending deltas, succeed and meet the predicted
    digest; rollback restores; requests do what the specification says; reads are answered.

  The locale \<open>interner\<close> of \<open>AclTable\<close> is the contract of an interning table, and \<open>node_store\<close> of
  \<open>SnapshotTable\<close> that of a container that refines a map; both are interpreted on the model of the code.

  \<^bold>\<open>Hypotheses and bounds.\<close> Nothing is cut off by fuel: all definitions are total. Signed integers are
  unbounded, so executions with signed overflow, which is undefined behaviour, are outside the model.
  \<open>client_entry\<close> asks for a request of the documented form (absolute paths without empty components, a
  session other than 0), which the server does not check, and excludes reconfiguration. \<open>tracked\<close>
  excludes the requests for a new session, which have no deltas. \<open>acl_capacity\<close> asks that ids of access
  control lists and 64 bit usage counters do not run out while the pending deltas are committed.
  \<open>regular\<close> excludes the requests of \<open>KeeperFindings\<close>. Data of a node is shorter than \<open>2 ^ 32\<close> bytes where its
  length is stored in 32 bits. A snapshot is preceded by fewer than \<open>2 ^ 64\<close> operations, so that the
  version counter of the table does not wrap. The form of the system nodes (\<open>sys_nodes_ok\<close>) is what
  \<open>KeeperFlags\<close> builds. The clock, \<open>sizeof\<close> and the size of table values are arguments.

  \<^bold>\<open>Not modelled.\<close> The changelog and the snapshot files (file formats, compression, background threads),
  the RAFT library itself, the queues and threads of the dispatcher, reconfiguration of the cluster,
  the wire format of messages, the four letter commands and other monitoring, the client library,
  and the reader of ZooKeeper data files: they are I/O and concurrency around the operations above.
  The locks of the state machine make each operation atomic, so operations are steps of one sequence.
  The rest of the repository, the database server, is a separate program.
\<close>

section \<open>The committed tree\<close>

text \<open>
  C1: In every reachable configuration the committed nodes form a tree: the parent of a node is a
  committed persistent node that lists the node among its children, the child list of a node has no
  duplicates and names exactly the nodes below it, the counter in its statistics is the length of
  that list (the system node apart), and a node is ephemeral exactly when it has an owner.
\<close>

theorem committed_tree_structure:
  assumes "reachable (sm, q)" and "container (storage sm) p = Some n"
  shows "(\<exists>parent m. parentNodePath p = Some parent \<and> container (storage sm) parent = Some m \<and> \<not> isEphemeral m \<and>
      (p \<noteq> parent \<longrightarrow> getBaseNodeName p \<in> set (n_children m))) \<and>
    distinct (n_children n) \<and>
    set (n_children n) =
      {getBaseNodeName c |c. c \<noteq> p \<and> parentNodePath c = Some p \<and> container (storage sm) c \<noteq> None} \<and>
    (p \<noteq> keeper_system_path \<longrightarrow> numChildren n = int (length (n_children n))) \<and>
    (isEphemeral n \<longleftrightarrow> ephemeralOwner n \<noteq> 0)"
  using committed_node_facts [OF assms] by blast

theorem committed_tree_structure_witness:
  "\<exists>n. container (storage (fst committed_example)) ''/a'' = Some n \<and> distinct (n_children n) \<and>
     numChildren n = int (length (n_children n)) \<and> (isEphemeral n \<longleftrightarrow> ephemeralOwner n \<noteq> 0)"
proof -
  obtain n where n: "container (storage (fst committed_example)) ''/a'' = Some n"
    using committed_example_node by blast
  have "reachable (fst committed_example, snd committed_example)" using committed_example_reachable by simp
  from committed_tree_structure [OF this n] n show ?thesis by (simp add: keeper_system_path_def)
qed

text \<open>
  C7: In every reachable configuration the index of ephemeral nodes is exact: the paths registered
  for a session are, without duplicates, the ephemeral nodes it owns once the pending requests are
  counted in.
\<close>

theorem ephemeral_index_exact:
  assumes "reachable (sm, q)" and "sid \<noteq> 0"
  shows "distinct (bucket (ephemerals (storage sm)) sid) \<and>
    set (bucket (ephemerals (storage sm)) sid) =
      {p. \<exists>n. getNode (storage sm) p = Some n \<and> isEphemeral n \<and> ephemeralOwner n = sid}"
  using reachable_ephemerals [OF assms] by blast

theorem ephemeral_index_exact_witness:
  "bucket (ephemerals (storage (fst pending_example))) 1 = [''/a''] \<and>
   {p. \<exists>n. getNode (storage (fst pending_example)) p = Some n \<and> isEphemeral n \<and> ephemeralOwner n = 1} = {''/a''}"
proof -
  have b: "bucket (ephemerals (storage (fst pending_example))) 1 = [''/a'']" by code_simp
  have "reachable (fst pending_example, snd pending_example)" using pending_example_reachable by simp
  from ephemeral_index_exact [OF this, of 1] b show ?thesis by simp
qed

text \<open>
  C8: In every reachable configuration the usage counter of an interned access control list is the
  number of committed nodes that carry its id, and the id of every committed node resolves.
\<close>

theorem acl_usage_exact:
  assumes "reachable (sm, q)"
  shows "(\<forall>a. a \<noteq> 0 \<longrightarrow> (case usage_counter (acl_map (storage sm)) a of None \<Rightarrow> 0 | Some c \<Rightarrow> unat c) =
      card {p. \<exists>n. container (storage sm) p = Some n \<and> n_acl_id n = a}) \<and>
    (\<forall>p n. container (storage sm) p = Some n \<longrightarrow>
      (\<exists>acls. convertNumber (acl_map (storage sm)) (n_acl_id n) = Inr acls))"
  using reachable_acls [OF assms] by blast

theorem acl_usage_exact_witness:
  "card {p. \<exists>n. container (storage (fst committed_example)) p = Some n \<and> n_acl_id n = 1} = 1"
proof -
  have "(case usage_counter (acl_map (storage (fst committed_example))) 1 of None \<Rightarrow> 0 | Some c \<Rightarrow> unat c) = 1"
    by code_simp
  moreover have "reachable (fst committed_example, snd committed_example)" using committed_example_reachable by simp
  ultimately show ?thesis using acl_usage_exact by fastforce
qed

section \<open>Committing and rolling back\<close>



text \<open>
  C5: The digest that preprocessing predicted for a log entry is the digest of the storage after the
  commit, and the incrementally maintained digest changes by the digests of the nodes that changed.
\<close>

theorem commit_digest_predicted:
  assumes "reachable (sm, r # q)" and "tracked r"
    and "acl_capacity (length (pending (storage sm))) (storage sm)" and "sm_commit now log_idx r sm = Inr sm'"
  shows "getNodesDigest (storage sm') True = ti_nodes_digest (hd (uncommitted_transactions (storage sm))) \<and>
    (digestEnabled (keeper_context (storage sm)) \<longrightarrow>
       nodes_digest (storage sm') - nodes_digest (storage sm) =
         tree_digest (committed_tree (storage sm')) - tree_digest (committed_tree (storage sm)))"
proof -
  obtain out where p: "processRequest now (rfs_request r) (rfs_session_id r) (Some (rfs_zxid r)) True False (storage sm)
      = Inr (out, storage sm')" and s: "serving (storage sm) (r # filter tracked q)"
    using tracked_commit [OF assms(1,2,4)] by blast
  show ?thesis
    using serving_commit(5) [OF s assms(3) p] serving_commit_deltas [OF s p] by (auto simp: digest_add_def)
qed

theorem commit_digest_predicted_witness:
  "\<exists>sm'. sm_commit 0 1 digest_entry (fst digest_example) = Inr sm' \<and>
     getNodesDigest (storage sm') True = ti_nodes_digest (hd (uncommitted_transactions (storage (fst digest_example)))) \<and>
     nodes_digest (storage sm') - nodes_digest (storage (fst digest_example)) =
       tree_digest (committed_tree (storage sm')) - tree_digest (committed_tree (storage (fst digest_example)))"
proof -
  note log = digest_example_log
  obtain sm' where "sm_commit 0 1 digest_entry (fst digest_example) = Inr sm'"
    using commit_progress [OF reachable_inv [OF log(1)] log(3,4,5)] by blast
  with commit_digest_predicted [OF log(1,2,3) this] log(6) show ?thesis by blast
qed



section \<open>What a request does\<close>

text \<open>
  C3: A request that the leader appends changes the tree that later requests see exactly as the
  specification of requests says: an admitted request yields the next tree of the specification or,
  when the specification refuses it, leaves the tree alone; a request without permission leaves it
  alone. The specification knows no deltas, caches, child counters or indexes.
\<close>

theorem request_refines_spec:
  assumes "reachable (sm, q)" and "client_entry r" and "tracked r" and "PreAppendLogLeader r sm = Inr (Some r', sm')"
  shows "view (storage sm') =
    (if admitted True (rfs_session_id r) (rfs_request r) (storage sm)
     then (case spec_request (getNextZXID (storage sm)) (rfs_session_id r) (rfs_time r)
             (session_auths (storage sm) (rfs_session_id r)) (rfs_request r) (view (storage sm)) of
             Inl e \<Rightarrow> view (storage sm)
           | Inr t \<Rightarrow> t)
     else view (storage sm))"
  using leader_spec [OF assms] by (simp add: next_tree_def)

theorem request_refines_spec_witness:
  "view (storage (fst pending_example)) =
     (case spec_request 1 1 0 [] (rfs_request (example_create ''/a'' True private_acl))
        (view (storage (example_machine example_context))) of
        Inl e \<Rightarrow> view (storage (example_machine example_context)) | Inr t \<Rightarrow> t)"
proof -
  let ?r = "example_create ''/a'' True private_acl"
  have p: "PreAppendLogLeader ?r (example_machine example_context) = Inr (Some pending_entry, fst pending_example)"
    using pending_example_eq by (auto simp: pending_example_def run_append_def split: sum.splits option.splits)
  have "reachable (example_machine example_context, [])" by (rule example_reachable) simp
  moreover have "admitted True 1 (rfs_request ?r) (storage (example_machine example_context))" by code_simp
  moreover have "getNextZXID (storage (example_machine example_context)) = 1" by code_simp
  moreover have "session_auths (storage (example_machine example_context)) 1 = []" by code_simp
  moreover have "rfs_session_id ?r = 1" "rfs_time ?r = 0" by (simp_all add: example_create_def example_entry_def)
  ultimately show ?thesis using request_refines_spec [OF _ _ _ p] by auto
qed



text \<open>
  C10: Closing a session removes, in the tree that later requests see, exactly the ephemeral nodes of
  that session; every other node stays, with its data, version and owner.
\<close>

theorem close_removes_ephemerals:
  assumes "reachable (sm, q)" and "client_entry r" and "PreAppendLogLeader r sm = Inr (Some r', sm')"
    and "body (rfs_request r) = CloseRequest"
  shows "case getNode (storage sm) p of
      None \<Rightarrow> getNode (storage sm') p = None
    | Some n \<Rightarrow>
        if ephemeralOwner n = rfs_session_id r then getNode (storage sm') p = None
        else \<exists>n'. getNode (storage sm') p = Some n' \<and> n_data n' = n_data n \<and> n_version n' = n_version n \<and>
          ephemeralOwner n' = ephemeralOwner n"
  by (rule leader_close [OF assms])

theorem close_removes_ephemerals_witness:
  "\<exists>r' sm'. PreAppendLogLeader (example_entry CloseRequest) (fst pending_example) = Inr (Some r', sm') \<and>
     getNode (storage sm') ''/a'' = None \<and> getNode (storage sm') ''/'' \<noteq> None"
proof -
  let ?r = "example_entry CloseRequest" and ?st = "storage (fst pending_example)"
  note log = pending_example_log
  have c: "client_entry ?r" "\<not> isl (get_processor (rfs_request ?r))" by (code_simp, code_simp)
  moreover have "handleSystemNodeModification (keeper_context ?st) = Inr ()" "localLogsPreprocessed (fst pending_example)"
    by (code_simp, code_simp)
  moreover have "rfs_digest ?r = None" "body (rfs_request ?r) = CloseRequest" "rfs_session_id ?r = 1"
    by (simp_all add: example_entry_def)
  ultimately obtain r' sm' where p: "PreAppendLogLeader ?r (fst pending_example) = Inr (Some r', sm')"
    using leader_progress [OF reachable_inv [OF log(1)]] by (metis (no_types) option.case(1))
  have "map_option ephemeralOwner (getNode ?st ''/a'') = Some 1" "map_option ephemeralOwner (getNode ?st ''/'') = Some 0"
    by (code_simp, code_simp)
  then obtain a b where n: "getNode ?st ''/a'' = Some a" "ephemeralOwner a = 1"
    "getNode ?st ''/'' = Some b" "ephemeralOwner b = 0" by auto
  note close = close_removes_ephemerals [OF log(1) c(1) p]
  have "getNode (storage sm') ''/a'' = None" using close [of "''/a''"] n(1,2) by (simp add: example_entry_def)
  moreover have "getNode (storage sm') ''/'' \<noteq> None" using close [of "''/''"] n(3,4) by (auto simp: example_entry_def)
  ultimately show ?thesis using p by blast
qed

text \<open>
  C11: \<open>set\<close> is a compare-and-swap: with the right version, or without one, the node gets the new data,
  the next version and the zxid of the entry, and keeps its creation zxid; with another version nothing
  changes.
\<close>

theorem set_compare_and_swap:
  assumes "reachable (sm, q)" and "client_entry r" and "PreAppendLogLeader r sm = Inr (Some r', sm')"
    and "body (rfs_request r) = SetRequest p new_data ver"
    and "admitted True (rfs_session_id r) (rfs_request r) (storage sm)" and "\<not> system_path p"
    and "length new_data < 2 ^ 32" and "getNode (storage sm) p = Some n"
  shows "if version_ok ver (n_version n)
    then \<exists>n'. getNode (storage sm') p = Some n' \<and> n_data n' = new_data \<and> n_version n' = n_version n + 1 \<and>
      n_mzxid n' = rfs_zxid r' \<and> n_czxid n' = n_czxid n
    else view (storage sm') = view (storage sm)"
  by (rule leader_set [OF assms])

theorem set_compare_and_swap_witness:
  "\<exists>r' sm' n'. PreAppendLogLeader (example_entry (SetRequest ''/'' ''x'' 0)) (example_machine example_context) =
       Inr (Some r', sm') \<and> getNode (storage sm') ''/'' = Some n' \<and> n_data n' = ''x'' \<and> n_version n' = 1"
proof -
  let ?r = "example_entry (SetRequest ''/'' ''x'' 0)" and ?st = "storage (example_machine example_context)"
  have c: "client_entry ?r" "\<not> isl (get_processor (rfs_request ?r))" "rfs_digest ?r = None"
    by (code_simp, code_simp, simp add: example_entry_def)
  obtain r' sm' where p: "PreAppendLogLeader ?r (example_machine example_context) = Inr (Some r', sm')"
    "reachable (example_machine example_context, [])" by (rule example_append [OF c])
  have "map_option n_version (getNode ?st ''/'') = Some 0" by code_simp
  then obtain n where n: "getNode ?st ''/'' = Some n" "n_version n = 0" by auto
  have a: "admitted True (rfs_session_id ?r) (rfs_request ?r) ?st" "\<not> system_path ''/''" by (code_simp, code_simp)
  have "body (rfs_request ?r) = SetRequest ''/'' ''x'' 0" by (simp add: example_entry_def)
  from set_compare_and_swap [OF p(2) c(1) p(1) this a _ n(1)] n(2) p(1) show ?thesis
    by (auto simp: version_ok_def)
qed

text \<open>
  C12: A sequential create makes a node whose name ends in the counter of the parent, owned by the
  session when it is ephemeral, and moves that counter and the number of children up by one, so that
  the next sequential node below the parent gets the next number.
\<close>

theorem sequential_create_counts:
  assumes "reachable (sm, q)" and "client_entry r" and "PreAppendLogLeader r sm = Inr (Some r', sm')"
    and "body (rfs_request r) = CreateRequest c" and "cr_is_sequential c" and "\<not> cr_not_exists c"
    and "admitted True (rfs_session_id r) (rfs_request r) (storage sm)"
    and "parentNodePath (cr_path c) = Some d" and "getNode (storage sm) d = Some m" and "\<not> isEphemeral m"
    and "p = cr_path c @ seq_num_str (seqNum m)" and "\<not> system_path p" and "getNode (storage sm) p = None"
    and "acls_valid (session_auths (storage sm) (rfs_session_id r)) (cr_acls c)" and "length (cr_data c) < 2 ^ 32"
  shows "\<exists>n m'. getNode (storage sm') p = Some n \<and> n_data n = cr_data c \<and> n_czxid n = rfs_zxid r' \<and>
    ephemeralOwner n = (if cr_is_ephemeral c then rfs_session_id r else 0) \<and>
    getNode (storage sm') d = Some m' \<and> seqNum m' = seqNum m + 1 \<and> numChildren m' = numChildren m + 1"
  by (rule leader_sequential [OF assms])

theorem sequential_create_counts_witness:
  "\<exists>r' sm' n m'. PreAppendLogLeader sequential_entry (example_machine example_context) = Inr (Some r', sm') \<and>
     getNode (storage sm') ''/s0000000000'' = Some n \<and> n_data n = ''data'' \<and>
     getNode (storage sm') ''/'' = Some m' \<and> seqNum m' = 1"
proof -
  let ?r = sequential_entry and ?st = "storage (example_machine example_context)"
  have c: "client_entry ?r" "\<not> isl (get_processor (rfs_request ?r))" "rfs_digest ?r = None"
    by (code_simp, code_simp, simp add: sequential_entry_def example_entry_def)
  obtain r' sm' where p: "PreAppendLogLeader ?r (example_machine example_context) = Inr (Some r', sm')"
    "reachable (example_machine example_context, [])" by (rule example_append [OF c])
  have "map_option seqNum (getNode ?st ''/'') = Some 0 \<and> map_option isEphemeral (getNode ?st ''/'') = Some False"
    by code_simp
  then obtain m where m: "getNode ?st ''/'' = Some m" "seqNum m = 0" "\<not> isEphemeral m" by auto
  have a: "admitted True (rfs_session_id ?r) (rfs_request ?r) ?st" "\<not> system_path ''/s0000000000''"
    "getNode ?st ''/s0000000000'' = None" "parentNodePath (cr_path sequential_create) = Some ''/''"
    "''/s0000000000'' = cr_path sequential_create @ seq_num_str 0"
    "acls_valid (session_auths ?st (rfs_session_id ?r)) (cr_acls sequential_create)"
    by (code_simp, code_simp, code_simp, code_simp, code_simp, code_simp)
  have b: "body (rfs_request ?r) = CreateRequest sequential_create" "cr_is_sequential sequential_create"
    "\<not> cr_not_exists sequential_create" "cr_data sequential_create = ''data''"
    by (simp_all add: sequential_entry_def sequential_create_def example_entry_def)
  from sequential_create_counts [OF p(2) c(1) p(1) b(1-3) a(1,4) m(1,3) _ a(2,3,6)] a(5) m(2) b(4) p(1)
  show ?thesis by simp blast
qed

section \<open>Requests are answered\<close>





text \<open>
  C15: A local read is always answered, with exactly one response that carries the last committed
  zxid, and it leaves nodes, pending transactions, digests and access control lists alone.
\<close>

theorem local_read_answers:
  assumes "reachable (sm, q)" and "read_request (rfs_request r)" and "well_formed (rfs_request r)"
  shows "\<exists>sm' out. processReadRequest now r sm = Inr sm' \<and> length out = 1 \<and>
    responses_queue sm' = (if queue_finished sm then responses_queue sm else responses_queue sm @ out) \<and>
    reply_to (rfs_request r) (rfs_session_id r) (storage_zxid (storage sm)) out \<and>
    container (storage sm') = container (storage sm) \<and> acl_map (storage sm') = acl_map (storage sm) \<and>
    uncommitted_state (storage sm') = uncommitted_state (storage sm) \<and>
    uncommitted_transactions (storage sm') = uncommitted_transactions (storage sm) \<and>
    nodes_digest (storage sm') = nodes_digest (storage sm)"
proof -
  obtain out sm' where r: "processReadRequest now r sm = Inr sm'" "side (storage sm) (storage sm')" "length out = 1"
      "reply_to (rfs_request r) (rfs_session_id r) (storage_zxid (storage sm)) out"
      "sm' = fold try_push out (sm\<lparr>storage := storage sm'\<rparr>)"
    using read_progress [OF reachable_inv [OF assms(1)] assms(2,3)] by blast
  have "responses_queue sm' = (if queue_finished sm then responses_queue sm else responses_queue sm @ out)"
    using fold_try_push_queue [of out "sm\<lparr>storage := storage sm'\<rparr>"] r(5) by simp
  then show ?thesis using r(1,3,4) side_frame [OF r(2)] by blast
qed

theorem local_read_answers_witness:
  "\<exists>sm' out. processReadRequest 0 (example_entry (ListRequest ''/'')) (example_machine example_context) = Inr sm' \<and>
     length out = 1 \<and> responses_queue sm' = out"
proof -
  let ?r = "example_entry (ListRequest ''/'')"
  have "reachable (example_machine example_context, [])" by (rule example_reachable) simp
  moreover have "read_request (rfs_request ?r)" "well_formed (rfs_request ?r)"
    by (simp_all add: example_entry_def read_request_def read_body_def well_formed_def get_processor_def)
  moreover have "responses_queue (example_machine example_context) = []" "\<not> queue_finished (example_machine example_context)"
    by (simp_all add: example_machine_def KeeperStateMachine_init_def)
  ultimately show ?thesis using local_read_answers [of "example_machine example_context" "[]" ?r 0] by auto
qed

text \<open>
  C16: The list of children that a request returns is complete and has no duplicates: for a committed
  node of a reachable configuration it names exactly the nodes below it that pass the filter (all,
  persistent or ephemeral ones).
\<close>

theorem list_children_complete:
  assumes "reachable (sm, q)" and "container (storage sm) p = Some n"
  shows "\<exists>names. list_names (container (storage sm)) p ty (n_children n) = Inr names \<and> distinct names \<and>
    set names = {getBaseNodeName c |c m. c \<noteq> p \<and> parentNodePath c = Some p \<and>
      container (storage sm) c = Some m \<and>
      (ty = LIST_ALL \<or> isEphemeral m \<and> ty = EPHEMERAL_ONLY \<or> \<not> isEphemeral m \<and> ty = PERSISTENT_ONLY)}"
proof -
  have "kids_ok (container (storage sm))"
    using servingD(4) [OF reachable_serving [OF assms(1)]] by (simp add: contents_ok_def)
  from list_names_set [OF this assms(2), of ty] show ?thesis unfolding wanted_def .
qed

theorem list_children_complete_witness:
  "\<exists>names. list_names (container (storage (fst committed_example))) ''/'' EPHEMERAL_ONLY
     (n_children (the (container (storage (fst committed_example)) ''/''))) = Inr names \<and> distinct names"
proof -
  have "container (storage (fst committed_example)) ''/'' \<noteq> None" by code_simp
  then obtain n where n: "container (storage (fst committed_example)) ''/'' = Some n" by blast
  have "reachable (fst committed_example, snd committed_example)" using committed_example_reachable by simp
  from list_children_complete [OF this n, of EPHEMERAL_ONLY] n show ?thesis by auto
qed

end
